(* ===== verification/Prelude.thy ===== *)
theory Prelude
  imports Main "HOL-Library.Word" "HOL-Library.Multiset" "HOL-Library.List_Lexorder"
    "HOL-Library.Char_ord"
begin

text \<open>
  Shared vocabulary of the development: the faults a C program can run into, size_t arithmetic
  (64 bit, wrapping), the C library string functions the sources call, and the generic lemmas on
  lists that several components use.  Memory exhaustion (a malloc that fails) is not modelled.
\<close>

named_theorems csize \<open>size_t arithmetic without wrap-around\<close>
named_theorems cstr \<open>facts on C strings\<close>

section \<open>Faults\<close>

text \<open>
  Undefined behaviour of the source is a value of the model: dereferencing NULL, reading or writing
  outside an array, dividing by zero, overflowing a signed integer, using freed memory, reading
  memory that was never written.  A computation that can fault has type fault + 'a; one
  that can also loop forever has type (fault + 'a) option with None for not returning.
\<close>

datatype fault = NullDeref | BadIndex | DivZero | SignedOverflow | UseAfterFree | Uninitialised

abbreviation ok :: "'a \<Rightarrow> fault + 'a" where "ok x \<equiv> Inr x"
abbreviation crash :: "fault \<Rightarrow> fault + 'a" where "crash f \<equiv> Inl f"

definition and_then :: "fault + 'a \<Rightarrow> ('a \<Rightarrow> fault + 'b) \<Rightarrow> fault + 'b" where
  "and_then m f = (case m of Inl e \<Rightarrow> Inl e | Inr x \<Rightarrow> f x)"

lemma and_then_simps [simp]:
  "and_then (Inr x) f = f x"
  "and_then (Inl e) f = Inl e"
  by (simp_all add: and_then_def)

lemma and_then_ok_iff: "and_then m f = Inr y \<longleftrightarrow> (\<exists>x. m = Inr x \<and> f x = Inr y)"
  by (cases m) auto

lemma and_then_cong [fundef_cong]:
  "m = m' \<Longrightarrow> (\<And>x. m' = Inr x \<Longrightarrow> f x = f' x) \<Longrightarrow> and_then m f = and_then m' f'"
  by (cases m') auto

text \<open>The same for computations that may not return.\<close>

definition run_then :: "(fault + 'a) option \<Rightarrow> ('a \<Rightarrow> (fault + 'b) option) \<Rightarrow> (fault + 'b) option" where
  "run_then m f = (case m of None \<Rightarrow> None | Some (Inl e) \<Rightarrow> Some (Inl e) | Some (Inr x) \<Rightarrow> f x)"

lemma run_then_simps [simp]:
  "run_then (Some (Inr x)) f = f x"
  "run_then (Some (Inl e)) f = Some (Inl e)"
  "run_then None f = None"
  by (simp_all add: run_then_def)

lemma run_then_ok_iff: "run_then m f = Some (Inr y) \<longleftrightarrow> (\<exists>x. m = Some (Inr x) \<and> f x = Some (Inr y))"
  by (auto simp: run_then_def split: option.splits sum.splits)

lemma run_then_assoc: "run_then (run_then m f) g = run_then m (\<lambda>x. run_then (f x) g)"
  by (auto simp: run_then_def split: option.split sum.split)

lemma run_then_bind:
  "run_then m f = Option.bind m (\<lambda>r. case r of Inl e \<Rightarrow> Some (Inl e) | Inr x \<Rightarrow> f x)"
  by (auto simp: run_then_def split: option.split sum.split)

lemma run_then_mono [partial_function_mono]:
  assumes "mono_option B" "\<And>y. mono_option (C y)"
  shows "mono_option (\<lambda>f. run_then (B f) (\<lambda>y. C y f))"
  unfolding run_then_bind
proof (rule bind_mono [OF assms(1)])
  fix r
  show "mono_option (\<lambda>f. case r of Inl e \<Rightarrow> Some (Inl e) | Inr x \<Rightarrow> C x f)"
    by (cases r) (simp_all add: assms(2) option.const_mono)
qed

section \<open>size_t\<close>

text \<open>A size_t is a natural number below 2 to the 64; its operations wrap.\<close>

definition SIZE_MOD :: nat where "SIZE_MOD = 2 ^ 64"

definition size_add :: "nat \<Rightarrow> nat \<Rightarrow> nat" where "size_add a b = (a + b) mod SIZE_MOD"
definition size_sub :: "nat \<Rightarrow> nat \<Rightarrow> nat" where "size_sub a b = (a + SIZE_MOD - b) mod SIZE_MOD"
definition size_mul :: "nat \<Rightarrow> nat \<Rightarrow> nat" where "size_mul a b = (a * b) mod SIZE_MOD"

lemma SIZE_MOD_pos [simp]: "0 < SIZE_MOD" by (simp add: SIZE_MOD_def)

lemma size_add_exact [csize]: "a + b < SIZE_MOD \<Longrightarrow> size_add a b = a + b"
  by (simp add: size_add_def)

lemma size_sub_exact [csize]: "b \<le> a \<Longrightarrow> a < SIZE_MOD \<Longrightarrow> size_sub a b = a - b"
proof -
  assume "b \<le> a" "a < SIZE_MOD"
  then have "size_sub a b = ((a - b) + SIZE_MOD) mod SIZE_MOD" by (simp add: size_sub_def)
  also have "\<dots> = (a - b) mod SIZE_MOD" by (rule mod_add_self2)
  finally show ?thesis using \<open>a < SIZE_MOD\<close> by simp
qed

lemma size_mul_exact [csize]: "a * b < SIZE_MOD \<Longrightarrow> size_mul a b = a * b"
  by (simp add: size_mul_def)

text \<open>Conversion to a signed 32 bit int.\<close>

definition to_int32 :: "int \<Rightarrow> int" where
  "to_int32 x = (x + 2 ^ 31) mod 2 ^ 32 - 2 ^ 31"

lemma to_int32_id: "- (2 ^ 31) \<le> x \<Longrightarrow> x < 2 ^ 31 \<Longrightarrow> to_int32 x = x"
  by (simp add: to_int32_def)

text \<open>Integer division of C: the quotient is truncated towards zero.\<close>

definition c_div :: "int \<Rightarrow> int \<Rightarrow> int" where
  "c_div a b = (let q = \<bar>a\<bar> div \<bar>b\<bar> in if (a < 0) = (b < 0) then q else - q)"

lemma c_div_nonneg: "0 \<le> a \<Longrightarrow> 0 < b \<Longrightarrow> c_div a b = a div b"
  by (simp add: c_div_def)

lemma c_div_2_between: "l \<le> r \<Longrightarrow> l \<le> c_div (l + r) 2 \<and> c_div (l + r) 2 \<le> r"
  by (simp add: c_div_def Let_def) linarith

section \<open>C strings\<close>

text \<open>
  A C string is the list of its characters up to the terminating NUL.  strcmp compares characters
  as unsigned bytes; the model returns the sign only, which is all the sources look at.
\<close>

fun strcmp :: "string \<Rightarrow> string \<Rightarrow> int" where
  "strcmp [] [] = 0"
| "strcmp [] (y # ys) = -1"
| "strcmp (x # xs) [] = 1"
| "strcmp (x # xs) (y # ys) = (if x = y then strcmp xs ys else if x < y then -1 else 1)"

lemma strcmp_eq_0 [simp, cstr]: "strcmp a b = 0 \<longleftrightarrow> a = b"
  by (induction a b rule: strcmp.induct) auto

lemma strcmp_less [simp, cstr]: "strcmp a b < 0 \<longleftrightarrow> a < b"
  by (induction a b rule: strcmp.induct) auto

lemma strcmp_greater [simp, cstr]: "strcmp a b > 0 \<longleftrightarrow> b < a"
proof -
  have "strcmp a b > 0 \<longleftrightarrow> \<not> strcmp a b < 0 \<and> strcmp a b \<noteq> 0" by linarith
  then show ?thesis by (auto simp: not_less order.order_iff_strict)
qed

abbreviation nl :: string where "nl \<equiv> [CHR 0x0A]"

text \<open>A plain char is signed on the target: bytes from 128 on are negative.\<close>

definition schar :: "char \<Rightarrow> int" where
  "schar c = (let n = (of_char c :: int) in if n \<ge> 128 then n - 256 else n)"

section \<open>Lists\<close>

text \<open>The segment of a list from index a up to, not including, index b.\<close>

definition segment :: "nat \<Rightarrow> nat \<Rightarrow> 'a list \<Rightarrow> 'a list" where
  "segment a b xs = take (b - a) (drop a xs)"

lemma segment_empty [simp]: "b \<le> a \<Longrightarrow> segment a b xs = []"
  by (simp add: segment_def)

lemma length_segment: "b \<le> length xs \<Longrightarrow> length (segment a b xs) = b - a"
  by (simp add: segment_def)

lemma segment_Cons: "a < b \<Longrightarrow> b \<le> length xs \<Longrightarrow> segment a b xs = xs ! a # segment (Suc a) b xs"
proof -
  assume ab: "a < b" and bl: "b \<le> length xs"
  have "drop a xs = xs ! a # drop (Suc a) xs" using ab bl by (simp add: Cons_nth_drop_Suc)
  moreover have "b - a = Suc (b - Suc a)" using ab by simp
  ultimately show ?thesis by (simp add: segment_def)
qed

lemma segment_append:
  "a \<le> m \<Longrightarrow> m \<le> b \<Longrightarrow> b \<le> length xs \<Longrightarrow> segment a m xs @ segment m b xs = segment a b xs"
proof -
  assume "a \<le> m" "m \<le> b" "b \<le> length xs"
  then have "b - a = (m - a) + (b - m)" "drop (m - a) (drop a xs) = drop m xs" by simp_all
  then show ?thesis by (simp add: segment_def take_add)
qed

lemma segment_full: "segment 0 (length xs) xs = xs"
  by (simp add: segment_def)

lemma take_Suc_update:
  "k < length xs \<Longrightarrow> take (Suc k) (xs[k := x]) = take k xs @ [x]"
  by (simp add: take_Suc_conv_app_nth)

end
