(* ===== verification/Options.thy ===== *)
theory Options
  imports Prelude
begin

text \<open>
  The option parsers of the three programs (function use of SysPro_Project1/src/use.c,
  SysPro_Project2/src/mirror_client/use.c and SysPro_Project3/src/use_client.c): copies of one
  another that differ in the names of the options and in the test of argc.  The result is None
  after the usage message, else the six parameters; one that was never set is NULL.
\<close>

section \<open>The loop over the arguments\<close>

text \<open>The loop over validParams: the first index whose name is equal.\<close>

fun option_index :: "string list \<Rightarrow> string \<Rightarrow> nat option" where
  "option_index [] a = None"
| "option_index (v # vs) a = (if strcmp a v = 0 then Some 0 else map_option Suc (option_index vs a))"

text \<open>
  The options come in pairs.  The test whether an option is the last argument stands behind the
  first comparison, so a last argument equal to the first name is used with the NULL that ends argv.
\<close>

fun use_loop :: "string list \<Rightarrow> string list \<Rightarrow> string option list \<Rightarrow> nat \<Rightarrow> fault + string option list option" where
  "use_loop validParams [] params foundParams = ok (if foundParams \<noteq> 6 then None else Some params)"
| "use_loop validParams [a] params foundParams =
     (if option_index validParams a = Some 0 then crash NullDeref else ok None)"
| "use_loop validParams (a # b # args) params foundParams =
     (case option_index validParams a of
        None \<Rightarrow> ok None
      | Some j \<Rightarrow> use_loop validParams args (params[j := Some b]) (foundParams + 1))"

definition bitcoin_options :: "string list" where
  "bitcoin_options = [''-a'', ''-t'', ''-v'', ''-h1'', ''-h2'', ''-b'']"

definition use_bitcoin :: "string list \<Rightarrow> fault + string option list option" where
  "use_bitcoin argv =
     (if length argv = 1 then ok None else use_loop bitcoin_options (tl argv) (replicate 6 None) 0)"

definition mirror_options :: "string list" where
  "mirror_options = [''-n'', ''-c'', ''-i'', ''-m'', ''-b'', ''-l'']"

definition use_mirror :: "string list \<Rightarrow> fault + string option list option" where
  "use_mirror argv =
     (if length argv = 1 then ok None else use_loop mirror_options (tl argv) (replicate 6 None) 0)"

definition dropbox_options :: "string list" where
  "dropbox_options = [''-d'', ''-p'', ''-w'', ''-b'', ''-sp'', ''-sip'']"

definition use_dropbox :: "string list \<Rightarrow> fault + string option list option" where
  "use_dropbox argv =
     (if length argv \<noteq> 13 then ok None else use_loop dropbox_options (tl argv) (replicate 6 None) 0)"

section \<open>Which command lines are accepted\<close>

fun argv_of :: "(string \<times> string) list \<Rightarrow> string list" where
  "argv_of [] = []"
| "argv_of ((a, b) # ps) = a # b # argv_of ps"

lemma option_index_None: "option_index vs a = None \<longleftrightarrow> a \<notin> set vs"
  by (induction vs) auto

lemma option_index_Some: "option_index vs a = Some j \<Longrightarrow> j < length vs \<and> vs ! j = a"
  by (induction vs arbitrary: j) (auto split: if_splits)

lemma use_loop_pairs:
  assumes "distinct valid" "length params = length valid"
  shows "use_loop valid (argv_of ps) params found =
    ok (if (\<forall>p \<in> set ps. fst p \<in> set valid) \<and> found + length ps = 6
        then Some (map (\<lambda>j. case map_of (rev ps) (valid ! j) of None \<Rightarrow> params ! j | Some b \<Rightarrow> Some b) [0..<length valid])
        else None)"
  using assms(2)
proof (induction ps arbitrary: params found)
  case Nil
  then show ?case using map_nth [of params] by simp
next
  case (Cons p ps)
  obtain a b where p: "p = (a, b)" by fastforce
  show ?case
  proof (cases "option_index valid a")
    case None
    moreover have "a \<notin> set valid" using None option_index_None by blast
    ultimately show ?thesis by (simp add: p)
  next
    case (Some j)
    then have j: "j < length valid" "valid ! j = a" using option_index_Some by auto
    have "(case map_of (rev ps) (valid ! k) of None \<Rightarrow> params[j := Some b] ! k | Some b \<Rightarrow> Some b)
        = (case map_of (rev (p # ps)) (valid ! k) of None \<Rightarrow> params ! k | Some b \<Rightarrow> Some b)" if "k < length valid" for k
      using assms(1) Cons.prems that j p
      by (auto simp: map_add_def nth_list_update nth_eq_iff_index_eq split: option.split)
    then have "map (\<lambda>k. case map_of (rev ps) (valid ! k) of None \<Rightarrow> params[j := Some b] ! k | Some b \<Rightarrow> Some b) [0..<length valid]
        = map (\<lambda>k. case map_of (rev (p # ps)) (valid ! k) of None \<Rightarrow> params ! k | Some b \<Rightarrow> Some b) [0..<length valid]"
      by simp
    moreover have "use_loop valid (argv_of (p # ps)) params found = use_loop valid (argv_of ps) (params[j := Some b]) (found + 1)"
      using Some by (simp add: p)
    moreover have "a \<in> set valid" using j nth_mem by blast
    then have "(\<forall>q \<in> set (p # ps). fst q \<in> set valid) \<and> found + length (p # ps) = 6
        \<longleftrightarrow> (\<forall>q \<in> set ps. fst q \<in> set valid) \<and> found + 1 + length ps = 6"
      by (auto simp: p)
    ultimately show ?thesis using Cons.IH [of "params[j := Some b]" "found + 1"] Cons.prems
      by (simp only: length_list_update)
  qed
qed

text \<open>
  The parser accepts exactly the lines with six pairs whose names are valid, in any order; every
  parameter is the last value given for its name, and NULL when the name does not occur, which
  happens as soon as another one occurs twice.
\<close>

theorem options_accepted:
  assumes "ps \<noteq> []"
  shows "use_bitcoin (prog # argv_of ps) =
    ok (if fst ` set ps \<subseteq> set bitcoin_options \<and> length ps = 6
        then Some (map (map_of (rev ps)) bitcoin_options) else None)"
proof -
  have "argv_of ps \<noteq> []" using assms by (cases ps) auto
  then have "use_bitcoin (prog # argv_of ps) = use_loop bitcoin_options (argv_of ps) (replicate 6 None) 0"
    by (simp add: use_bitcoin_def)
  also have "\<dots> = ok (if (\<forall>p \<in> set ps. fst p \<in> set bitcoin_options) \<and> length ps = 6
        then Some (map (\<lambda>j. case map_of (rev ps) (bitcoin_options ! j) of None \<Rightarrow> replicate 6 None ! j | Some b \<Rightarrow> Some b)
           [0..<length bitcoin_options]) else None)"
    by (subst use_loop_pairs) (simp_all add: bitcoin_options_def)
  also have "map (\<lambda>j. case map_of (rev ps) (bitcoin_options ! j) of None \<Rightarrow> replicate 6 None ! j | Some b \<Rightarrow> Some b)
           [0..<length bitcoin_options] = map (map_of (rev ps)) bitcoin_options"
    by (rule nth_equalityI) (auto simp: bitcoin_options_def split: option.split)
  finally show ?thesis by (simp add: image_subset_iff)
qed

theorem options_accepted_witness:
  "use_bitcoin [''bitcoin'', ''-b'', ''64'', ''-a'', ''x'', ''-t'', ''y'', ''-v'', ''5'', ''-h1'', ''3'', ''-b'', ''96'']
     = ok (Some [Some ''x'', Some ''y'', Some ''5'', Some ''3'', None, Some ''96''])"
  using options_accepted [of "[(''-b'', ''64''), (''-a'', ''x''), (''-t'', ''y''), (''-v'', ''5''), (''-h1'', ''3''), (''-b'', ''96'')]" "''bitcoin''"]
  by (simp add: bitcoin_options_def)

end
