(* ===== verification/CTime.thy ===== *)
theory CTime
  imports Prelude
begin

text \<open>
  The C library calls for dates and formatted output that SysPro_Project1 relies on: printf %lu and
  %s, timegm, gmtime_r and strftime with the format "%d-%m-%y %H:%M".  struct tm keeps the fields
  the sources read or write; time_t is an int (seconds since 1 January 1970, UTC).
\<close>

section \<open>Decimal output\<close>

definition digit :: "nat \<Rightarrow> char" where
  "digit n = char_of (48 + n)"

fun dec :: "nat \<Rightarrow> string" where
  "dec n = (if n < 10 then [digit n] else dec (n div 10) @ [digit (n mod 10)])"

declare dec.simps [simp del]

lemma dec_0: "dec 0 = ''0''" by code_simp

text \<open>Two digits, as %d, %m, %y, %H and %M of strftime print them.\<close>

definition dec2 :: "int \<Rightarrow> string" where
  "dec2 n = [digit (nat (n div 10 mod 10)), digit (nat (n mod 10))]"

section \<open>struct tm, timegm, gmtime\_r\<close>

record tm =
  tm_mday :: int
  tm_mon :: int
  tm_year :: int
  tm_hour :: int
  tm_min :: int
  tm_sec :: int

definition tm_zero :: tm where
  "tm_zero = \<lparr> tm_mday = 0, tm_mon = 0, tm_year = 0, tm_hour = 0, tm_min = 0, tm_sec = 0 \<rparr>"

definition is_leap :: "int \<Rightarrow> bool" where
  "is_leap y \<longleftrightarrow> y mod 4 = 0 \<and> (y mod 100 \<noteq> 0 \<or> y mod 400 = 0)"

definition year_len :: "int \<Rightarrow> int" where
  "year_len y = (if is_leap y then 366 else 365)"

definition leaps_through :: "int \<Rightarrow> int" where
  "leaps_through y = y div 4 - y div 100 + y div 400"

definition days_before_year :: "int \<Rightarrow> int" where
  "days_before_year y = 365 * (y - 1970) + leaps_through (y - 1) - leaps_through 1969"

definition month_len :: "bool \<Rightarrow> nat \<Rightarrow> int" where
  "month_len leap m = [31, if leap then 29 else 28, 31, 30, 31, 30, 31, 31, 30, 31, 30, 31] ! m"

definition days_before_month :: "bool \<Rightarrow> nat \<Rightarrow> int" where
  "days_before_month leap m = (\<Sum>i \<leftarrow> [0..<m]. month_len leap i)"

definition timegm :: "tm \<Rightarrow> int" where
  "timegm t =
     (let y = tm_year t + 1900 + tm_mon t div 12; m = nat (tm_mon t mod 12);
          days = days_before_year y + days_before_month (is_leap y) m + tm_mday t - 1
      in days * 86400 + tm_hour t * 3600 + tm_min t * 60 + tm_sec t)"

lemma year_len_bounds: "365 \<le> year_len y" "year_len y \<le> 366"
  by (simp_all add: year_len_def)

function year_of :: "int \<Rightarrow> int \<Rightarrow> int \<times> int" where
  "year_of y d =
     (if d < 0 then year_of (y - 1) (d + year_len (y - 1))
      else if d \<ge> year_len y then year_of (y + 1) (d - year_len y)
      else (y, d))"
  by pat_completeness auto
termination
proof (relation "measure (\<lambda>(y, d). nat (if d < 0 then 400 - d else d))", goal_cases)
  case 1
  then show ?case by simp
next
  case (2 y d)
  then show ?case using year_len_bounds [of "y - 1"] by auto
next
  case (3 y d)
  then show ?case using year_len_bounds [of y] by auto
qed

declare year_of.simps [simp del]

function month_of :: "bool \<Rightarrow> nat \<Rightarrow> int \<Rightarrow> nat \<times> int" where
  "month_of leap m d =
     (if m \<ge> 11 \<or> d < month_len leap m then (m, d) else month_of leap (m + 1) (d - month_len leap m))"
  by pat_completeness auto
termination
  by (relation "measure (\<lambda>(leap, m, d). 11 - m)") auto

declare month_of.simps [simp del]

definition gmtime :: "int \<Rightarrow> tm" where
  "gmtime t =
     (let (y, yday) = year_of 1970 (t div 86400); (m, d) = month_of (is_leap y) 0 yday; rem = t mod 86400
      in \<lparr> tm_mday = d + 1, tm_mon = int m, tm_year = y - 1900,
           tm_hour = rem div 3600, tm_min = rem mod 3600 div 60, tm_sec = rem mod 60 \<rparr>)"

definition strftime_dmy_hm :: "tm \<Rightarrow> string" where
  "strftime_dmy_hm t = dec2 (tm_mday t) @ ''-'' @ dec2 (tm_mon t + 1) @ ''-'' @ dec2 ((tm_year t + 1900) mod 100)
     @ '' '' @ dec2 (tm_hour t) @ '':'' @ dec2 (tm_min t)"

section \<open>gmtime\_r and timegm are inverse\<close>

lemma div_pred: "0 < k \<Longrightarrow> (y::int) div k - (y - 1) div k = (if k dvd y then 1 else 0)"
proof -
  assume k: "0 < k"
  have y: "y = k * (y div k) + y mod k" by simp
  have r: "0 \<le> y mod k" "y mod k < k" using k by simp_all
  show ?thesis
  proof (cases "k dvd y")
    case True
    then have "y - 1 = k * (y div k - 1) + (k - 1)" using y by (simp add: algebra_simps)
    then have "(y - 1) div k = y div k - 1" by (rule int_div_pos_eq) (use k in auto)
    with True show ?thesis by simp
  next
    case False
    then have "0 < y mod k" using r(1) by (simp add: dvd_eq_mod_eq_0 order.strict_iff_order)
    moreover have "y - 1 = k * (y div k) + (y mod k - 1)" using y by simp
    then have "(y - 1) div k = y div k" by (rule int_div_pos_eq) (use calculation r in linarith)+
    with False show ?thesis by simp
  qed
qed

lemma is_leap_dvd: "is_leap y \<longleftrightarrow> 4 dvd y \<and> (\<not> 100 dvd y \<or> 400 dvd y)"
  by (simp add: is_leap_def dvd_eq_mod_eq_0)

lemma leaps_through_step: "leaps_through y - leaps_through (y - 1) = (if is_leap y then 1 else 0)"
proof -
  have count: "(A - B + C) - (A' - B' + C') = (if p \<and> (\<not> q \<or> r) then 1 else 0)"
    if "A - A' = (if p then 1 else 0)" "B - B' = (if q then 1 else 0)" "C - C' = (if r then 1 else 0)"
      "r \<Longrightarrow> q" "q \<Longrightarrow> p" for A A' B B' C C' :: int and p q r
    using that by (cases p; cases q; cases r) auto
  have "100 dvd y" if "400 dvd y" using that by (rule dvd_trans [rotated]) simp
  moreover have "4 dvd y" if "100 dvd y" using that by (rule dvd_trans [rotated]) simp
  ultimately show ?thesis
    unfolding leaps_through_def is_leap_dvd by (intro count div_pred) simp_all
qed

lemma days_before_year_Suc: "days_before_year (y + 1) = days_before_year y + year_len y"
  using leaps_through_step [of y]
  by (simp add: days_before_year_def year_len_def split: if_splits)

lemma days_before_1970: "days_before_year 1970 = 0"
  by (simp add: days_before_year_def)

lemma year_of_sound:
  "year_of y d = (y', d') \<Longrightarrow>
   days_before_year y' + d' = days_before_year y + d \<and> 0 \<le> d' \<and> d' < year_len y'"
proof (induction y d rule: year_of.induct)
  case (1 y d)
  have up: "days_before_year (y + 1) = days_before_year y + year_len y" by (rule days_before_year_Suc)
  have down: "days_before_year y = days_before_year (y - 1) + year_len (y - 1)"
    using days_before_year_Suc [of "y - 1"] by simp
  show ?case
    using 1 up down by (cases "d < 0"; cases "d \<ge> year_len y") (auto simp: year_of.simps [of y d])
qed

lemma days_before_year_strict: "y < y' \<Longrightarrow> days_before_year y + year_len y \<le> days_before_year y'"
proof (induction y' rule: int_gr_induct [of y])
  case base
  then show ?case by (simp add: days_before_year_Suc)
next
  case (step i)
  then show ?case using days_before_year_Suc [of i] year_len_bounds(1) [of i] by linarith
qed

lemma year_day_unique:
  assumes "days_before_year y + d = days_before_year y' + d'"
    and "0 \<le> d" "d < year_len y" "0 \<le> d'" "d' < year_len y'"
  shows "y = y' \<and> d = d'"
proof -
  have "y = y'"
    using assms days_before_year_strict [of y y'] days_before_year_strict [of y' y]
    by (cases y y' rule: linorder_cases) auto
  with assms show ?thesis by simp
qed

lemma days_before_month_Suc: "days_before_month leap (Suc m) = days_before_month leap m + month_len leap m"
  by (simp add: days_before_month_def)

lemma month_len_bounds: "m < 12 \<Longrightarrow> 28 \<le> month_len leap m \<and> month_len leap m \<le> 31"
  by (auto simp: month_len_def less_Suc_eq eval_nat_numeral)

lemma days_before_month_year: "days_before_month (is_leap y) 12 = year_len y"
  by (simp add: days_before_month_def month_len_def year_len_def eval_nat_numeral)

lemma month_of_sound:
  "month_of leap m d = (m', d') \<Longrightarrow> m < 12 \<Longrightarrow> 0 \<le> d \<Longrightarrow> d + days_before_month leap m < days_before_month leap 12 \<Longrightarrow>
   days_before_month leap m' + d' = days_before_month leap m + d \<and> 0 \<le> d' \<and> d' < month_len leap m' \<and> m' < 12"
proof (induction leap m d rule: month_of.induct)
  case (1 leap m d)
  show ?case
  proof (cases "m \<ge> 11 \<or> d < month_len leap m")
    case True
    have "days_before_month leap 12 = days_before_month leap 11 + month_len leap 11"
      using days_before_month_Suc [of leap 11] by (simp add: eval_nat_numeral)
    moreover have "m \<ge> 11 \<Longrightarrow> m = 11" using "1.prems"(2) by simp
    ultimately have "d < month_len leap m"
      using True "1.prems"(4) by fastforce
    with True 1 show ?thesis by (simp add: month_of.simps [of leap m d])
  next
    case False
    with 1 show ?thesis by (simp add: month_of.simps [of leap m d] days_before_month_Suc)
  qed
qed

lemma days_before_month_strict:
  "m < m' \<Longrightarrow> m' \<le> 12 \<Longrightarrow> days_before_month leap m + month_len leap m \<le> days_before_month leap m'"
proof (induction m')
  case (Suc m')
  then show ?case
    using month_len_bounds [of m' leap] by (cases "m = m'") (auto simp: days_before_month_Suc)
qed simp

lemma days_before_month_nonneg: "m \<le> 12 \<Longrightarrow> 0 \<le> days_before_month leap m"
  using days_before_month_strict [of 0 m leap] month_len_bounds [of 0 leap]
  by (cases "m = 0") (simp_all add: days_before_month_def)

lemma month_day_unique:
  assumes "days_before_month leap m + d = days_before_month leap m' + d'"
    and "0 \<le> d" "d < month_len leap m" "0 \<le> d'" "d' < month_len leap m'" "m < 12" "m' < 12"
  shows "m = m' \<and> d = d'"
proof -
  have "m = m'"
    using assms days_before_month_strict [of m m' leap] days_before_month_strict [of m' m leap]
    by (cases m m' rule: linorder_cases) auto
  with assms show ?thesis by simp
qed

definition tm_valid :: "tm \<Rightarrow> bool" where
  "tm_valid t \<longleftrightarrow> 0 \<le> tm_mon t \<and> tm_mon t < 12 \<and> 1 \<le> tm_mday t
     \<and> tm_mday t \<le> month_len (is_leap (tm_year t + 1900)) (nat (tm_mon t))
     \<and> 0 \<le> tm_hour t \<and> tm_hour t < 24 \<and> 0 \<le> tm_min t \<and> tm_min t < 60 \<and> 0 \<le> tm_sec t \<and> tm_sec t < 60"

lemma gmtime_parts:
  obtains y yday m d where "year_of 1970 (t div 86400) = (y, yday)" "month_of (is_leap y) 0 yday = (m, d)"
    "days_before_year y + days_before_month (is_leap y) m + d = t div 86400"
    "0 \<le> d" "d < month_len (is_leap y) m" "m < 12"
proof -
  obtain y yday where y: "year_of 1970 (t div 86400) = (y, yday)" by (cases "year_of 1970 (t div 86400)")
  obtain m d where m: "month_of (is_leap y) 0 yday = (m, d)" by (cases "month_of (is_leap y) 0 yday")
  have ys: "days_before_year y + yday = t div 86400" "0 \<le> yday" "yday < year_len y"
    using year_of_sound [OF y] by (auto simp: days_before_1970)
  have "days_before_month (is_leap y) 0 = 0" by (simp add: days_before_month_def)
  then have "days_before_month (is_leap y) m + d = yday" "0 \<le> d" "d < month_len (is_leap y) m" "m < 12"
    using month_of_sound [OF m] ys by (auto simp: days_before_month_year)
  with that [OF y m] ys show ?thesis by simp
qed

lemma gmtime_valid: "tm_valid (gmtime t)"
proof -
  obtain y yday m d where "year_of 1970 (t div 86400) = (y, yday)" "month_of (is_leap y) 0 yday = (m, d)"
    "0 \<le> d" "d < month_len (is_leap y) m" "m < 12" by (rule gmtime_parts [of t])
  moreover have "t mod 86400 div 3600 \<le> 86399 div 3600" by (intro zdiv_mono1) auto
  moreover have "t mod 86400 mod 3600 div 60 \<le> 3599 div 60" by (intro zdiv_mono1) auto
  ultimately show ?thesis
    by (simp add: gmtime_def tm_valid_def pos_imp_zdiv_nonneg_iff Let_def)
qed

lemma timegm_gmtime: "timegm (gmtime t) = t"
proof -
  obtain y yday m d where parts: "year_of 1970 (t div 86400) = (y, yday)" "month_of (is_leap y) 0 yday = (m, d)"
    "days_before_year y + days_before_month (is_leap y) m + d = t div 86400" "m < 12"
    by (rule gmtime_parts [of t])
  have "r = r div 3600 * 3600 + r mod 3600 div 60 * 60 + r mod 60" for r :: int
  proof -
    have "r mod 3600 mod 60 = r mod 60" by (rule mod_mod_cancel) simp
    then show ?thesis
      using div_mult_mod_eq [of r 3600] div_mult_mod_eq [of "r mod 3600" 60] by linarith
  qed
  note rem = this [of "t mod 86400"]
  have "timegm (gmtime t) = (days_before_year y + days_before_month (is_leap y) m + d) * 86400
     + t mod 86400 div 3600 * 3600 + t mod 86400 mod 3600 div 60 * 60 + t mod 86400 mod 60"
    using parts(1,2,4) by (simp add: gmtime_def timegm_def Let_def)
  also have "\<dots> = t div 86400 * 86400
     + (t mod 86400 div 3600 * 3600 + t mod 86400 mod 3600 div 60 * 60 + t mod 86400 mod 60)"
    by (simp only: parts(3) [symmetric] add.assoc)
  also have "\<dots> = t div 86400 * 86400 + t mod 86400" by (simp only: rem [symmetric])
  finally show ?thesis by (simp only: div_mult_mod_eq)
qed

lemma timegm_inj:
  assumes "tm_valid a" "tm_valid b" "timegm a = timegm b"
  shows "a = b"
proof -
  define days where "days t = days_before_year (tm_year t + 1900)
    + days_before_month (is_leap (tm_year t + 1900)) (nat (tm_mon t)) + tm_mday t - 1" for t :: tm
  define secs where "secs t = tm_hour t * 3600 + tm_min t * 60 + tm_sec t" for t :: tm
  have tg: "timegm t = days t * 86400 + secs t" if "tm_valid t" for t
    using that by (simp add: timegm_def tm_valid_def days_def secs_def Let_def)
  have sb: "0 \<le> secs t \<and> secs t < 86400" if "tm_valid t" for t
    using that by (auto simp: tm_valid_def secs_def)
  have de: "days a = days b"
    using tg [OF assms(1)] tg [OF assms(2)] sb [OF assms(1)] sb [OF assms(2)] assms(3) by linarith
  then have se: "secs a = secs b"
    using tg [OF assms(1)] tg [OF assms(2)] assms(3) by simp
  have yd: "0 \<le> days_before_month (is_leap (tm_year t + 1900)) (nat (tm_mon t)) + tm_mday t - 1 \<and>
      days_before_month (is_leap (tm_year t + 1900)) (nat (tm_mon t)) + tm_mday t - 1 < year_len (tm_year t + 1900)"
    if "tm_valid t" for t
  proof -
    have m: "nat (tm_mon t) < 12" using \<open>tm_valid t\<close> by (auto simp: tm_valid_def)
    then have "0 \<le> days_before_month (is_leap (tm_year t + 1900)) (nat (tm_mon t))"
      by (intro days_before_month_nonneg) simp
    then show ?thesis
      using \<open>tm_valid t\<close> m days_before_month_strict [of "nat (tm_mon t)" 12 "is_leap (tm_year t + 1900)"]
      by (simp add: tm_valid_def days_before_month_year)
  qed
  have "tm_year a + 1900 = tm_year b + 1900 \<and>
     days_before_month (is_leap (tm_year a + 1900)) (nat (tm_mon a)) + tm_mday a - 1 =
     days_before_month (is_leap (tm_year b + 1900)) (nat (tm_mon b)) + tm_mday b - 1"
    using de yd [OF assms(1)] yd [OF assms(2)] by (intro year_day_unique) (auto simp: days_def)
  then have ye: "tm_year a = tm_year b"
    and me: "days_before_month (is_leap (tm_year a + 1900)) (nat (tm_mon a)) + (tm_mday a - 1) =
     days_before_month (is_leap (tm_year a + 1900)) (nat (tm_mon b)) + (tm_mday b - 1)" by auto
  have "nat (tm_mon a) = nat (tm_mon b) \<and> tm_mday a - 1 = tm_mday b - 1"
    using me assms(1,2) ye by (intro month_day_unique) (auto simp: tm_valid_def)
  moreover have "tm_hour a = tm_hour b \<and> tm_min a = tm_min b \<and> tm_sec a = tm_sec b"
  proof -
    have "tm_hour a = tm_hour b" using se assms(1,2) unfolding secs_def tm_valid_def by linarith
    moreover have "tm_min a = tm_min b"
      using se calculation assms(1,2) unfolding secs_def tm_valid_def by linarith
    ultimately show ?thesis using se by (simp add: secs_def)
  qed
  ultimately show ?thesis using ye assms(1,2) by (auto simp: tm_valid_def)
qed

lemma gmtime_timegm: "tm_valid t \<Longrightarrow> gmtime (timegm t) = t"
  by (rule timegm_inj) (auto simp: gmtime_valid timegm_gmtime)

section \<open>Properties\<close>

text \<open>
  Converting a time to calendar fields and back gives the same time, and every calendar date
  with fields in range survives the round trip in the other direction.
\<close>

theorem calendar_round_trip:
  "timegm (gmtime t) = t \<and> (tm_valid d \<longrightarrow> gmtime (timegm d) = d)"
  by (simp add: timegm_gmtime gmtime_timegm)

theorem calendar_round_trip_witness:
  "gmtime (timegm \<lparr> tm_mday = 29, tm_mon = 1, tm_year = 116, tm_hour = 23, tm_min = 10, tm_sec = 0 \<rparr>)
    = \<lparr> tm_mday = 29, tm_mon = 1, tm_year = 116, tm_hour = 23, tm_min = 10, tm_sec = 0 \<rparr>"
  using calendar_round_trip [of 0 "\<lparr> tm_mday = 29, tm_mon = 1, tm_year = 116, tm_hour = 23, tm_min = 10, tm_sec = 0 \<rparr>"]
  by (simp add: tm_valid_def month_len_def is_leap_def)

end
