(* ===== verification/Stdio.thy ===== *)
theory Stdio
  imports Prelude
begin

text \<open>
  Character arrays and the C library's input functions, as far as the sources use them: strcpy and
  strcmp on an array whose bytes may be unwritten, fgetc, fscanf with %s, %d and %lu, strtol.
\<close>

section \<open>Character arrays\<close>

text \<open>A byte that was never written since malloc is None.  The NUL byte ends a string.\<close>

type_synonym bytes = "char option list"

abbreviation NUL :: char where "NUL \<equiv> CHR 0x00"

definition c_string :: "string \<Rightarrow> bool" where "c_string s \<longleftrightarrow> NUL \<notin> set s"

fun read_str :: "bytes \<Rightarrow> fault + string" where
  "read_str [] = crash BadIndex"
| "read_str (None # bs) = crash Uninitialised"
| "read_str (Some c # bs) = (if c = NUL then ok [] else and_then (read_str bs) (\<lambda>s. ok (c # s)))"

text \<open>strcpy of a string into an array of cap bytes fresh from malloc\<close>

definition write_str :: "nat \<Rightarrow> string \<Rightarrow> fault + bytes" where
  "write_str cap s =
     (if length s \<ge> cap then crash BadIndex
      else ok (map Some s @ Some NUL # replicate (cap - Suc (length s)) None))"

text \<open>strcmp(s, bs) = 0\<close>

fun same_str :: "string \<Rightarrow> bytes \<Rightarrow> fault + bool" where
  "same_str s [] = crash BadIndex"
| "same_str s (None # bs) = crash Uninitialised"
| "same_str [] (Some c # bs) = ok (c = NUL)"
| "same_str (x # xs) (Some c # bs) = (if x = c then same_str xs bs else ok False)"

lemma read_str_written: "c_string s \<Longrightarrow> read_str (map Some s @ Some NUL # junk) = ok s"
  by (induction s) (auto simp: c_string_def)

lemma same_str_written:
  "c_string s \<Longrightarrow> c_string t \<Longrightarrow> same_str s (map Some t @ Some NUL # junk) = ok (s = t)"
  by (induction s arbitrary: t; case_tac t) (auto simp: c_string_def)

section \<open>Characters\<close>

definition char_code :: "char \<Rightarrow> nat" where "char_code c = of_char c"

definition is_space :: "char \<Rightarrow> bool" where
  "is_space c \<longleftrightarrow> char_code c = 32 \<or> (9 \<le> char_code c \<and> char_code c \<le> 13)"

definition is_digit :: "char \<Rightarrow> bool" where
  "is_digit c \<longleftrightarrow> 48 \<le> char_code c \<and> char_code c \<le> 57"

definition digits_value :: "string \<Rightarrow> int" where
  "digits_value ds = foldl (\<lambda>v c. 10 * v + (int (char_code c) - 48)) 0 ds"

definition skip_ws :: "string \<Rightarrow> string" where "skip_ws = dropWhile is_space"

text \<open>An optional sign: whether the number is negative, and what follows.\<close>

definition take_sign :: "string \<Rightarrow> bool \<times> string" where
  "take_sign s = (case s of
       [] \<Rightarrow> (False, s)
     | c # cs \<Rightarrow> if c = CHR ''-'' then (True, cs) else if c = CHR ''+'' then (False, cs) else (False, s))"

definition clamp_long :: "int \<Rightarrow> int" where
  "clamp_long v = max (- (2 ^ 63)) (min (2 ^ 63 - 1) v)"

section \<open>strtol\<close>

text \<open>The value, saturated to a long, and the rest; with no digits it is 0 and the whole string.\<close>

definition strtol :: "string \<Rightarrow> int \<times> string" where
  "strtol s =
     (let (neg, t) = take_sign (skip_ws s); ds = takeWhile is_digit t
      in if ds = [] then (0, s)
         else (clamp_long (if neg then - digits_value ds else digits_value ds), dropWhile is_digit t))"

definition atoi :: "string \<Rightarrow> int" where
  "atoi s = to_int32 (fst (strtol s))"

section \<open>Reading a file\<close>

text \<open>
  A FILE is what remains to be read, and where seeking back matters, what was read already.  The
  sources keep the result of fgetc in a char, so a byte 255 looks like EOF to them.
\<close>

definition EOF_CHAR :: char where "EOF_CHAR = CHR 0xFF"

text \<open>The rest of a line, skipped up to and with its newline.\<close>

fun skip_line :: "string \<Rightarrow> string" where
  "skip_line [] = []"
| "skip_line (c # cs) = (if c = CHR 0x0A \<or> c = EOF_CHAR then cs else skip_line cs)"

text \<open>fscanf(file, "%s ", buffer) with a buffer of cap bytes: None when the end is met first.\<close>

definition fscanf_s :: "nat \<Rightarrow> string \<Rightarrow> fault + (string option \<times> string)" where
  "fscanf_s cap s =
     (let t = skip_ws s; w = takeWhile (\<lambda>c. \<not> is_space c) t
      in if t = [] then ok (None, [])
         else if length w \<ge> cap then crash BadIndex
         else ok (Some (takeWhile (\<lambda>c. c \<noteq> NUL) w), skip_ws (dropWhile (\<lambda>c. \<not> is_space c) t)))"

text \<open>What follows the conversion in a format: white space, or a literal character.\<close>

definition match_tail :: "char \<Rightarrow> string \<Rightarrow> string" where
  "match_tail c s = (if is_space c then skip_ws s else case s of [] \<Rightarrow> [] | x # xs \<Rightarrow> if x = c then xs else s)"

text \<open>
  fscanf(file, "%d" tail, &v).  On a matching failure v keeps its value; the white space and a sign
  have been consumed.
\<close>

definition fscanf_d :: "char \<Rightarrow> string \<Rightarrow> int \<Rightarrow> int \<times> string" where
  "fscanf_d tail s v =
     (let (neg, t) = take_sign (skip_ws s); ds = takeWhile is_digit t
      in if ds = [] then (v, t)
         else (to_int32 (clamp_long (if neg then - digits_value ds else digits_value ds)),
               match_tail tail (dropWhile is_digit t)))"

text \<open>fscanf(file, "%lu ", &v): a negative number wraps, a number too big saturates.\<close>

definition fscanf_lu :: "string \<Rightarrow> nat \<Rightarrow> nat \<times> string" where
  "fscanf_lu s v =
     (let (neg, t) = take_sign (skip_ws s); ds = takeWhile is_digit t; n = nat (digits_value ds)
      in if ds = [] then (v, t)
         else (if n \<ge> SIZE_MOD then SIZE_MOD - 1 else if neg then size_sub 0 n else n,
               skip_ws (dropWhile is_digit t)))"

text \<open>An int difference\<close>

definition int_minus :: "int \<Rightarrow> int \<Rightarrow> fault + int" where
  "int_minus a b = (if to_int32 (a - b) = a - b then ok (a - b) else crash SignedOverflow)"

section \<open>Splitting a line\<close>

text \<open>
  strtok(str, " ") on a line: the token, and the rest after the delimiter that ended it.  NULL when
  only delimiters are left.
\<close>

definition strtok :: "string \<Rightarrow> string option \<times> string" where
  "strtok s =
     (let t = dropWhile (\<lambda>c. c = CHR '' '') s
      in if t = [] then (None, [])
         else (Some (takeWhile (\<lambda>c. c \<noteq> CHR '' '') t), drop 1 (dropWhile (\<lambda>c. c \<noteq> CHR '' '') t)))"

section \<open>Facts\<close>

lemma length_skip_line: "length (skip_line s) \<le> length s"
  by (induction s) auto

lemma length_skip_ws: "length (skip_ws s) \<le> length s"
  by (simp add: skip_ws_def length_dropWhile_le)

lemma fscanf_lu_bound: "v < SIZE_MOD \<Longrightarrow> fst (fscanf_lu s v) < SIZE_MOD"
  by (auto simp: fscanf_lu_def Let_def size_sub_def split: prod.splits)

lemma strtok_cases:
  assumes "strtok s = (Some t, r)"
  obtains c cs where "dropWhile (\<lambda>c. c = CHR '' '') s = c # cs" "c \<noteq> CHR '' ''"
    "t = c # takeWhile (\<lambda>c. c \<noteq> CHR '' '') cs" "r = drop 1 (dropWhile (\<lambda>c. c \<noteq> CHR '' '') cs)"
proof (cases "dropWhile (\<lambda>c. c = CHR '' '') s")
  case Nil
  with assms show thesis by (simp add: strtok_def)
next
  case (Cons c cs)
  then have "c \<noteq> CHR '' ''" using hd_dropWhile [of "\<lambda>c. c = CHR '' ''" s] by auto
  with Cons assms that show thesis by (simp add: strtok_def Let_def)
qed

lemma strtok_token: "strtok s = (Some t, r) \<Longrightarrow> t \<noteq> [] \<and> CHR '' '' \<notin> set t"
  by (erule strtok_cases) (auto dest: set_takeWhileD)

lemma strtok_shorter:
  assumes "strtok s = (Some t, r)"
  shows "length r < length s"
proof -
  obtain c cs where c: "dropWhile (\<lambda>c. c = CHR '' '') s = c # cs"
      and r: "r = drop 1 (dropWhile (\<lambda>c. c \<noteq> CHR '' '') cs)"
    using assms by (rule strtok_cases)
  have "length r \<le> length cs"
    unfolding r using length_dropWhile_le [of "\<lambda>c. c \<noteq> CHR '' ''" cs] by simp
  also have "\<dots> < length s" using length_dropWhile_le [of "\<lambda>c. c = CHR '' ''" s] c by simp
  finally show ?thesis .
qed

end
