(* ===== verification/Digits.thy ===== *)
theory Digits
  imports CTime Stdio
begin

text \<open>Decimal output is read back by strtol and atoi: the lemmas on digits the round trips share.\<close>

lemma dec_digits: "c \<in> set (dec n) \<Longrightarrow> is_digit c"
proof (induction n rule: dec.induct)
  case (1 n)
  have digit: "is_digit (digit k)" if "k < 10" for k
    using that by (simp add: digit_def is_digit_def char_code_def take_bit_eq_mod)
  show ?case
  proof (cases "n < 10")
    case True
    with 1(2) digit [of n] show ?thesis by (subst (asm) dec.simps) simp
  next
    case False
    with 1 digit [of "n mod 10"] show ?thesis by (subst (asm) (2) dec.simps) auto
  qed
qed

lemma dec_nonempty: "dec n \<noteq> []"
  by (subst dec.simps) simp

lemma digits_value_snoc: "digits_value (ds @ [c]) = 10 * digits_value ds + (int (char_code c) - 48)"
  by (simp add: digits_value_def)

lemma digits_value_dec: "digits_value (dec n) = int n"
proof (induction n rule: dec.induct)
  case (1 n)
  have digit: "int (char_code (digit k)) - 48 = int k" if "k < 10" for k
    using that by (simp add: digit_def char_code_def take_bit_eq_mod)
  show ?case
  proof (cases "n < 10")
    case True
    then have "dec n = [] @ [digit n]" by (subst dec.simps) simp
    then show ?thesis using digit [OF True] by (simp only: digits_value_snoc) (simp add: digits_value_def)
  next
    case False
    then have "dec n = dec (n div 10) @ [digit (n mod 10)]" by (subst dec.simps) simp
    then show ?thesis using 1 False digit [of "n mod 10"] by (simp only: digits_value_snoc) presburger
  qed
qed

lemma digit_not_special: "is_digit c \<Longrightarrow> \<not> is_space c \<and> c \<noteq> CHR ''-'' \<and> c \<noteq> CHR ''+'' \<and> c \<noteq> CHR '' '' \<and> c \<noteq> NUL \<and> c \<noteq> CHR '';''"
  by (auto simp: is_digit_def is_space_def char_code_def)

lemma dec_head: "skip_ws (dec n @ r) = dec n @ r" "take_sign (dec n @ r) = (False, dec n @ r)"
proof -
  obtain c cs where c: "dec n = c # cs" using dec_nonempty by (cases "dec n") auto
  then have "is_digit c" using dec_digits [of c n] by simp
  with c digit_not_special [of c] show "skip_ws (dec n @ r) = dec n @ r" "take_sign (dec n @ r) = (False, dec n @ r)"
    by (simp_all add: skip_ws_def take_sign_def)
qed

lemma dec_span:
  assumes "r = [] \<or> \<not> is_digit (hd r)"
  shows "takeWhile is_digit (dec n @ r) = dec n" "dropWhile is_digit (dec n @ r) = r"
  using assms dec_digits [of _ n] by (cases r; simp add: takeWhile_append2 dropWhile_append2)+

lemma clamp_int: "n < 2 ^ 63 \<Longrightarrow> clamp_long (int n) = int n"
proof -
  assume "n < 2 ^ 63"
  then have "int n < 2 ^ 63" by (metis of_nat_less_iff of_nat_numeral of_nat_power)
  then show ?thesis by (simp add: clamp_long_def)
qed

lemma strtol_of_dec:
  assumes "r = [] \<or> \<not> is_digit (hd r)" "n < 2 ^ 63"
  shows "strtol (dec n @ r) = (int n, r)"
  by (simp add: strtol_def dec_head dec_span [OF assms(1)] digits_value_dec dec_nonempty clamp_int [OF assms(2)])

lemma atoi_dec: "n < 2 ^ 31 \<Longrightarrow> atoi (dec n) = int n"
proof -
  assume n: "n < 2 ^ 31"
  then have "int n < 2 ^ 31" by (metis of_nat_less_iff of_nat_numeral of_nat_power)
  with n show ?thesis using strtol_of_dec [of "[]" n] by (simp add: atoi_def to_int32_id)
qed

lemma dec_inj: "dec a = dec b \<longleftrightarrow> a = b"
  by (metis digits_value_dec of_nat_eq_iff)

end
