(* ===== verification/CmdLine.thy ===== *)
theory CmdLine
  imports Digits
begin

text \<open>
  How the bitcoin program of SysPro_Project1 takes a line of input apart (src/use.c): the buffer
  getline fills, strtok and strtol on positions of that buffer, and the parsers of amounts, dates and
  time windows.  A position is an index of the buffer; reading behind its last byte is a fault.
\<close>

section \<open>The buffer of a line\<close>

record line =
  mem :: string
  save :: nat

text \<open>cmd[len - 1] = 0 replaces the newline; getline has put a NUL behind it.\<close>

definition load :: "string \<Rightarrow> line" where
  "load l = \<lparr> mem = butlast l @ [NUL, NUL], save = 0 \<rparr>"

definition byte_at :: "string \<Rightarrow> nat \<Rightarrow> fault + char" where
  "byte_at m p = (if p < length m then ok (m ! p) else crash BadIndex)"

definition cstr_at :: "string \<Rightarrow> nat \<Rightarrow> fault + string" where
  "cstr_at m p =
     (if NUL \<in> set (drop p m) then ok (takeWhile (\<lambda>c. c \<noteq> NUL) (drop p m)) else crash BadIndex)"

text \<open>strtok(NULL, " "): the position of the token, or None, and the buffer with the token cut off.\<close>

definition tok :: "line \<Rightarrow> fault + nat option \<times> line" where
  "tok L =
     (let q = save L + length (takeWhile (\<lambda>c. c = CHR '' '') (drop (save L) (mem L)));
          e = q + length (takeWhile (\<lambda>c. c \<noteq> CHR '' '' \<and> c \<noteq> NUL) (drop q (mem L)))
      in if q \<ge> length (mem L) then crash BadIndex
         else if mem L ! q = NUL then ok (None, L\<lparr>save := q\<rparr>)
         else if e \<ge> length (mem L) then crash BadIndex
         else if mem L ! e = NUL then ok (Some q, L\<lparr>save := e\<rparr>)
         else ok (Some q, \<lparr> mem = (mem L)[e := NUL], save = e + 1 \<rparr>))"

text \<open>strtol(p, \&p, 10): the value, whether errno is set, and the new position.\<close>

definition strtol_errno :: "string \<Rightarrow> bool" where
  "strtol_errno s =
     (let (neg, t) = take_sign (skip_ws s); v = digits_value (takeWhile is_digit t)
      in clamp_long (if neg then - v else v) \<noteq> (if neg then - v else v))"

definition strtol_at :: "string \<Rightarrow> nat \<Rightarrow> fault + int \<times> bool \<times> nat" where
  "strtol_at m p =
     and_then (cstr_at m p) (\<lambda>s.
       let (v, rest) = strtol s in ok (v, strtol_errno s, p + (length s - length rest)))"

definition long_minus :: "int \<Rightarrow> int \<Rightarrow> fault + int" where
  "long_minus a b = (if a - b < - (2 ^ 63) then crash SignedOverflow else ok (a - b))"

text \<open>A parser yields a value or the message it prints.\<close>

definition attempt :: "fault + string + 'a \<Rightarrow> ('a \<Rightarrow> fault + string + 'b) \<Rightarrow> fault + string + 'b" where
  "attempt m f = and_then m (\<lambda>r. case r of Inl msg \<Rightarrow> ok (Inl msg) | Inr x \<Rightarrow> f x)"

definition fail_with :: "string \<Rightarrow> fault + string + 'a" where
  "fail_with msg = ok (Inl (msg @ nl))"

definition got_it :: "'a \<Rightarrow> fault + string + 'a" where
  "got_it x = ok (Inr x)"

lemma attempt_simps [simp]:
  "attempt (crash e) f = crash e"
  "attempt (ok (Inl msg)) f = ok (Inl msg)"
  "attempt (ok (Inr x)) f = f x"
  "attempt (got_it x) f = f x"
  "attempt (fail_with msg) f = fail_with msg"
  by (simp_all add: attempt_def got_it_def fail_with_def)

lemma attempt_ok_iff: "attempt m f = ok (Inr y) \<longleftrightarrow> (\<exists>x. m = ok (Inr x) \<and> f x = ok (Inr y))"
  by (auto simp: attempt_def and_then_ok_iff split: sum.split_asm)

section \<open>Amounts and dates of transactions\<close>

text \<open>The sender's ID, the receiver's ID and the amount: three tokens, and the line behind them.\<close>

definition request_args :: "line \<Rightarrow> fault + string + (nat \<times> nat \<times> nat \<times> line)" where
  "request_args L =
     and_then (tok L) (\<lambda>(sndrID, L). case sndrID of None \<Rightarrow> fail_with ''No senderWalletID read.''
     | Some sndrID \<Rightarrow>
     and_then (tok L) (\<lambda>(rcvrID, L). case rcvrID of None \<Rightarrow> fail_with ''No receiverWalletID read.''
     | Some rcvrID \<Rightarrow>
     and_then (tok L) (\<lambda>(str1, L). case str1 of None \<Rightarrow> fail_with ''Invalid transaction entered.''
     | Some str1 \<Rightarrow> got_it (sndrID, rcvrID, str1, L))))"

text \<open>The amount becomes a size_t.\<close>

definition read_amount :: "string \<Rightarrow> nat \<Rightarrow> fault + string + (nat \<times> nat)" where
  "read_amount m str1 =
     and_then (strtol_at m str1) (\<lambda>(v, _, str1).
       let amount = nat (v mod int SIZE_MOD)
       in if amount = 0 then fail_with ''Invalid amount.'' else got_it (amount, str1))"

text \<open>
  What follows the day: month, year, hour and minutes, each behind one skipped character.  errno is
  reset before the hour only.
\<close>

definition date_rest :: "string \<Rightarrow> nat \<Rightarrow> int \<Rightarrow> fault + string + int" where
  "date_rest m str1 mday =
     and_then (strtol_at m (str1 + 1)) (\<lambda>(v, _, str1).
     and_then (long_minus v 1) (\<lambda>w. let mon = to_int32 w in
     if mon = -1 then fail_with ''Month was not specified.''
     else
     and_then (strtol_at m (str1 + 1)) (\<lambda>(v, _, str1).
     and_then (long_minus v 1900) (\<lambda>w. let year = to_int32 w in
     if year = -1900 then fail_with ''Year was not specified.''
     else
     and_then (strtol_at m (str1 + 1)) (\<lambda>(v, errno, str1). let hour = to_int32 v in
     if hour = 0 \<and> errno then fail_with ''Hour was not specified.''
     else
     and_then (strtol_at m (str1 + 1)) (\<lambda>(v, errno', str1). let minute = to_int32 v in
     if minute = 0 \<and> (errno \<or> errno') then fail_with ''No minutes specified.''
     else got_it (timegm (tm_zero\<lparr>tm_mday := mday, tm_mon := mon, tm_year := year, tm_hour := hour, tm_min := minute\<rparr>))))))))"

text \<open>The date of requestTransaction: 0 when there is none.\<close>

definition transaction_date :: "string \<Rightarrow> nat \<Rightarrow> fault + string + int" where
  "transaction_date m str1 =
     and_then (strtol_at m (str1 + 1)) (\<lambda>(v, _, str1).
       let mday = to_int32 v in if mday = 0 then got_it 0 else date_rest m str1 mday)"

text \<open>In a file the day field gets the truth value of the comparison of the day with 0.\<close>

definition file_date :: "string \<Rightarrow> nat \<Rightarrow> fault + string + int" where
  "file_date m str1 =
     and_then (strtol_at m (str1 + 1)) (\<lambda>(v, _, str1).
       let mday = (if v = 0 then 1 else 0) in if mday \<noteq> 0 then got_it 0 else date_rest m str1 mday)"

definition multi_date :: "string \<Rightarrow> nat \<Rightarrow> fault + string + int" where
  "multi_date m str1 =
     and_then (strtol_at m (str1 + 1)) (\<lambda>(v, _, str1).
       let mday = to_int32 v in if mday = 0 then got_it 0 else date_rest m str1 mday)"

section \<open>Time windows of the queries\<close>

text \<open>day-month-year from a position; the message about the month has two forms\<close>

definition read_dmy :: "string \<Rightarrow> string \<Rightarrow> nat \<Rightarrow> fault + string + (int \<times> int \<times> int)" where
  "read_dmy month_msg m str1 =
     and_then (strtol_at m str1) (\<lambda>(v, _, str1). let mday = to_int32 v in
     if mday = 0 then fail_with ''Wrong time range specified.''
     else
     and_then (strtol_at m (str1 + 1)) (\<lambda>(v, _, str1).
     and_then (long_minus v 1) (\<lambda>w. let mon = to_int32 w in
     if mon = -1 then fail_with month_msg
     else
     and_then (strtol_at m (str1 + 1)) (\<lambda>(v, _, str1).
     and_then (long_minus v 1900) (\<lambda>w. let year = to_int32 w in
     if year = -1900 then fail_with ''Wrong time range specified.''
     else got_it (mday, mon, year))))))"

text \<open>
  hour:minutes.  lax is the test of findEarnings, which accepts 0 unless errno is set; findPayments
  refuses an end time with a 0 in it.  errno comes in as it was left.
\<close>

definition read_hm :: "bool \<Rightarrow> bool \<Rightarrow> string \<Rightarrow> nat \<Rightarrow> fault + string + (int \<times> int)" where
  "read_hm lax errno m str1 =
     and_then (strtol_at m str1) (\<lambda>(v, e, str1). let hour = to_int32 v; errno = (errno \<or> e) in
     if hour = 0 \<and> (\<not> lax \<or> errno) then fail_with ''Wrong time range specified.''
     else
     and_then (strtol_at m (str1 + 1)) (\<lambda>(v, e, str1). let minute = to_int32 v in
     if minute = 0 \<and> (\<not> lax \<or> errno \<or> e) then fail_with ''Wrong time range specified.''
     else got_it (hour, minute)))"

definition next_token :: "line \<Rightarrow> fault + string + (nat \<times> line)" where
  "next_token L =
     and_then (tok L) (\<lambda>(str1, L). case str1 of
       None \<Rightarrow> fail_with ''Wrong time range specified.'' | Some str1 \<Rightarrow> got_it (str1, L))"

definition tm_of :: "int \<times> int \<times> int \<Rightarrow> int \<times> int \<Rightarrow> tm" where
  "tm_of d t = (case d of (mday, mon, year) \<Rightarrow> case t of (hour, minute) \<Rightarrow>
     tm_zero\<lparr>tm_mday := mday, tm_mon := mon, tm_year := year, tm_hour := hour, tm_min := minute\<rparr>)"

text \<open>
  A window that begins with a time: the date behind it is optional, and when it is there the end
  has one too.  The read of the end date takes a NULL pointer when there is no further token.
\<close>

definition time_window :: "bool \<Rightarrow> line \<Rightarrow> nat \<Rightarrow> fault + string + (int \<times> int)" where
  "time_window lax L str1 =
     attempt (read_hm True False (mem L) str1) (\<lambda>start_hm.
     attempt (next_token L) (\<lambda>(str1, L).
     and_then (byte_at (mem L) (str1 + 2)) (\<lambda>c.
     let dateFlag = (c = CHR ''-'') in
     attempt
       (if dateFlag then
          attempt (read_dmy ''Wrong time specified.'' (mem L) str1) (\<lambda>d.
          attempt (next_token L) (\<lambda>(str1, L). got_it (d, str1, L)))
        else got_it ((0, 0, 0), str1, L))
       (\<lambda>(start_dmy, str1, L).
     attempt (read_hm lax False (mem L) str1) (\<lambda>end_hm.
     and_then (tok L) (\<lambda>(str1, L).
     attempt
       (if str1 = None \<and> \<not> dateFlag then fail_with ''Wrong time range specified.''
        else if dateFlag then
          (case str1 of
             None \<Rightarrow> crash NullDeref
           | Some str1 \<Rightarrow>
               attempt (read_dmy ''Wrong time range specified.'' (mem L) str1) (\<lambda>d. got_it (start_dmy, d)))
        else got_it ((1, 0, 70), (1, 0, 70)))
       (\<lambda>(start_dmy, end_dmy).
     let startTime = timegm (tm_of start_dmy start_hm); endTime = timegm (tm_of end_dmy end_hm)
     in if startTime > endTime \<and> dateFlag then fail_with ''Invalid time range.''
        else got_it (startTime, endTime))))))))"

text \<open>A window of two dates: from 00:00 of the first to 23:59 of the second.\<close>

definition date_window :: "line \<Rightarrow> nat \<Rightarrow> fault + string + (int \<times> int)" where
  "date_window L str1 =
     attempt (read_dmy ''Wrong time range specified.'' (mem L) str1) (\<lambda>start_dmy.
     attempt (next_token L) (\<lambda>(str1, L).
     attempt (read_dmy ''Wrong time range specified.'' (mem L) str1) (\<lambda>end_dmy.
     let startTime = timegm (tm_of start_dmy (0, 0)); endTime = timegm (tm_of end_dmy (23, 59))
     in if startTime > endTime then fail_with ''Invalid time range.'' else got_it (startTime, endTime))))"

text \<open>Anything else after the wallet, and no token at all, means no restriction.\<close>

definition window :: "bool \<Rightarrow> line \<Rightarrow> fault + string + (int \<times> int)" where
  "window lax L =
     and_then (tok L) (\<lambda>(str1, L). case str1 of
       None \<Rightarrow> got_it (0, 0)
     | Some str1 \<Rightarrow>
         and_then (byte_at (mem L) (str1 + 2)) (\<lambda>c.
           if c = CHR '':'' then time_window lax L str1
           else if c = CHR ''-'' then date_window L str1
           else got_it (0, 0)))"

definition earnings_window :: "line \<Rightarrow> fault + string + (int \<times> int)" where
  "earnings_window = window True"

definition payments_window :: "line \<Rightarrow> fault + string + (int \<times> int)" where
  "payments_window = window False"

section \<open>What a well-formed line means\<close>

definition is_word :: "string \<Rightarrow> bool" where
  "is_word w \<longleftrightarrow> w \<noteq> [] \<and> CHR '' '' \<notin> set w \<and> NUL \<notin> set w"

lemma strtol_dec:
  assumes "r = [] \<or> \<not> is_digit (hd r)" "n < 2 ^ 63"
  shows "strtol (dec n @ r) = (int n, r)" "\<not> strtol_errno (dec n @ r)"
  using strtol_of_dec [OF assms] clamp_int [OF assms(2)]
  by (simp_all add: strtol_errno_def dec_head dec_span [OF assms(1)] digits_value_dec dec_nonempty)

text \<open>strtol at a number in the buffer that a character other than a digit ends\<close>

lemma strtol_at_dec:
  assumes "drop p m = dec n @ c # r" "\<not> is_digit c" "NUL \<in> set (c # r)" "n < 2 ^ 63"
  shows "strtol_at m p = ok (int n, False, p + length (dec n))"
proof -
  have no: "NUL \<notin> set (dec n)" using dec_digits digit_not_special by blast
  define t where "t = takeWhile (\<lambda>c. c \<noteq> NUL) (c # r)"
  have "cstr_at m p = ok (dec n @ t)"
    using assms(1,3) no unfolding cstr_at_def t_def assms(1) by (subst takeWhile_append2) auto
  moreover have "t = [] \<or> \<not> is_digit (hd t)" using assms(2) by (auto simp: t_def)
  ultimately show ?thesis using strtol_dec [OF _ assms(4)] by (simp add: strtol_at_def)
qed

text \<open>strtok at a word\<close>

lemma tok_word:
  assumes "mem ln = pre @ w @ CHR '' '' # r" "save ln = length pre" "is_word w"
  shows "tok ln = ok (Some (length pre), \<lparr> mem = pre @ w @ NUL # r, save = length pre + length w + 1 \<rparr>)"
proof -
  obtain c cs where w: "w = c # cs" using assms(3) by (cases w) (simp_all add: is_word_def)
  have d: "drop (save ln) (mem ln) = w @ CHR '' '' # r" using assms(1,2) by simp
  have "takeWhile (\<lambda>c. c = CHR '' '') (w @ CHR '' '' # r) = []" using assms(3) w by (auto simp: is_word_def)
  moreover have "takeWhile (\<lambda>c. c \<noteq> CHR '' '' \<and> c \<noteq> NUL) (w @ CHR '' '' # r) = w"
    using assms(3) by (subst takeWhile_append2) (auto simp: is_word_def)
  moreover have "mem ln ! length pre = c" "mem ln ! (length pre + length w) = CHR '' ''" "c \<noteq> NUL"
    using assms(1,3) w by (auto simp: nth_append is_word_def)
  moreover have "(mem ln)[length pre + length w := NUL] = pre @ w @ NUL # r"
    using assms(1) by (simp add: list_update_append)
  ultimately show ?thesis using assms(1,2) d by (simp add: tok_def Let_def)
qed

lemma tok_last_word:
  assumes "mem ln = pre @ w @ NUL # r" "save ln = length pre" "is_word w"
  shows "tok ln = ok (Some (length pre), \<lparr> mem = pre @ w @ NUL # r, save = length pre + length w \<rparr>)"
proof -
  obtain c cs where w: "w = c # cs" using assms(3) by (cases w) (simp_all add: is_word_def)
  have d: "drop (save ln) (mem ln) = w @ NUL # r" using assms(1,2) by simp
  have "takeWhile (\<lambda>c. c = CHR '' '') (w @ NUL # r) = []" using assms(3) w by (auto simp: is_word_def)
  moreover have "takeWhile (\<lambda>c. c \<noteq> CHR '' '' \<and> c \<noteq> NUL) (w @ NUL # r) = w"
    using assms(3) by (subst takeWhile_append2) (auto simp: is_word_def)
  moreover have "mem ln ! length pre = c" "mem ln ! (length pre + length w) = NUL" "c \<noteq> NUL"
    using assms(1,3) w by (auto simp: nth_append is_word_def)
  ultimately show ?thesis using assms(1,2) d by (cases ln) (simp add: tok_def Let_def)
qed

lemma cstr_at_word: "is_word w \<Longrightarrow> cstr_at (pre @ w @ NUL # r) (length pre) = ok w"
  unfolding cstr_at_def by (simp, subst takeWhile_append2) (auto simp: is_word_def)

lemma drop_behind: "drop p m = w @ c # r \<Longrightarrow> drop (p + length w + 1) m = r"
  by (metis add.assoc append_Cons append_assoc append_eq_conv_conj append_Nil drop_drop length_append_singleton Suc_eq_plus1 add.commute)

lemma int32_small: "n < 2 ^ 31 \<Longrightarrow> to_int32 (int n) = int n" "n < 2 ^ 31 \<Longrightarrow> to_int32 (int n - 1) = int n - 1"
  "n < 2 ^ 31 \<Longrightarrow> to_int32 (int n - 1900) = int n - 1900"
proof -
  assume "n < 2 ^ 31"
  then have "int n < 2 ^ 31" by (metis of_nat_less_iff of_nat_numeral of_nat_power)
  then show "to_int32 (int n) = int n" "to_int32 (int n - 1) = int n - 1" "to_int32 (int n - 1900) = int n - 1900"
    by (auto intro!: to_int32_id)
qed

text \<open>month-year hour:minutes\<close>

definition rest_text :: "nat \<Rightarrow> nat \<Rightarrow> nat \<Rightarrow> nat \<Rightarrow> string" where
  "rest_text mon year hour minute = dec mon @ ''-'' @ dec year @ '' '' @ dec hour @ '':'' @ dec minute"

definition rest_ok :: "nat \<Rightarrow> nat \<Rightarrow> nat \<Rightarrow> nat \<Rightarrow> bool" where
  "rest_ok mon year hour minute \<longleftrightarrow>
     0 < mon \<and> mon < 2 ^ 31 \<and> 0 < year \<and> year < 2 ^ 31 \<and> hour < 2 ^ 31 \<and> minute < 2 ^ 31"

lemma date_rest_text:
  assumes "drop (p + 1) m = rest_text mon year hour minute @ c # r" "\<not> is_digit c" "NUL \<in> set (c # r)"
    and ok: "rest_ok mon year hour minute"
  shows "date_rest m p mday = got_it (timegm (tm_zero\<lparr>tm_mday := mday, tm_mon := int mon - 1, tm_year := int year - 1900,
    tm_hour := int hour, tm_min := int minute\<rparr>))"
proof -
  have big: "n < 2 ^ 31 \<Longrightarrow> n < 2 ^ 63" for n :: nat by (erule less_trans) simp
  define p1 where "p1 = p + 1 + length (dec mon)"
  define p2 where "p2 = p1 + 1 + length (dec year)"
  define p3 where "p3 = p2 + 1 + length (dec hour)"
  have d0: "drop (p + 1) m = dec mon @ CHR ''-'' # dec year @ CHR '' '' # dec hour @ CHR '':'' # dec minute @ c # r"
    using assms(1) by (simp add: rest_text_def)
  have d1: "drop (p1 + 1) m = dec year @ CHR '' '' # dec hour @ CHR '':'' # dec minute @ c # r"
    using drop_behind [OF d0] by (simp add: p1_def)
  have d2: "drop (p2 + 1) m = dec hour @ CHR '':'' # dec minute @ c # r"
    using drop_behind [OF d1] by (simp add: p2_def)
  have d3: "drop (p3 + 1) m = dec minute @ c # r"
    using drop_behind [OF d2] by (simp add: p3_def)
  have s0: "strtol_at m (p + 1) = ok (int mon, False, p1)"
    using strtol_at_dec [OF d0] assms(3) ok big by (auto simp: p1_def rest_ok_def is_digit_def char_code_def)
  have s1: "strtol_at m (p1 + 1) = ok (int year, False, p2)"
    using strtol_at_dec [OF d1] assms(3) ok big by (auto simp: p2_def rest_ok_def is_digit_def char_code_def)
  have s2: "strtol_at m (p2 + 1) = ok (int hour, False, p3)"
    using strtol_at_dec [OF d2] assms(3) ok big by (auto simp: p3_def rest_ok_def is_digit_def char_code_def)
  have s3: "strtol_at m (p3 + 1) = ok (int minute, False, p3 + 1 + length (dec minute))"
    using strtol_at_dec [OF d3 assms(2,3)] ok big by (auto simp: rest_ok_def)
  have "long_minus (int mon) 1 = ok (int mon - 1)" "long_minus (int year) 1900 = ok (int year - 1900)"
    by (simp_all add: long_minus_def)
  then show ?thesis using ok unfolding date_rest_def s0
    by (simp add: s1 [unfolded One_nat_def add_Suc_right add_0_right] s2 [unfolded One_nat_def add_Suc_right add_0_right]
        s3 [unfolded One_nat_def add_Suc_right add_0_right] rest_ok_def int32_small Let_def)
qed

text \<open>A dated line: behind the command, the two wallets, the amount and the date.\<close>

definition request_line :: "string \<Rightarrow> string \<Rightarrow> nat \<Rightarrow> nat \<Rightarrow> string \<Rightarrow> string" where
  "request_line s r a mday rest = s @ '' '' @ r @ '' '' @ dec a @ '' '' @ dec mday @ ''-'' @ rest"

lemma request_args_words:
  assumes "mem ln = pre @ s @ CHR '' '' # r @ CHR '' '' # w @ CHR '' '' # rest" "save ln = length pre"
    and "is_word s" "is_word r" "is_word w"
  shows "request_args ln = got_it (length pre, length pre + length s + 1, length pre + length s + length r + 2,
    \<lparr> mem = pre @ s @ NUL # r @ NUL # w @ NUL # rest, save = length pre + length s + length r + length w + 3 \<rparr>)"
proof -
  have "tok ln = ok (Some (length pre), \<lparr> mem = pre @ s @ NUL # r @ CHR '' '' # w @ CHR '' '' # rest, save = length pre + length s + 1 \<rparr>)"
    using tok_word [OF assms(1,2,3)] .
  moreover have "tok \<lparr> mem = pre @ s @ NUL # r @ CHR '' '' # w @ CHR '' '' # rest, save = length pre + length s + 1 \<rparr>
      = ok (Some (length pre + length s + 1), \<lparr> mem = pre @ s @ NUL # r @ NUL # w @ CHR '' '' # rest, save = length pre + length s + length r + 2 \<rparr>)"
    using tok_word [of "\<lparr> mem = pre @ s @ NUL # r @ CHR '' '' # w @ CHR '' '' # rest, save = length pre + length s + 1 \<rparr>" "pre @ s @ [NUL]" r] assms(4)
    by simp
  moreover have "tok \<lparr> mem = pre @ s @ NUL # r @ NUL # w @ CHR '' '' # rest, save = length pre + length s + length r + 2 \<rparr>
      = ok (Some (length pre + length s + length r + 2), \<lparr> mem = pre @ s @ NUL # r @ NUL # w @ NUL # rest, save = length pre + length s + length r + length w + 3 \<rparr>)"
    using tok_word [of "\<lparr> mem = pre @ s @ NUL # r @ NUL # w @ CHR '' '' # rest, save = length pre + length s + length r + 2 \<rparr>" "pre @ s @ NUL # r @ [NUL]" w] assms(5)
    by (simp add: eval_nat_numeral)
  ultimately show ?thesis by (simp add: request_args_def)
qed

lemma dec_is_word: "is_word (dec n)"
  using dec_digits [of _ n] digit_not_special dec_nonempty by (fastforce simp: is_word_def)

lemma read_amount_dec:
  assumes "drop p m = dec a @ NUL # r" "0 < a" "a < 2 ^ 63"
  shows "read_amount m p = got_it (a, p + length (dec a))"
proof -
  have "strtol_at m p = ok (int a, False, p + length (dec a))"
    using strtol_at_dec [OF assms(1) _ _ assms(3)] by (simp add: is_digit_def char_code_def)
  moreover have "int a mod int SIZE_MOD = int a"
  proof -
    have "a < SIZE_MOD" using assms(3) unfolding SIZE_MOD_def by (rule less_trans) simp
    then show ?thesis by (metis mod_less zmod_int)
  qed
  ultimately show ?thesis using assms(2) by (simp add: read_amount_def)
qed

end
