(* ===== verification/Interfaces.thy ===== *)
theory Interfaces
  imports Prelude
begin

text \<open>
  The contracts between components, one locale each, with the facts their clients need proved once
  from the laws.  The providers interpret them on the definitions translated from the sources.
\<close>

section \<open>A bounded FIFO buffer\<close>

text \<open>
  What the client's threads rely on when they use the shared buffer under its mutex: push appends,
  take removes the oldest element, and the two guards say when each may be called.
\<close>

locale bounded_fifo =
  fixes invar :: "'b \<Rightarrow> bool"
    and contents :: "'b \<Rightarrow> 'e list"
    and capacity :: "'b \<Rightarrow> nat"
    and is_empty :: "'b \<Rightarrow> bool"
    and is_full :: "'b \<Rightarrow> bool"
    and push :: "'b \<Rightarrow> 'e \<Rightarrow> 'b"
    and front :: "'b \<Rightarrow> 'e"
    and take_front :: "'b \<Rightarrow> 'b"
  assumes empty_iff: "invar b \<Longrightarrow> is_empty b \<longleftrightarrow> contents b = []"
    and full_iff: "invar b \<Longrightarrow> is_full b \<longleftrightarrow> length (contents b) = capacity b"
    and within: "invar b \<Longrightarrow> length (contents b) \<le> capacity b"
    and push_contents: "invar b \<Longrightarrow> \<not> is_full b \<Longrightarrow> contents (push b e) = contents b @ [e]"
    and push_invar: "invar b \<Longrightarrow> \<not> is_full b \<Longrightarrow> invar (push b e)"
    and push_capacity: "capacity (push b e) = capacity b"
    and front_contents: "invar b \<Longrightarrow> \<not> is_empty b \<Longrightarrow> front b = hd (contents b)"
    and take_contents: "invar b \<Longrightarrow> \<not> is_empty b \<Longrightarrow> contents (take_front b) = tl (contents b)"
    and take_invar: "invar b \<Longrightarrow> \<not> is_empty b \<Longrightarrow> invar (take_front b)"
    and take_capacity: "capacity (take_front b) = capacity b"
begin

text \<open>
  A schedule is a list of requests; a request whose guard does not hold waits, so it leaves the
  buffer as it is.  The run collects what was accepted and what was delivered.
\<close>

fun sched :: "'b \<Rightarrow> 'e option list \<Rightarrow> 'e list \<times> 'e list \<times> 'b" where
  "sched b [] = ([], [], b)"
| "sched b (Some e # rs) =
     (if is_full b then sched b rs
      else (case sched (push b e) rs of (ins, outs, b') \<Rightarrow> (e # ins, outs, b')))"
| "sched b (None # rs) =
     (if is_empty b then sched b rs
      else (case sched (take_front b) rs of (ins, outs, b') \<Rightarrow> (ins, front b # outs, b')))"

lemma sched_fifo:
  assumes "invar b" and "sched b rs = (ins, outs, b')"
  shows "contents b @ ins = outs @ contents b' \<and> invar b' \<and> capacity b' = capacity b"
  using assms
proof (induction b rs arbitrary: ins outs b' rule: sched.induct)
  case (1 b)
  then show ?case by simp
next
  case (2 b e rs)
  then show ?case
    by (auto simp: push_contents push_invar push_capacity split: if_splits prod.splits)
next
  case (3 b rs)
  show ?case
  proof (cases "is_empty b")
    case True
    with 3 show ?thesis by simp
  next
    case False
    with "3.prems"(1) have front: "contents b = front b # contents (take_front b)"
      by (simp add: empty_iff front_contents take_contents)
    obtain ins0 outs0 b0 where split: "sched (take_front b) rs = (ins0, outs0, b0)"
      by (rule prod_cases3)
    with "3.prems"(2) False have rest: "sched (take_front b) rs = (ins, outs0, b')"
      and outs: "outs = front b # outs0" by simp_all
    have "contents (take_front b) @ ins = outs0 @ contents b' \<and> invar b' \<and> capacity b' = capacity (take_front b)"
      using "3.prems"(1) False by (intro "3.IH"(2) rest take_invar)
    with front outs show ?thesis by (simp add: take_capacity)
  qed
qed

lemma sched_bounded:
  assumes "invar b" and "sched b rs = (ins, outs, b')"
  shows "length (contents b') \<le> capacity b"
  using sched_fifo [OF assms] within by fastforce

end

section \<open>An index of lists\<close>

text \<open>
  What the transaction code relies on in the sender and the receiver hash table: adding under a key
  succeeds and appends to the list of that key only.
\<close>

locale list_index =
  fixes invar :: "'h \<Rightarrow> bool"
    and lookup :: "'h \<Rightarrow> 'k \<Rightarrow> 'e list"
    and add :: "'h \<Rightarrow> 'k \<Rightarrow> 'e \<Rightarrow> fault + 'h"
  assumes add_ok: "invar h \<Longrightarrow>
    \<exists>h'. add h k e = ok h' \<and> invar h' \<and> (\<forall>k'. lookup h' k' = lookup h k' @ (if k' = k then [e] else []))"
begin

fun add_all :: "'h \<Rightarrow> ('k \<times> 'e) list \<Rightarrow> fault + 'h" where
  "add_all h [] = ok h"
| "add_all h ((k, e) # xs) = and_then (add h k e) (\<lambda>h. add_all h xs)"

lemma add_all_ok:
  "invar h \<Longrightarrow> \<exists>h'. add_all h xs = ok h' \<and> invar h'
     \<and> (\<forall>k. lookup h' k = lookup h k @ map snd (filter (\<lambda>x. fst x = k) xs))"
proof (induction xs arbitrary: h)
  case Nil
  then show ?case by simp
next
  case (Cons x xs)
  obtain k e where x: "x = (k, e)" by (cases x)
  obtain h1 where h1: "add h k e = ok h1" "invar h1"
      "\<forall>k'. lookup h1 k' = lookup h k' @ (if k' = k then [e] else [])"
    using add_ok [OF Cons.prems] by blast
  obtain h2 where h2: "add_all h1 xs = ok h2" "invar h2"
      "\<forall>k'. lookup h2 k' = lookup h1 k' @ map snd (filter (\<lambda>x. fst x = k') xs)"
    using Cons.IH [OF h1(2)] by blast
  then show ?case using h1 x by (intro exI [of _ h2]) auto
qed

text \<open>An element is listed under a key exactly when it was added under it.\<close>

lemma add_all_member:
  assumes "invar h" "\<forall>k. lookup h k = []" "add_all h xs = ok h'"
  shows "e \<in> set (lookup h' k) \<longleftrightarrow> (k, e) \<in> set xs"
  using add_all_ok [OF assms(1), of xs] assms(2,3) by force

end

section \<open>A divisible asset\<close>

text \<open>
  What the wallets rely on in a coin: a party that owns enough of it can move an amount to another
  party, the call returns the amount, and nobody else's share nor the worth of the asset changes.
\<close>

locale divisible_asset =
  fixes invar :: "'c \<Rightarrow> bool"
    and ident :: "'c \<Rightarrow> 'i"
    and share :: "'c \<Rightarrow> 'n \<Rightarrow> nat"
    and worth :: "'c \<Rightarrow> nat"
    and name :: "'p \<Rightarrow> 'n"
    and move :: "'c \<Rightarrow> nat \<Rightarrow> 'p \<Rightarrow> 'p \<Rightarrow> 't \<Rightarrow> (fault + 'c \<times> nat) option"
  assumes share_worth: "invar c \<Longrightarrow> share c v \<le> worth c"
    and move_law: "invar c \<Longrightarrow> a \<le> share c (name s) \<Longrightarrow> name r \<noteq> name s \<Longrightarrow>
      \<exists>c'. move c a s r t = Some (ok (c', a)) \<and> invar c' \<and> ident c' = ident c \<and> worth c' = worth c
        \<and> (\<forall>v. share c' v + (if v = name s then a else 0) = share c v + (if v = name r then a else 0))"
begin

lemma move_shares:
  assumes "invar c" "a \<le> share c (name s)" "name r \<noteq> name s"
  obtains c' where "move c a s r t = Some (ok (c', a))" "invar c'" "ident c' = ident c" "worth c' = worth c"
    "share c' (name s) = share c (name s) - a" "share c' (name r) = share c (name r) + a"
    "\<forall>v. v \<noteq> name s \<longrightarrow> v \<noteq> name r \<longrightarrow> share c' v = share c v"
    "share c (name r) + a \<le> worth c"
proof -
  obtain c' where c': "move c a s r t = Some (ok (c', a))" "invar c'" "ident c' = ident c" "worth c' = worth c"
      "\<forall>v. share c' v + (if v = name s then a else 0) = share c v + (if v = name r then a else 0)"
    using move_law [OF assms] by blast
  have s: "share c' (name s) = share c (name s) - a"
    using c'(5) [rule_format, of "name s"] assms(3) by simp
  have r: "share c' (name r) = share c (name r) + a"
    using c'(5) [rule_format, of "name r"] assms(3) by simp
  have other: "\<forall>v. v \<noteq> name s \<longrightarrow> v \<noteq> name r \<longrightarrow> share c' v = share c v"
    using c'(5) by (metis add.right_neutral)
  have "share c (name r) + a \<le> worth c"
    using share_worth [OF c'(2), of "name r"] r c'(4) by simp
  with that c'(1-4) s r other show thesis by blast
qed

end

section \<open>A registry of clients\<close>

text \<open>Requests are pairs: True logs a client on, False off.  The list after a sequence of them:\<close>

fun logged :: "'c list \<Rightarrow> (bool \<times> 'c) list \<Rightarrow> 'c list" where
  "logged ts [] = ts"
| "logged ts ((on, c) # rs) =
     logged (if on then (if c \<in> set ts then ts else ts @ [c]) else remove1 c ts) rs"

lemma distinct_logged: "distinct ts \<Longrightarrow> distinct (logged ts rs)"
  by (induction ts rs rule: logged.induct) auto

lemma logged_member:
  "distinct ts \<Longrightarrow> c \<in> set (logged ts rs) \<longleftrightarrow>
     (\<exists>as bs. rs = as @ (True, c) # bs \<and> (\<forall>x. (x, c) \<notin> set bs)) \<or> (c \<in> set ts \<and> (\<forall>x. (x, c) \<notin> set rs))"
proof (induction ts rs rule: logged.induct)
  case (1 ts)
  then show ?case by simp
next
  case (2 ts on d rs)
  define us where "us = (if on then (if d \<in> set ts then ts else ts @ [d]) else remove1 d ts)"
  have us: "distinct us" "c \<in> set us \<longleftrightarrow> (if c = d then on else c \<in> set ts)" using "2.prems" by (auto simp: us_def)
  have "c \<in> set (logged ts ((on, d) # rs)) \<longleftrightarrow>
      (\<exists>as bs. rs = as @ (True, c) # bs \<and> (\<forall>x. (x, c) \<notin> set bs)) \<or> (c \<in> set us \<and> (\<forall>x. (x, c) \<notin> set rs))"
    using "2.IH" us(1) unfolding us_def by simp
  also have "\<dots> \<longleftrightarrow> (\<exists>as bs. (on, d) # rs = as @ (True, c) # bs \<and> (\<forall>x. (x, c) \<notin> set bs))
      \<or> (c \<in> set ts \<and> (\<forall>x. (x, c) \<notin> set ((on, d) # rs)))"
    unfolding us(2) by (auto simp: Cons_eq_append_conv)
  finally show ?case .
qed

text \<open>
  What the server and the client's threads rely on: a test for membership, insertion of a new client
  and removal, over some representation of the list.
\<close>

locale registry =
  fixes rep :: "'h \<Rightarrow> 'p \<Rightarrow> 'c list \<Rightarrow> bool"
    and member :: "'h \<Rightarrow> 'p \<Rightarrow> 'c \<Rightarrow> (fault + bool) option"
    and add :: "'h \<Rightarrow> 'p \<Rightarrow> 'c \<Rightarrow> (fault + 'h \<times> 'p) option"
    and remove :: "'h \<Rightarrow> 'p \<Rightarrow> 'c \<Rightarrow> (fault + 'h \<times> 'p) option"
  assumes member_law: "rep h p ts \<Longrightarrow> member h p c = Some (ok (c \<in> set ts))"
    and add_law: "rep h p ts \<Longrightarrow> \<exists>h' p'. add h p c = Some (ok (h', p')) \<and> rep h' p' (ts @ [c])"
    and remove_law: "rep h p ts \<Longrightarrow> \<exists>h' p'. remove h p c = Some (ok (h', p')) \<and> rep h' p' (remove1 c ts)"
begin

fun session :: "'h \<Rightarrow> 'p \<Rightarrow> (bool \<times> 'c) list \<Rightarrow> (fault + 'h \<times> 'p) option" where
  "session h p [] = Some (ok (h, p))"
| "session h p ((on, c) # rs) =
     run_then (member h p c) (\<lambda>m.
     run_then (if on then (if m then Some (ok (h, p)) else add h p c)
               else (if m then remove h p c else Some (ok (h, p)))) (\<lambda>(h, p). session h p rs))"

lemma session_refines:
  "rep h p ts \<Longrightarrow> \<exists>h' p'. session h p rs = Some (ok (h', p')) \<and> rep h' p' (logged ts rs)"
proof (induction rs arbitrary: h p ts)
  case Nil
  then show ?case by simp
next
  case (Cons r rs)
  obtain on c where r: "r = (on, c)" by (cases r)
  have "\<exists>h1 p1. (if on then (if c \<in> set ts then Some (ok (h, p)) else add h p c)
          else (if c \<in> set ts then remove h p c else Some (ok (h, p)))) = Some (ok (h1, p1))
      \<and> rep h1 p1 (if on then (if c \<in> set ts then ts else ts @ [c]) else remove1 c ts)"
    using add_law [OF Cons.prems, of c] remove_law [OF Cons.prems, of c] Cons.prems by (auto simp: remove1_idem)
  then obtain h1 p1 where step: "(if on then (if c \<in> set ts then Some (ok (h, p)) else add h p c)
          else (if c \<in> set ts then remove h p c else Some (ok (h, p)))) = Some (ok (h1, p1))"
      "rep h1 p1 (if on then (if c \<in> set ts then ts else ts @ [c]) else remove1 c ts)" by blast
  show ?case using Cons.IH [OF step(2)] step(1) r member_law [OF Cons.prems, of c] by simp
qed

end

end
