(* ===== verification/HashTable.thy ===== *)
theory HashTable
  imports Interfaces
begin

text \<open>
  The sender and receiver hash tables (SysPro_Project1/src/hashTable.c and the struct definitions of
  hashTable.h and transaction.h).  A table entry is a chain of records: the records of its buckets
  in the order their nextItem pointers link them, so a record has a nextItem exactly when it is not
  the last of its chain.  The doubly linked list of TransList items of a record is a list; first is
  NULL when it is empty.  A Wallet pointer is a number, wid reads its walletID.
\<close>

section \<open>State\<close>

record transaction =
  transactionID :: string
  tvalue :: nat
  dateTime :: int

record trans_list =
  thisTrans :: transaction
  sourceDestWallet :: nat

record hashed_item =
  item_walletID :: "string option"
  item_trans :: "trans_list list"

record hash_table =
  Table :: "hashed_item list list"
  numOfEntries :: nat
  bucketSize :: nat

definition sizeof_HashedItem :: nat where "sizeof_HashedItem = 32"

definition empty_item :: hashed_item where
  "empty_item = \<lparr> item_walletID = None, item_trans = [] \<rparr>"

section \<open>djb2Hash\<close>

text \<open>The loop over the characters; the sum wraps in an unsigned long of 64 bits.\<close>

fun djb2_loop :: "64 word \<Rightarrow> string \<Rightarrow> 64 word" where
  "djb2_loop hash [] = hash"
| "djb2_loop hash (c # cs) = djb2_loop ((push_bit 5 hash + hash) + word_of_int (schar c)) cs"

definition djb2Hash :: "string \<Rightarrow> nat \<Rightarrow> fault + nat" where
  "djb2Hash ID n = (if n = 0 then crash DivZero else ok (unat (djb2_loop 5381 ID) mod n))"

section \<open>Creating buckets and tables\<close>

text \<open>
  The do-while loop writes record 0 before it compares the index with the number of records, so a
  bucket too small for one record is written out of bounds.
\<close>

definition newBucket :: "nat \<Rightarrow> fault + hashed_item list" where
  "newBucket bsz =
     (let numOfRecords = bsz div sizeof_HashedItem
      in if numOfRecords = 0 then crash BadIndex else ok (replicate numOfRecords empty_item))"

fun init_table :: "nat \<Rightarrow> nat \<Rightarrow> fault + hashed_item list list" where
  "init_table 0 bsz = ok []"
| "init_table (Suc i) bsz =
     and_then (newBucket bsz) (\<lambda>bucket. and_then (init_table i bsz) (\<lambda>rest. ok (bucket # rest)))"

definition initializeHashTable :: "nat \<Rightarrow> nat \<Rightarrow> fault + hash_table" where
  "initializeHashTable entries bsz =
     and_then (init_table entries bsz)
       (\<lambda>table. ok \<lparr> Table = table, numOfEntries = entries, bucketSize = bsz \<rparr>)"

section \<open>addTransaction\<close>

text \<open>The walk along the chain of one table entry.\<close>

fun add_to_chain :: "nat \<Rightarrow> string \<Rightarrow> trans_list \<Rightarrow> hashed_item list \<Rightarrow> fault + hashed_item list" where
  "add_to_chain bsz key t [] = crash NullDeref"
| "add_to_chain bsz key t (item # rest) =
     (case item_walletID item of
        None \<Rightarrow> ok (item\<lparr>item_walletID := Some key, item_trans := [t]\<rparr> # rest)
      | Some w \<Rightarrow>
          if strcmp w key = 0 then
            if item_trans item = [] then ok (item\<lparr>item_trans := [t]\<rparr> # rest)
            else ok (item\<lparr>item_trans := item_trans item @ [t]\<rparr> # rest)
          else if rest \<noteq> [] then
            and_then (add_to_chain bsz key t rest) (\<lambda>rest. ok (item # rest))
          else
            and_then (newBucket bsz) (\<lambda>bucket.
              case bucket of
                [] \<Rightarrow> crash BadIndex
              | new # others \<Rightarrow>
                  ok (item # new\<lparr>item_walletID := Some key, item_trans := [t]\<rparr> # others)))"

definition table_add :: "hash_table \<Rightarrow> string \<Rightarrow> trans_list \<Rightarrow> fault + hash_table" where
  "table_add HT key t =
     and_then (djb2Hash key (numOfEntries HT)) (\<lambda>hash.
       if hash \<ge> length (Table HT) then crash BadIndex
       else and_then (add_to_chain (bucketSize HT) key t (Table HT ! hash))
              (\<lambda>chain. ok (HT\<lparr>Table := (Table HT)[hash := chain]\<rparr>)))"

text \<open>The function also returns the new TransList item.\<close>

definition addTransaction ::
    "(nat \<Rightarrow> string) \<Rightarrow> hash_table \<Rightarrow> nat \<Rightarrow> nat \<Rightarrow> transaction \<Rightarrow> fault + (trans_list \<times> hash_table)" where
  "addTransaction wid HT walletID senRecWalletID tmpTransaction =
     (let t = \<lparr> thisTrans = tmpTransaction, sourceDestWallet = senRecWalletID \<rparr>
      in and_then (table_add HT (wid walletID) t) (\<lambda>HT. ok (t, HT)))"

section \<open>The search loop of findPayments and findEarnings\<close>

text \<open>
  The loop follows nextItem until the names agree.  A bucket's unused records are linked too, and
  their walletID is NULL: comparing it is a fault.
\<close>

fun find_loop :: "string \<Rightarrow> hashed_item list \<Rightarrow> fault + hashed_item option" where
  "find_loop key [] = crash NullDeref"
| "find_loop key (item # rest) =
     (case item_walletID item of
        None \<Rightarrow> crash NullDeref
      | Some w \<Rightarrow>
          if strcmp w key = 0 then ok (Some item)
          else if rest = [] then ok None
          else find_loop key rest)"

definition find_item :: "hash_table \<Rightarrow> string \<Rightarrow> fault + hashed_item option" where
  "find_item HT key =
     and_then (djb2Hash key (numOfEntries HT)) (\<lambda>hash.
       if hash \<ge> length (Table HT) then crash BadIndex
       else case Table HT ! hash of
              [] \<Rightarrow> crash BadIndex
            | first # _ \<Rightarrow> if item_walletID first = None then ok None else find_loop key (Table HT ! hash))"

section \<open>djb2: a polynomial in 33\<close>

fun djb2_poly :: "int \<Rightarrow> string \<Rightarrow> int" where
  "djb2_poly a [] = a"
| "djb2_poly a (c # cs) = djb2_poly (33 * a + schar c) cs"

lemma djb2_step: "push_bit 5 h + h = 33 * (h :: 64 word)"
proof -
  have "push_bit 5 h = 32 * h" by (simp add: push_bit_eq_mult mult.commute)
  then have "push_bit 5 h + h = (32 + 1) * h" by (simp only: distrib_right mult_1)
  then show ?thesis by simp
qed

lemma djb2_loop_poly: "djb2_loop (word_of_int a) s = word_of_int (djb2_poly a s)"
proof (induction s arbitrary: a)
  case (Cons c s)
  have "(33 * word_of_int a :: 64 word) + word_of_int (schar c) = word_of_int (33 * a + schar c)"
    by (simp only: of_int_add of_int_mult of_int_numeral)
  with Cons.IH show ?case by (simp only: djb2_loop.simps djb2_poly.simps djb2_step)
qed simp

lemma djb2Hash_ok: "0 < n \<Longrightarrow> \<exists>h. djb2Hash key n = ok h \<and> h < n"
  by (simp add: djb2Hash_def)

section \<open>Invariant and abstraction\<close>

fun filled_prefix :: "hashed_item list \<Rightarrow> bool" where
  "filled_prefix [] = True"
| "filled_prefix (it # rest) =
     (case item_walletID it of
        None \<Rightarrow> item_trans it = [] \<and> (\<forall>x \<in> set rest. x = empty_item)
      | Some w \<Rightarrow> item_trans it \<noteq> [] \<and> filled_prefix rest)"

fun chain_ids :: "hashed_item list \<Rightarrow> string list" where
  "chain_ids [] = []"
| "chain_ids (it # rest) = (case item_walletID it of None \<Rightarrow> chain_ids rest | Some w \<Rightarrow> w # chain_ids rest)"

fun chain_lookup :: "hashed_item list \<Rightarrow> string \<Rightarrow> trans_list list" where
  "chain_lookup [] key = []"
| "chain_lookup (it # rest) key = (if item_walletID it = Some key then item_trans it else chain_lookup rest key)"

definition chain_ok :: "hashed_item list \<Rightarrow> bool" where
  "chain_ok chain \<longleftrightarrow> chain \<noteq> [] \<and> filled_prefix chain \<and> distinct (chain_ids chain)"

definition slot :: "hash_table \<Rightarrow> string \<Rightarrow> nat" where
  "slot HT key = unat (djb2_loop 5381 key) mod numOfEntries HT"

definition table_ok :: "hash_table \<Rightarrow> bool" where
  "table_ok HT \<longleftrightarrow> 0 < numOfEntries HT \<and> length (Table HT) = numOfEntries HT
     \<and> sizeof_HashedItem \<le> bucketSize HT
     \<and> (\<forall>i < numOfEntries HT. chain_ok (Table HT ! i) \<and> (\<forall>key \<in> set (chain_ids (Table HT ! i)). slot HT key = i)
          \<and> bucketSize HT div sizeof_HashedItem dvd length (Table HT ! i))"

definition table_lookup :: "hash_table \<Rightarrow> string \<Rightarrow> trans_list list" where
  "table_lookup HT key = chain_lookup (Table HT ! slot HT key) key"

lemma empty_rest:
  "\<forall>x \<in> set rest. x = empty_item \<Longrightarrow> chain_ids rest = [] \<and> chain_lookup rest key = [] \<and> filled_prefix rest"
  by (induction rest) (auto simp: empty_item_def)

lemma chain_lookup_Nil: "filled_prefix chain \<Longrightarrow> chain_lookup chain key = [] \<longleftrightarrow> key \<notin> set (chain_ids chain)"
  by (induction chain) (auto split: option.splits dest: empty_rest)

lemma newBucket_ok:
  "sizeof_HashedItem \<le> bsz \<Longrightarrow> \<exists>n. newBucket bsz = ok (empty_item # replicate n empty_item) \<and> Suc n = bsz div sizeof_HashedItem"
proof -
  assume "sizeof_HashedItem \<le> bsz"
  then have "bsz div sizeof_HashedItem \<noteq> 0" by (simp add: div_eq_0_iff sizeof_HashedItem_def)
  then obtain n where "bsz div sizeof_HashedItem = Suc n" by (meson not0_implies_Suc)
  then show ?thesis by (auto simp: newBucket_def)
qed

lemma add_to_chain_ok:
  assumes "chain_ok chain" "sizeof_HashedItem \<le> bsz"
  shows "\<exists>chain'. add_to_chain bsz key t chain = ok chain' \<and> chain_ok chain'
     \<and> set (chain_ids chain') = insert key (set (chain_ids chain))
     \<and> (\<forall>k. chain_lookup chain' k = chain_lookup chain k @ (if k = key then [t] else []))"
  using assms(1)
proof (induction chain)
  case Nil
  then show ?case by (simp add: chain_ok_def)
next
  case (Cons it rest)
  show ?case
  proof (cases "item_walletID it")
    case None
    with Cons.prems have "\<forall>x \<in> set rest. x = empty_item" by (simp add: chain_ok_def)
    then show ?thesis using None empty_rest [of rest] by (auto simp: chain_ok_def)
  next
    case (Some w)
    show ?thesis
    proof (cases "w = key")
      case True
      with Some Cons.prems show ?thesis by (auto simp: chain_ok_def)
    next
      case False
      show ?thesis
      proof (cases "rest = []")
        case True
        obtain n where "newBucket bsz = ok (empty_item # replicate n empty_item)"
          using newBucket_ok [OF assms(2)] by blast
        moreover have "chain_ids (replicate n empty_item) = [] \<and> chain_lookup (replicate n empty_item) k = []" for k
          using empty_rest [of "replicate n empty_item"] by simp
        moreover have "filled_prefix (replicate n empty_item)"
          using empty_rest [of "replicate n empty_item"] by simp
        ultimately show ?thesis
          using True Some False Cons.prems by (auto simp: chain_ok_def)
      next
        case nonempty: False
        with Cons.prems Some have "chain_ok rest" by (simp add: chain_ok_def)
        then obtain rest' where "add_to_chain bsz key t rest = ok rest'" "chain_ok rest'"
            "set (chain_ids rest') = insert key (set (chain_ids rest))"
            "\<forall>k. chain_lookup rest' k = chain_lookup rest k @ (if k = key then [t] else [])"
          using Cons.IH by blast
        then show ?thesis
          using nonempty Some False Cons.prems by (auto simp: chain_ok_def)
      qed
    qed
  qed
qed

lemma add_to_chain_length:
  "add_to_chain bsz key t chain = ok chain' \<Longrightarrow>
   length chain' = length chain \<or> length chain' = length chain + bsz div sizeof_HashedItem"
proof (induction chain arbitrary: chain')
  case (Cons it rest)
  show ?case
  proof (cases "item_walletID it = None \<or> item_walletID it = Some key")
    case True
    with Cons.prems show ?thesis by (auto split: if_splits)
  next
    case False
    then obtain w where w: "item_walletID it = Some w" "w \<noteq> key" by auto
    show ?thesis
    proof (cases "rest = []")
      case True
      with Cons.prems w obtain bucket where b: "newBucket bsz = ok bucket" by (auto simp: and_then_ok_iff)
      then have "length chain' = Suc (length bucket)" using Cons.prems w True by (cases bucket) auto
      with b show ?thesis using True by (auto simp: newBucket_def Let_def split: if_splits)
    next
      case nonempty: False
      with Cons.prems w obtain rest' where "add_to_chain bsz key t rest = ok rest'" "chain' = it # rest'"
        by (auto simp: and_then_ok_iff)
      with Cons.IH show ?thesis by fastforce
    qed
  qed
qed simp

lemma table_add_ok:
  assumes "table_ok HT"
  shows "\<exists>HT'. table_add HT key t = ok HT' \<and> table_ok HT'
    \<and> (\<forall>k. table_lookup HT' k = table_lookup HT k @ (if k = key then [t] else []))"
proof -
  let ?i = "slot HT key"
  have i: "?i < numOfEntries HT" "?i < length (Table HT)"
    using assms by (simp_all add: table_ok_def slot_def)
  obtain chain where chain: "add_to_chain (bucketSize HT) key t (Table HT ! ?i) = ok chain" "chain_ok chain"
      "set (chain_ids chain) = insert key (set (chain_ids (Table HT ! ?i)))"
      "\<forall>k. chain_lookup chain k = chain_lookup (Table HT ! ?i) k @ (if k = key then [t] else [])"
    using add_to_chain_ok [of "Table HT ! ?i" "bucketSize HT" key t] assms i by (auto simp: table_ok_def)
  let ?HT = "HT\<lparr>Table := (Table HT)[?i := chain]\<rparr>"
  have sl: "slot ?HT = slot HT" by (simp add: slot_def fun_eq_iff)
  have "bucketSize HT div sizeof_HashedItem dvd length chain"
    using add_to_chain_length [OF chain(1)] assms i by (auto simp: table_ok_def)
  then have "table_ok ?HT"
    using assms i chain by (auto simp: table_ok_def sl nth_list_update)
  moreover have "table_add HT key t = ok ?HT"
    using assms i chain(1) by (simp add: table_add_def djb2Hash_def slot_def table_ok_def)
  moreover have "table_lookup ?HT k = table_lookup HT k @ (if k = key then [t] else [])" for k
    using i chain(4) by (auto simp: table_lookup_def sl nth_list_update)
  ultimately show ?thesis by blast
qed

lemma init_table_ok:
  assumes "sizeof_HashedItem \<le> bsz"
  shows "\<exists>n. init_table entries bsz = ok (replicate entries (empty_item # replicate n empty_item)) \<and> Suc n = bsz div sizeof_HashedItem"
proof -
  obtain n where n: "Suc n = bsz div sizeof_HashedItem" and "newBucket bsz = ok (empty_item # replicate n empty_item)"
    using newBucket_ok [OF assms] by blast
  then have "init_table entries bsz = ok (replicate entries (empty_item # replicate n empty_item))"
    by (induction entries) auto
  with n show ?thesis by blast
qed

lemma initializeHashTable_ok:
  assumes "0 < entries" "sizeof_HashedItem \<le> bsz"
  shows "\<exists>HT. initializeHashTable entries bsz = ok HT \<and> table_ok HT \<and> (\<forall>key. table_lookup HT key = [])"
proof -
  obtain n where n: "init_table entries bsz = ok (replicate entries (empty_item # replicate n empty_item))"
      "Suc n = bsz div sizeof_HashedItem"
    using init_table_ok [OF assms(2)] by blast
  let ?c = "empty_item # replicate n empty_item"
  have "chain_ids ?c = [] \<and> chain_lookup ?c key = [] \<and> filled_prefix ?c" for key
    by (rule empty_rest) auto
  then have "chain_ok ?c \<and> chain_ids ?c = [] \<and> (\<forall>key. chain_lookup ?c key = [])" by (simp add: chain_ok_def)
  moreover have "bsz div sizeof_HashedItem dvd length ?c" by (simp add: n(2) [symmetric])
  ultimately show ?thesis using n(1) assms
    by (simp add: initializeHashTable_def table_ok_def table_lookup_def slot_def)
qed

interpretation trans_index: list_index table_ok table_lookup table_add
  by unfold_locales (rule table_add_ok)

section \<open>The search\<close>

lemma find_loop_found:
  "filled_prefix chain \<Longrightarrow> key \<in> set (chain_ids chain) \<Longrightarrow>
   \<exists>it. find_loop key chain = ok (Some it) \<and> item_walletID it = Some key \<and> item_trans it = chain_lookup chain key"
proof (induction chain)
  case (Cons it rest)
  then show ?case
    using empty_rest [of rest] by (cases "item_walletID it") (auto simp del: filled_prefix.simps(1))
qed simp

lemma find_loop_absent:
  "chain \<noteq> [] \<Longrightarrow> filled_prefix chain \<Longrightarrow> key \<notin> set (chain_ids chain) \<Longrightarrow>
   find_loop key chain = (if \<exists>it \<in> set chain. item_walletID it = None then crash NullDeref else ok None)"
proof (induction chain)
  case (Cons it rest)
  then show ?case by (cases "rest = []") (auto split: option.splits)
qed simp

lemma slot_facts:
  assumes "table_ok HT"
  shows "djb2Hash key (numOfEntries HT) = ok (slot HT key)" "slot HT key < length (Table HT)"
    "chain_ok (Table HT ! slot HT key)"
proof -
  have "slot HT key < numOfEntries HT" using assms by (simp add: table_ok_def slot_def)
  with assms show "djb2Hash key (numOfEntries HT) = ok (slot HT key)" "slot HT key < length (Table HT)"
    "chain_ok (Table HT ! slot HT key)"
    by (auto simp: table_ok_def djb2Hash_def slot_def)
qed

lemma find_item_at_slot:
  "table_ok HT \<Longrightarrow> find_item HT key =
     (if item_walletID (hd (Table HT ! slot HT key)) = None then ok None
      else find_loop key (Table HT ! slot HT key))"
  using slot_facts [of HT key]
  by (cases "Table HT ! slot HT key") (auto simp: find_item_def chain_ok_def)

text \<open>The search finds a wallet with transactions, whatever the bucket bsz.\<close>

lemma find_item_present:
  assumes "table_ok HT" "table_lookup HT key \<noteq> []"
  shows "\<exists>it. find_item HT key = ok (Some it) \<and> item_trans it = table_lookup HT key"
proof -
  let ?c = "Table HT ! slot HT key"
  have c: "chain_ok ?c" using assms(1) by (rule slot_facts)
  then have mem: "key \<in> set (chain_ids ?c)"
    using assms(2) chain_lookup_Nil [of ?c key] by (simp add: table_lookup_def chain_ok_def)
  have "item_walletID (hd ?c) \<noteq> None"
    using c mem by (cases ?c) (auto simp: chain_ok_def split: option.splits dest: empty_rest)
  with find_loop_found [of ?c key] c mem show ?thesis
    by (auto simp: find_item_at_slot [OF assms(1)] chain_ok_def table_lookup_def)
qed

text \<open>For a wallet without transactions it may run into an unused record.\<close>

lemma find_item_absent:
  assumes "table_ok HT" "table_lookup HT key = []"
  shows "find_item HT key =
    (if item_walletID (hd (Table HT ! slot HT key)) \<noteq> None \<and> (\<exists>it \<in> set (Table HT ! slot HT key). item_walletID it = None)
     then crash NullDeref else ok None)"
proof -
  let ?c = "Table HT ! slot HT key"
  have c: "chain_ok ?c" using assms(1) by (rule slot_facts)
  then have "key \<notin> set (chain_ids ?c)"
    using assms(2) chain_lookup_Nil [of ?c key] by (simp add: table_lookup_def chain_ok_def)
  with find_loop_absent [of ?c key] c show ?thesis
    by (simp add: find_item_at_slot [OF assms(1)] chain_ok_def)
qed

section \<open>Properties\<close>

definition one_item :: trans_list where
  "one_item = \<lparr> thisTrans = \<lparr> transactionID = ''1'', tvalue = 20, dateTime = 0 \<rparr>, sourceDestWallet = 1 \<rparr>"

lemma small_table:
  "initializeHashTable 1 64 = ok \<lparr> Table = [[empty_item, empty_item]], numOfEntries = 1, bucketSize = 64 \<rparr>"
  by (simp add: initializeHashTable_def newBucket_def sizeof_HashedItem_def numeral_2_eq_2)

definition small_HT :: hash_table where
  "small_HT = \<lparr> Table = [[empty_item, empty_item]], numOfEntries = 1, bucketSize = 64 \<rparr>"

lemma small_HT_ok: "table_ok small_HT \<and> (\<forall>key. table_lookup small_HT key = [])"
  using initializeHashTable_ok [of 1 64] small_table by (auto simp: small_HT_def sizeof_HashedItem_def)

text \<open>
  C17: A table created with at least one entry and room for one record per bucket is valid and
  empty, and any sequence of additions succeeds: afterwards every wallet's list holds exactly the
  transactions added under its ID, in the order of the additions.
\<close>

theorem table_collects:
  assumes "0 < entries" "sizeof_HashedItem \<le> bsz"
  shows "\<exists>HT HT'. initializeHashTable entries bsz = ok HT \<and> trans_index.add_all HT xs = ok HT' \<and> table_ok HT'
    \<and> (\<forall>key. table_lookup HT' key = map snd (filter (\<lambda>x. fst x = key) xs))"
proof -
  obtain HT where HT: "initializeHashTable entries bsz = ok HT" "table_ok HT" "\<forall>key. table_lookup HT key = []"
    using initializeHashTable_ok [OF assms] by blast
  obtain HT' where "trans_index.add_all HT xs = ok HT'" "table_ok HT'"
      "\<forall>k. table_lookup HT' k = table_lookup HT k @ map snd (filter (\<lambda>x. fst x = k) xs)"
    using trans_index.add_all_ok [OF HT(2)] by blast
  with HT show ?thesis by auto
qed

theorem table_collects_witness:
  "\<exists>HT HT'. initializeHashTable 3 64 = ok HT \<and> trans_index.add_all HT [(''A'', one_item), (''B'', one_item)] = ok HT'
    \<and> table_ok HT' \<and> (\<forall>key. table_lookup HT' key = map snd (filter (\<lambda>x. fst x = key) [(''A'', one_item), (''B'', one_item)]))"
  by (rule table_collects) (simp_all add: sizeof_HashedItem_def)

text \<open>
  AddTransaction on a valid table always succeeds, appends the new item to the list of the
  given wallet and leaves the lists of all other wallets as they were.
\<close>

theorem addTransaction_appends:
  assumes "table_ok HT"
  shows "\<exists>HT'. addTransaction wid HT p q t = ok (\<lparr> thisTrans = t, sourceDestWallet = q \<rparr>, HT') \<and> table_ok HT'
    \<and> (\<forall>key. table_lookup HT' key = table_lookup HT key
         @ (if key = wid p then [\<lparr> thisTrans = t, sourceDestWallet = q \<rparr>] else []))"
  using table_add_ok [OF assms, of "wid p" "\<lparr> thisTrans = t, sourceDestWallet = q \<rparr>"]
  by (auto simp: addTransaction_def Let_def)

theorem addTransaction_appends_witness:
  "\<exists>HT'. addTransaction (\<lambda>p. ''A'') small_HT 0 1 (thisTrans one_item) = ok (one_item, HT') \<and> table_ok HT'
    \<and> (\<forall>key. table_lookup HT' key = table_lookup small_HT key @ (if key = ''A'' then [one_item] else []))"
proof -
  have "\<lparr> thisTrans = thisTrans one_item, sourceDestWallet = 1 \<rparr> = one_item" by (simp add: one_item_def)
  then show ?thesis
    using addTransaction_appends [of small_HT "\<lambda>p. ''A''" 0 1 "thisTrans one_item"] small_HT_ok by metis
qed

text \<open>
  The search finds the record of a wallet that has transactions, with its list; for a wallet
  without any it ends without a result only if the chain has no unused record behind a used one,
  and otherwise compares a NULL walletID.
\<close>

theorem search_outcome:
  assumes "table_ok HT"
  shows "find_item HT key =
    (if table_lookup HT key \<noteq> [] then ok (Some \<lparr> item_walletID = Some key, item_trans = table_lookup HT key \<rparr>)
     else if item_walletID (hd (Table HT ! slot HT key)) \<noteq> None
             \<and> (\<exists>it \<in> set (Table HT ! slot HT key). item_walletID it = None) then crash NullDeref
     else ok None)"
proof (cases "table_lookup HT key = []")
  case True
  with find_item_absent [OF assms True] show ?thesis by simp
next
  case False
  let ?c = "Table HT ! slot HT key"
  have c: "chain_ok ?c" using assms by (rule slot_facts)
  then have mem: "key \<in> set (chain_ids ?c)"
    using False chain_lookup_Nil [of ?c key] by (simp add: table_lookup_def chain_ok_def)
  obtain it where it: "find_loop key ?c = ok (Some it)" "item_walletID it = Some key" "item_trans it = chain_lookup ?c key"
    using find_loop_found [of ?c key] c mem by (auto simp: chain_ok_def)
  have "find_item HT key = find_loop key ?c"
    using find_item_present [OF assms False] find_item_at_slot [OF assms, of key] by (auto split: if_splits)
  with it False show ?thesis by (simp add: table_lookup_def)
qed

theorem search_outcome_witness:
  "find_item small_HT ''A'' = ok None"
  using search_outcome [of small_HT "''A''"] small_HT_ok
  by (simp add: small_HT_def slot_def empty_item_def)

text \<open>
  The hash of an ID is the polynomial in 33 over its characters, taken modulo 2 to the 64 with
  start value 5381, reduced to an index of the table.
\<close>

theorem djb2_is_polynomial:
  assumes "0 < n"
  shows "djb2Hash key n = ok (nat (djb2_poly 5381 key mod 2 ^ 64) mod n) \<and> nat (djb2_poly 5381 key mod 2 ^ 64) mod n < n"
proof -
  have "djb2_loop 5381 key = word_of_int (djb2_poly 5381 key)"
    using djb2_loop_poly [of 5381 key] by simp
  then have "unat (djb2_loop 5381 key) = nat (djb2_poly 5381 key mod 2 ^ 64)"
    by (simp add: unat_eq_nat_uint uint_word_of_int)
  with assms show ?thesis by (simp add: djb2Hash_def)
qed

theorem djb2_is_polynomial_witness: "djb2Hash ''ab'' 7 = ok (nat (djb2_poly 5381 ''ab'' mod 2 ^ 64) mod 7)"
  using djb2_is_polynomial [of 7 "''ab''"] by simp

end
