(* ===== verification/BitCoin.thy ===== *)
theory BitCoin
  imports HashTable CTime
begin

text \<open>
  BitCoins and their transaction trees (SysPro_Project1/src/bitCoin.c).  NULL is a constructor of
  the tree type.  A TransTree pointer into the tree of a coin is the list of turns from that node
  up to the root, so the parent pointer is the tail and "is the right child of its parent" is the
  head; the root is the empty list.
\<close>

section \<open>State\<close>

datatype ttree =
    NullT
  | TNode nat nat "trans_list option" ttree ttree
  \<comment> \<open>walletID, amount, transaction, left, right\<close>

datatype turn = L | R

record bitcoin =
  ID :: nat
  numOfTransactions :: nat
  root :: ttree

definition treeNodeInitialization :: "nat \<Rightarrow> nat \<Rightarrow> trans_list option \<Rightarrow> ttree" where
  "treeNodeInitialization wallet amnt trs = TNode wallet amnt trs NullT NullT"

text \<open>The int ID becomes a size_t; the links to the previous and next coin are the list of all coins.\<close>

definition bitCoinInitialization :: "int \<Rightarrow> nat \<Rightarrow> nat \<Rightarrow> bitcoin" where
  "bitCoinInitialization bid wallet value =
     \<lparr> ID = nat (bid mod int SIZE_MOD), numOfTransactions = 0, root = treeNodeInitialization wallet value None \<rparr>"

fun subtree :: "ttree \<Rightarrow> turn list \<Rightarrow> ttree" where
  "subtree t [] = t"
| "subtree (TNode w a x l r) (L # p) = subtree l p"
| "subtree (TNode w a x l r) (R # p) = subtree r p"
| "subtree NullT (d # p) = NullT"

fun replace :: "ttree \<Rightarrow> turn list \<Rightarrow> ttree \<Rightarrow> ttree" where
  "replace t [] u = u"
| "replace (TNode w a x l r) (L # p) u = TNode w a x (replace l p u) r"
| "replace (TNode w a x l r) (R # p) u = TNode w a x l (replace r p u)"
| "replace NullT (d # p) u = NullT"

section \<open>makeBCTransaction\<close>

text \<open>What the code does to a leaf of the sender: the new leaf and the new amountTransferred.\<close>

definition spend_leaf ::
    "nat \<Rightarrow> nat \<Rightarrow> trans_list \<Rightarrow> nat \<Rightarrow> nat \<Rightarrow> trans_list option \<Rightarrow> nat \<Rightarrow> ttree \<times> nat" where
  "spend_leaf amount receiver trs w a x transferred =
     (if size_sub amount transferred > a then
        (TNode w a x NullT (treeNodeInitialization receiver a (Some trs)), size_add transferred a)
      else
        (TNode w a x
           (if a > size_sub amount transferred
            then treeNodeInitialization w (size_add (size_sub a amount) transferred) (Some trs) else NullT)
           (treeNodeInitialization receiver (size_sub amount transferred) (Some trs)),
         size_add transferred (size_sub amount transferred)))"

text \<open>
  The inner loop that moves up while the node is a right child, stopping at the root.  The root
  itself has no parent.
\<close>

fun climb :: "turn list \<Rightarrow> fault + turn list" where
  "climb [] = crash NullDeref"
| "climb (L # p) = ok (L # p)"
| "climb (R # p) = (if p = [] then ok [] else climb p)"

partial_function (option) bct_loop ::
    "(nat \<Rightarrow> string) \<Rightarrow> nat \<Rightarrow> nat \<Rightarrow> nat \<Rightarrow> trans_list \<Rightarrow> ttree \<Rightarrow> turn list \<Rightarrow> nat \<Rightarrow> (fault + ttree \<times> nat) option"
  where
  "bct_loop wid amount sender receiver trs t node transferred =
     (if transferred < amount then
        (case subtree t (rev node) of
           NullT \<Rightarrow> Some (crash NullDeref)
         | TNode w a x l r \<Rightarrow>
             if l \<noteq> NullT then bct_loop wid amount sender receiver trs t (L # node) transferred
             else if r \<noteq> NullT then bct_loop wid amount sender receiver trs t (R # node) transferred
             else
               (case (if strcmp (wid w) (wid sender) = 0
                      then spend_leaf amount receiver trs w a x transferred
                      else (TNode w a x l r, transferred)) of
                  (leaf, transferred) \<Rightarrow>
                    (case climb node of
                       Inl e \<Rightarrow> Some (crash e)
                     | Inr up \<Rightarrow>
                         (case up of
                            [] \<Rightarrow> Some (ok (replace t (rev node) leaf, transferred))
                          | d # p \<Rightarrow> bct_loop wid amount sender receiver trs
                                        (replace t (rev node) leaf) (R # p) transferred))))
      else Some (ok (t, transferred)))"

definition makeBCTransaction ::
    "(nat \<Rightarrow> string) \<Rightarrow> bitcoin \<Rightarrow> nat \<Rightarrow> nat \<Rightarrow> nat \<Rightarrow> trans_list \<Rightarrow> (fault + bitcoin \<times> nat) option" where
  "makeBCTransaction wid BC amount sender receiver trs =
     (case root BC of
        NullT \<Rightarrow> Some (crash NullDeref)
      | TNode w a x l r \<Rightarrow>
          if r = NullT then
            (let r = treeNodeInitialization receiver amount (Some trs);
                 l = (if a > amount then treeNodeInitialization w (size_sub a amount) (Some trs) else l)
             in Some (ok (BC\<lparr>root := TNode w a x l r\<rparr>, size_add 0 amount)))
          else
            (case bct_loop wid amount sender receiver trs (root BC) (if l \<noteq> NullT then [L] else [R]) 0 of
               None \<Rightarrow> None
             | Some (Inl e) \<Rightarrow> Some (crash e)
             | Some (Inr (t, transferred)) \<Rightarrow>
                 Some (ok (BC\<lparr>root := t, numOfTransactions := size_add (numOfTransactions BC) 1\<rparr>, transferred))))"

section \<open>bitCoinStatus\<close>

fun status_loop :: "nat \<Rightarrow> bitcoin list \<Rightarrow> fault + string" where
  "status_loop BCID [] = ok (''BitCoin with ID '' @ dec BCID @ '' does not exist.'' @ nl)"
| "status_loop BCID (BC # rest) =
     (if BCID = ID BC then
        (case root BC of
           NullT \<Rightarrow> crash NullDeref
         | TNode w a x l r \<Rightarrow>
             ok (dec a @ '' '' @ dec (numOfTransactions BC) @ '' '' @
                 (case l of
                    TNode w' a' x' l' r' \<Rightarrow> if r' = NullT \<and> l' = NullT then dec a' else ''0''
                  | NullT \<Rightarrow> ''0'') @ nl))
      else status_loop BCID rest)"

text \<open>The do-while loop reads the first coin before it tests for the end of the list.\<close>

definition bitCoinStatus :: "nat \<Rightarrow> bitcoin list \<Rightarrow> fault + string" where
  "bitCoinStatus BCID allBitCoins = (if allBitCoins = [] then crash NullDeref else status_loop BCID allBitCoins)"

section \<open>traceCoin\<close>

text \<open>
  Printing the transaction of a node: nothing when its ID is among the printed ones, else the line,
  and the ID is stored in transArray, which has room for numOfTransactions pointers.
\<close>

definition trace_visit ::
    "(nat \<Rightarrow> string) \<Rightarrow> nat \<Rightarrow> ttree \<Rightarrow> turn list \<Rightarrow> string list \<Rightarrow> string \<Rightarrow> fault + (string list \<times> string)" where
  "trace_visit wid room t node printed out =
     (case subtree t (rev node) of
        TNode w a (Some item) l r \<Rightarrow>
          if transactionID (thisTrans item) \<in> set printed then ok (printed, out)
          else
            (case node of
               [] \<Rightarrow> crash NullDeref
             | d # p \<Rightarrow>
                 (case subtree t (rev p) of
                    NullT \<Rightarrow> crash NullDeref
                  | TNode pw pa px pl pr \<Rightarrow>
                      if length printed \<ge> room then crash BadIndex
                      else ok (printed @ [transactionID (thisTrans item)],
                        out @ transactionID (thisTrans item) @ '' '' @ wid pw @ '' '' @ wid w @ '' ''
                        @ dec (tvalue (thisTrans item)) @ '' ''
                        @ strftime_dmy_hm (gmtime (dateTime (thisTrans item))) @ nl)))
      | _ \<Rightarrow> crash NullDeref)"

fun climb_left :: "turn list \<Rightarrow> fault + turn list" where
  "climb_left [] = crash NullDeref"
| "climb_left (R # p) = ok (R # p)"
| "climb_left (L # p) = (if p = [] then ok [] else climb_left p)"

partial_function (option) trace_loop ::
    "(nat \<Rightarrow> string) \<Rightarrow> nat \<Rightarrow> ttree \<Rightarrow> turn list \<Rightarrow> string list \<Rightarrow> string \<Rightarrow> (fault + string) option" where
  "trace_loop wid room t node printed out =
     (case subtree t (rev node) of
        NullT \<Rightarrow> Some (ok out)
      | TNode w a x l r \<Rightarrow>
          if r \<noteq> NullT then
            (case trace_visit wid room t (R # node) printed out of
               Inl e \<Rightarrow> Some (crash e)
             | Inr (printed, out) \<Rightarrow> trace_loop wid room t (R # node) printed out)
          else if l \<noteq> NullT then trace_loop wid room t (L # node) printed out
          else
            (case trace_visit wid room t node printed out of
               Inl e \<Rightarrow> Some (crash e)
             | Inr (printed, out) \<Rightarrow>
                 (case climb_left node of
                    Inl e \<Rightarrow> Some (crash e)
                  | Inr up \<Rightarrow> (case up of [] \<Rightarrow> Some (ok out) | d # p \<Rightarrow> trace_loop wid room t (L # p) printed out))))"

fun trace_search :: "(nat \<Rightarrow> string) \<Rightarrow> nat \<Rightarrow> bitcoin list \<Rightarrow> (fault + string) option" where
  "trace_search wid BCID [] = Some (ok (''BitCoin with ID '' @ dec BCID @ '' does not exist.'' @ nl))"
| "trace_search wid BCID (BC # rest) =
     (if BCID = ID BC then
        (case root BC of
           NullT \<Rightarrow> Some (crash NullDeref)
         | TNode w a x l r \<Rightarrow>
             if r = NullT then
               Some (ok (''BitCoin '' @ dec (ID BC) @ '' has not been involved in any transactions.'' @ nl))
             else trace_loop wid (numOfTransactions BC) (root BC) [] [] '''')
      else trace_search wid BCID rest)"

definition traceCoin :: "(nat \<Rightarrow> string) \<Rightarrow> nat \<Rightarrow> bitcoin list \<Rightarrow> (fault + string) option" where
  "traceCoin wid BCID allBitCoins =
     (if allBitCoins = [] then Some (crash NullDeref) else trace_search wid BCID allBitCoins)"

section \<open>Trees\<close>

fun amt :: "ttree \<Rightarrow> nat" where
  "amt NullT = 0"
| "amt (TNode w a x l r) = a"

fun owner_is :: "ttree \<Rightarrow> nat \<Rightarrow> bool" where
  "owner_is NullT w = True"
| "owner_is (TNode w' a x l r) w = (w' = w)"

text \<open>
  A well-formed tree: an inner node has a right child, its amount is split between its children, and
  a left child is what remains to the wallet of its parent.
\<close>

fun tree_ok :: "ttree \<Rightarrow> bool" where
  "tree_ok NullT = True"
| "tree_ok (TNode w a x l r) =
     ((l = NullT \<and> r = NullT) \<or>
      (r \<noteq> NullT \<and> a = amt l + amt r \<and> owner_is l w \<and> tree_ok l \<and> tree_ok r))"

text \<open>What the wallet called w owns of the coin: the amounts of its leaves.\<close>

fun holding :: "(nat \<Rightarrow> string) \<Rightarrow> ttree \<Rightarrow> string \<Rightarrow> nat" where
  "holding wid NullT w = 0"
| "holding wid (TNode v a x l r) w =
     (if l = NullT \<and> r = NullT then (if wid v = w then a else 0)
      else holding wid l w + holding wid r w)"

fun leaves :: "ttree \<Rightarrow> (nat \<times> nat) list" where
  "leaves NullT = []"
| "leaves (TNode v a x l r) = (if l = NullT \<and> r = NullT then [(v, a)] else leaves l @ leaves r)"

lemma holding_leaves: "holding wid t w = (\<Sum>x \<leftarrow> filter (\<lambda>x. wid (fst x) = w) (leaves t). snd x)"
  by (induction t) auto

lemma amt_leaves: "tree_ok t \<Longrightarrow> (\<Sum>x \<leftarrow> leaves t. snd x) = amt t"
  by (induction t) auto

lemma holding_le_amt: "tree_ok t \<Longrightarrow> holding wid t w \<le> amt t"
  by (induction t) auto

text \<open>The traversal as a recursion over the tree: spend the sender's leaves from left to right.\<close>

fun spend :: "(nat \<Rightarrow> string) \<Rightarrow> nat \<Rightarrow> string \<Rightarrow> nat \<Rightarrow> trans_list \<Rightarrow> ttree \<Rightarrow> nat \<Rightarrow> ttree \<times> nat" where
  "spend wid amount s receiver trs NullT tr = (NullT, tr)"
| "spend wid amount s receiver trs (TNode w a x l r) tr =
     (if tr \<ge> amount then (TNode w a x l r, tr)
      else if l = NullT \<and> r = NullT then
        (if wid w = s then spend_leaf amount receiver trs w a x tr else (TNode w a x l r, tr))
      else
        (case spend wid amount s receiver trs l tr of (l', tr1) \<Rightarrow>
         case spend wid amount s receiver trs r tr1 of (r', tr2) \<Rightarrow> (TNode w a x l' r', tr2)))"

declare bct_loop.simps [code] trace_loop.simps [code]

section \<open>Paths\<close>

lemma subtree_append: "subtree t (p @ q) = subtree (subtree t p) q"
  by (induction t p rule: subtree.induct) (auto, (cases q, auto)+)

lemma replace_append:
  "subtree t p \<noteq> NullT \<Longrightarrow> replace t (p @ q) u = replace t p (replace (subtree t p) q u)"
  by (induction t p u rule: replace.induct) auto

lemma subtree_replace: "subtree t p \<noteq> NullT \<Longrightarrow> subtree (replace t p u) (p @ q) = subtree u q"
  by (induction t p u rule: replace.induct) auto

lemma subtree_replace_same [simp]: "subtree t p \<noteq> NullT \<Longrightarrow> subtree (replace t p u) p = u"
  using subtree_replace [of t p u "[]"] by simp

lemma replace_replace [simp]: "subtree t p \<noteq> NullT \<Longrightarrow> replace (replace t p u) p v = replace t p v"
  by (induction t p u rule: replace.induct) auto

lemma replace_subtree [simp]: "replace t p (subtree t p) = t"
  by (induction t p rule: subtree.induct) auto

section \<open>The pointer traversal computes spend\<close>

text \<open>What the loop does once a subtree is finished: climb, and go on with the right brother.\<close>

definition resume where
  "resume wid amount sender receiver trs t node transferred =
     (case climb node of
        Inl e \<Rightarrow> Some (crash e)
      | Inr [] \<Rightarrow> Some (ok (t, transferred))
      | Inr (d # p) \<Rightarrow> bct_loop wid amount sender receiver trs t (R # p) transferred)"

lemma climb_ok: "p \<noteq> [] \<Longrightarrow> \<exists>up. climb p = ok up"
  by (induction p rule: climb.induct) auto

lemma resume_done:
  "p \<noteq> [] \<Longrightarrow> amount \<le> transferred \<Longrightarrow>
   resume wid amount sender receiver trs t p transferred = Some (ok (t, transferred))"
  using climb_ok [of p] by (auto simp: resume_def bct_loop.simps split: list.splits)

lemma resume_right: "p \<noteq> [] \<Longrightarrow> resume wid amount sender receiver trs t (R # p) = resume wid amount sender receiver trs t p"
  by (simp add: resume_def fun_eq_iff)

lemma resume_left:
  "resume wid amount sender receiver trs t (L # p) tr = bct_loop wid amount sender receiver trs t (R # p) tr"
  by (simp add: resume_def)

lemma spend_done: "amount \<le> tr \<Longrightarrow> spend wid amount s receiver trs t tr = (t, tr)"
  by (cases t) auto

lemma spend_Null: "fst (spend wid amount s receiver trs t tr) = NullT \<longleftrightarrow> t = NullT"
  by (cases t) (auto simp: spend_leaf_def split: prod.splits)

lemma bct_loop_done: "\<not> tr < amount \<Longrightarrow> bct_loop wid amount sender receiver trs t node tr = Some (ok (t, tr))"
  by (simp add: bct_loop.simps)

lemma bct_loop_spend:
  assumes "subtree t (rev p) = s" "s \<noteq> NullT" "tree_ok s" "p \<noteq> []" "tr < amount"
    and "spend wid amount (wid sender) receiver trs s tr = (s', tr')"
  shows "bct_loop wid amount sender receiver trs t p tr
       = resume wid amount sender receiver trs (replace t (rev p) s') p tr'"
  using assms
proof (induction s arbitrary: t p tr s' tr')
  case NullT
  then show ?case by simp
next
  case (TNode w a x l r)
  note sub = TNode.prems(1) and tok = TNode.prems(3) and pne = TNode.prems(4) and lt = TNode.prems(5)
  note go = TNode.prems(6)
  have sl: "subtree t (rev p @ [L]) = l" and sr: "subtree t (rev p @ [R]) = r"
    using sub by (simp_all add: subtree_append)
  show ?case
  proof (cases "l = NullT \<and> r = NullT")
    case True
    with sub lt go show ?thesis
      by (subst bct_loop.simps) (auto simp: resume_def split: sum.splits list.splits prod.splits if_splits)
  next
    case False
    with tok have rne: "r \<noteq> NullT" and okl: "tree_ok l" and okr: "tree_ok r" by auto
    obtain l' tr1 where l': "spend wid amount (wid sender) receiver trs l tr = (l', tr1)" by fastforce
    obtain r' where r': "spend wid amount (wid sender) receiver trs r tr1 = (r', tr')" and s': "s' = TNode w a x l' r'"
      using go lt False l' by (auto split: prod.splits if_splits)
    show ?thesis
    proof (cases "l = NullT")
      case True
      with l' have "l' = NullT" "tr1 = tr" by auto
      have "bct_loop wid amount sender receiver trs t p tr = bct_loop wid amount sender receiver trs t (R # p) tr"
        using True rne sub lt by (subst bct_loop.simps) simp
      also have "\<dots> = resume wid amount sender receiver trs (replace t (rev (R # p)) r') (R # p) tr'"
        using sr rne okr lt r' \<open>tr1 = tr\<close> by (intro TNode.IH(2)) auto
      also have "replace t (rev (R # p)) r' = replace t (rev p) s'"
        using sub s' \<open>l' = NullT\<close> True by (simp add: replace_append)
      finally show ?thesis using pne by (simp add: resume_right)
    next
      case lne: False
      define t1 where "t1 = replace t (rev p) (TNode w a x l' r)"
      have "bct_loop wid amount sender receiver trs t p tr = bct_loop wid amount sender receiver trs t (L # p) tr"
        using lne sub lt by (subst bct_loop.simps) simp
      also have "\<dots> = resume wid amount sender receiver trs (replace t (rev (L # p)) l') (L # p) tr1"
        using sl lne okl lt l' by (intro TNode.IH(1)) auto
      also have "replace t (rev (L # p)) l' = t1"
        using sub by (simp add: replace_append t1_def)
      finally have step: "bct_loop wid amount sender receiver trs t p tr
          = bct_loop wid amount sender receiver trs t1 (R # p) tr1" by (simp add: resume_left)
      show ?thesis
      proof (cases "tr1 < amount")
        case False
        then have "r' = r" "tr' = tr1" using r' spend_done [of amount tr1] by auto
        with step False show ?thesis
          using pne s' by (simp add: bct_loop_done resume_done t1_def)
      next
        case True
        have "subtree t1 (rev p @ [R]) = r"
          unfolding t1_def using sub by (subst subtree_replace) auto
        then have "bct_loop wid amount sender receiver trs t1 (R # p) tr1
            = resume wid amount sender receiver trs (replace t1 (rev (R # p)) r') (R # p) tr'"
          using rne okr True r' by (intro TNode.IH(2)) auto
        also have "replace t1 (rev (R # p)) r' = replace t (rev p) s'"
          using sub s' by (simp add: replace_append t1_def)
        finally show ?thesis using step pne by (simp add: resume_right)
      qed
    qed
  qed
qed

section \<open>Value is moved, never created or lost\<close>

lemma size_add_sub:
  assumes "tr \<le> amount" "amount < SIZE_MOD" "a < SIZE_MOD" "amount - tr \<le> a"
  shows "size_add (size_sub a amount) tr = a - (amount - tr)"
proof (cases "amount \<le> a")
  case True
  with assms show ?thesis by (simp add: size_sub_exact size_add_exact)
next
  case False
  then have "size_sub a amount = a + SIZE_MOD - amount" using assms by (simp add: size_sub_def)
  moreover have "a + SIZE_MOD - amount + tr = (a - (amount - tr)) + SIZE_MOD" using assms False by simp
  ultimately have "size_add (size_sub a amount) tr = (a - (amount - tr)) mod SIZE_MOD"
    by (simp only: size_add_def mod_add_self2)
  then show ?thesis using assms by simp
qed

lemma spend_leaf_effect:
  assumes "spend_leaf amount receiver trs w a x tr = (t', tr')" "tr < amount" "amount < SIZE_MOD" "a < SIZE_MOD"
  shows "tr' = tr + min a (amount - tr) \<and> tree_ok t' \<and> amt t' = a \<and> owner_is t' w \<and>
    (\<forall>v. wid receiver \<noteq> wid w \<longrightarrow> holding wid t' v + (if v = wid w then tr' - tr else 0)
       = (if v = wid w then a else 0) + (if v = wid receiver then tr' - tr else 0))"
proof -
  have d: "size_sub amount tr = amount - tr" using assms by (simp add: size_sub_exact)
  show ?thesis
  proof (cases "amount - tr > a")
    case True
    then have "size_add tr a = tr + a" using assms by (intro size_add_exact) simp
    with True assms(1) d show ?thesis by (auto simp: spend_leaf_def treeNodeInitialization_def)
  next
    case False
    then have "size_add (size_sub a amount) tr = a - (amount - tr)" "size_add tr (amount - tr) = amount"
      using assms by (simp_all add: size_add_sub size_add_exact)
    with False assms(1,2) d show ?thesis by (auto simp: spend_leaf_def treeNodeInitialization_def)
  qed
qed

lemma spend_effect:
  assumes "spend wid amount s receiver trs t tr = (t', tr')" "tree_ok t" "amt t < SIZE_MOD" "amount < SIZE_MOD"
    and "tr \<le> amount" "wid receiver \<noteq> s"
  shows "tr' = tr + min (holding wid t s) (amount - tr) \<and> tree_ok t' \<and> amt t' = amt t
    \<and> (\<forall>w. owner_is t w \<longrightarrow> owner_is t' w)
    \<and> (\<forall>v. holding wid t' v + (if v = s then tr' - tr else 0)
         = holding wid t v + (if v = wid receiver then tr' - tr else 0))"
  using assms
proof (induction t arbitrary: tr t' tr')
  case NullT
  then show ?case by simp
next
  case (TNode w a x l r)
  note go = TNode.prems(1) and tok = TNode.prems(2) and bound = TNode.prems(3,4,5) and ne = TNode.prems(6)
  consider (full) "amount \<le> tr" | (leaf) "tr < amount" "l = NullT" "r = NullT"
    | (inner) "tr < amount" "\<not> (l = NullT \<and> r = NullT)" by fastforce
  then show ?case
  proof cases
    case full
    with go tok bound show ?thesis by auto
  next
    case leaf
    show ?thesis
    proof (cases "wid w = s")
      case True
      with leaf go have "spend_leaf amount receiver trs w a x tr = (t', tr')" by simp
      from spend_leaf_effect [OF this, of wid] leaf bound ne True show ?thesis by auto
    next
      case False
      with leaf go tok bound show ?thesis by auto
    qed
  next
    case inner
    from inner(2) tok have rne: "r \<noteq> NullT" and a: "a = amt l + amt r"
      and ol: "owner_is l w" and okl: "tree_ok l" and okr: "tree_ok r" by auto
    obtain l' tr1 where l': "spend wid amount s receiver trs l tr = (l', tr1)" by fastforce
    obtain r' where r': "spend wid amount s receiver trs r tr1 = (r', tr')" and t': "t' = TNode w a x l' r'"
      using go inner l' by (auto split: prod.splits if_splits)
    have el: "tr1 = tr + min (holding wid l s) (amount - tr) \<and> tree_ok l' \<and> amt l' = amt l
      \<and> (\<forall>w. owner_is l w \<longrightarrow> owner_is l' w)
      \<and> (\<forall>v. holding wid l' v + (if v = s then tr1 - tr else 0) = holding wid l v + (if v = wid receiver then tr1 - tr else 0))"
      using l' okl bound a ne by (intro TNode.IH(1)) auto
    have er: "tr' = tr1 + min (holding wid r s) (amount - tr1) \<and> tree_ok r' \<and> amt r' = amt r
      \<and> (\<forall>w. owner_is r w \<longrightarrow> owner_is r' w)
      \<and> (\<forall>v. holding wid r' v + (if v = s then tr' - tr1 else 0) = holding wid r v + (if v = wid receiver then tr' - tr1 else 0))"
      using r' okr bound a ne el by (intro TNode.IH(2)) auto
    have nn: "r' \<noteq> NullT" using spend_Null [of wid amount s receiver trs r tr1] r' rne by simp
    have "tr' = tr + min (holding wid l s + holding wid r s) (amount - tr)" using el er bound by auto
    moreover have "tree_ok t' \<and> amt t' = a" using t' nn el er a ol by auto
    moreover have "holding wid t' v + (if v = s then tr' - tr else 0)
        = holding wid l v + holding wid r v + (if v = wid receiver then tr' - tr else 0)" for v
    proof -
      have "holding wid l' v + (if v = s then tr1 - tr else 0) = holding wid l v + (if v = wid receiver then tr1 - tr else 0)"
        "holding wid r' v + (if v = s then tr' - tr1 else 0) = holding wid r v + (if v = wid receiver then tr' - tr1 else 0)"
        using el er by blast+
      moreover have "tr \<le> tr1" "tr1 \<le> tr'" using el er by auto
      ultimately show ?thesis using t' nn by (auto split: if_splits)
    qed
    ultimately show ?thesis using t' inner by auto
  qed
qed

section \<open>The contract of makeBCTransaction\<close>

definition coin_ok :: "bitcoin \<Rightarrow> bool" where
  "coin_ok BC \<longleftrightarrow> root BC \<noteq> NullT \<and> tree_ok (root BC) \<and> amt (root BC) < SIZE_MOD"

definition coin_moved :: "(nat \<Rightarrow> string) \<Rightarrow> string \<Rightarrow> string \<Rightarrow> nat \<Rightarrow> bitcoin \<Rightarrow> bitcoin \<Rightarrow> bool" where
  "coin_moved wid s r amount BC BC' \<longleftrightarrow> coin_ok BC' \<and> ID BC' = ID BC \<and> amt (root BC') = amt (root BC)
     \<and> (\<forall>v. holding wid (root BC') v + (if v = s then amount else 0)
          = holding wid (root BC) v + (if v = r then amount else 0))"

lemma bct_from_root:
  assumes "tree_ok t" "t = TNode w a x l r" "r \<noteq> NullT"
    and "spend wid amount (wid sender) receiver trs t 0 = (t', tr')"
  shows "bct_loop wid amount sender receiver trs t (if l \<noteq> NullT then [L] else [R]) 0 = Some (ok (t', tr'))"
proof (cases "0 < amount")
  case False
  with assms(4) show ?thesis by (simp add: bct_loop_done spend_done)
next
  case True
  obtain l' tr1 where l': "spend wid amount (wid sender) receiver trs l 0 = (l', tr1)" by fastforce
  obtain r' where r': "spend wid amount (wid sender) receiver trs r tr1 = (r', tr')" and t': "t' = TNode w a x l' r'"
    using assms(2,3,4) True l' by (auto split: prod.splits if_splits)
  have last: "bct_loop wid amount sender receiver trs (TNode w a x l' r) [R] tr1 = Some (ok (t', tr'))"
  proof (cases "tr1 < amount")
    case False
    with r' t' spend_done [of amount tr1] show ?thesis by (simp add: bct_loop_done)
  next
    case True
    have "bct_loop wid amount sender receiver trs (TNode w a x l' r) [R] tr1
        = resume wid amount sender receiver trs (replace (TNode w a x l' r) (rev [R]) r') [R] tr'"
      using assms(1,2,3) r' True by (intro bct_loop_spend) auto
    then show ?thesis using t' by (simp add: resume_def)
  qed
  show ?thesis
  proof (cases "l = NullT")
    case True
    with l' last assms(2) show ?thesis by simp
  next
    case lne: False
    have "bct_loop wid amount sender receiver trs t [L] 0
        = resume wid amount sender receiver trs (replace t (rev [L]) l') [L] tr1"
      using assms(1,2,3) l' True lne by (intro bct_loop_spend) auto
    then show ?thesis using last lne assms(2) by (simp add: resume_left)
  qed
qed

lemma makeBCTransaction_moves:
  assumes "coin_ok BC" "amount \<le> holding wid (root BC) (wid sender)" "wid receiver \<noteq> wid sender"
  shows "\<exists>BC'. makeBCTransaction wid BC amount sender receiver trs = Some (ok (BC', amount))
    \<and> coin_moved wid (wid sender) (wid receiver) amount BC BC'"
proof -
  obtain w a x l r where t: "root BC = TNode w a x l r"
    using assms(1) by (cases "root BC") (auto simp: coin_ok_def)
  have tok: "tree_ok (TNode w a x l r)" and bound: "a < SIZE_MOD"
    using assms(1) t by (auto simp: coin_ok_def)
  have le: "amount \<le> a" using assms(2) t holding_le_amt [OF tok, of wid "wid sender"] by simp
  show ?thesis
  proof (cases "r = NullT")
    case True
    with tok have "l = NullT" by simp
    with True t assms(2,3) le bound show ?thesis
      by (auto simp: makeBCTransaction_def treeNodeInitialization_def size_sub_exact size_add_exact
          coin_moved_def coin_ok_def Let_def split: if_splits)
  next
    case False
    obtain t' tr' where go: "spend wid amount (wid sender) receiver trs (root BC) 0 = (t', tr')" by fastforce
    have all: "tr' = 0 + min (holding wid (root BC) (wid sender)) (amount - 0) \<and> tree_ok t' \<and> amt t' = amt (root BC)
      \<and> (\<forall>w. owner_is (root BC) w \<longrightarrow> owner_is t' w)
      \<and> (\<forall>v. holding wid t' v + (if v = wid sender then tr' - 0 else 0)
         = holding wid (root BC) v + (if v = wid receiver then tr' - 0 else 0))"
      using assms(1,3) le bound t by (intro spend_effect [OF go]) (auto simp: coin_ok_def)
    then have tr': "tr' = amount" using assms(2) by simp
    have eff: "tree_ok t'" "amt t' = amt (root BC)"
      "\<forall>v. holding wid t' v + (if v = wid sender then amount else 0)
         = holding wid (root BC) v + (if v = wid receiver then amount else 0)"
      using all unfolding tr' diff_zero by blast+
    have "t' \<noteq> NullT" using spend_Null [of wid amount "wid sender" receiver trs "root BC" 0] go t by simp
    moreover have "makeBCTransaction wid BC amount sender receiver trs
      = Some (ok (BC\<lparr>root := t', numOfTransactions := size_add (numOfTransactions BC) 1\<rparr>, tr'))"
      using bct_from_root [OF _ refl False, of w a x l wid amount sender receiver trs t' tr'] tok go t False
      by (simp add: makeBCTransaction_def)
    ultimately show ?thesis
      using eff tr' bound t by (simp add: coin_moved_def coin_ok_def)
  qed
qed

interpretation coin: divisible_asset coin_ok ID "\<lambda>BC. holding wid (root BC)" "\<lambda>BC. amt (root BC)" wid
  "makeBCTransaction wid" for wid
proof
  show "holding wid (root BC) v \<le> amt (root BC)" if "coin_ok BC" for BC v
    using that by (intro holding_le_amt) (simp add: coin_ok_def)
next
  fix BC a s r t
  assume "coin_ok BC" "a \<le> holding wid (root BC) (wid s)" "wid r \<noteq> wid s"
  from makeBCTransaction_moves [OF this, of t]
  show "\<exists>c'. makeBCTransaction wid BC a s r t = Some (ok (c', a)) \<and> coin_ok c' \<and> ID c' = ID BC
      \<and> amt (root c') = amt (root BC) \<and> (\<forall>v. holding wid (root c') v + (if v = wid s then a else 0)
          = holding wid (root BC) v + (if v = wid r then a else 0))"
    by (auto simp: coin_moved_def)
qed

section \<open>Properties\<close>

definition small_coin :: bitcoin where
  "small_coin = bitCoinInitialization 7 0 50"

definition letter :: "nat \<Rightarrow> string" where
  "letter p = (if p = 0 then ''A'' else if p = 1 then ''B'' else ''C'')"

definition some_trans :: trans_list where
  "some_trans = \<lparr> thisTrans = \<lparr> transactionID = ''1'', tvalue = 20, dateTime = 0 \<rparr>, sourceDestWallet = 1 \<rparr>"

text \<open>The coin after A paid 20 to B\<close>

definition split_coin :: bitcoin where
  "split_coin = \<lparr> ID = 7, numOfTransactions = 1,
     root = TNode 0 50 None (TNode 0 30 (Some some_trans) NullT NullT) (TNode 1 20 (Some some_trans) NullT NullT) \<rparr>"

text \<open>
  C2: Moving an amount of a coin between two wallets returns exactly that amount, takes it from the
  sender's leaves, adds it to the receiver's, and leaves every other holding and the coin's worth
  alone.
\<close>

theorem makeBCTransaction_contract:
  assumes "coin_ok BC" "amount \<le> holding wid (root BC) (wid sender)" "wid receiver \<noteq> wid sender"
  shows "\<exists>BC'. makeBCTransaction wid BC amount sender receiver trs = Some (ok (BC', amount))
    \<and> coin_ok BC' \<and> ID BC' = ID BC \<and> amt (root BC') = amt (root BC)
    \<and> (\<forall>v. holding wid (root BC') v + (if v = wid sender then amount else 0)
         = holding wid (root BC) v + (if v = wid receiver then amount else 0))"
  using makeBCTransaction_moves [OF assms, of trs] unfolding coin_moved_def by blast

theorem makeBCTransaction_contract_witness:
  "\<exists>BC'. makeBCTransaction letter split_coin 25 0 1 some_trans = Some (ok (BC', 25)) \<and> coin_ok BC'
    \<and> ID BC' = 7 \<and> amt (root BC') = 50
    \<and> (\<forall>v. holding letter (root BC') v + (if v = ''A'' then 25 else 0)
         = holding letter (root split_coin) v + (if v = ''B'' then 25 else 0))"
  using makeBCTransaction_contract [of split_coin 25 letter 0 1 some_trans]
  by (simp add: split_coin_def coin_ok_def letter_def SIZE_MOD_def)

text \<open>
  C16: The pointer traversal of a coin's tree (down to the left, up over right links, across) ends
  and has the effect of the plain recursion that spends the sender's leaves from left to right.
\<close>

theorem traversal_is_recursion:
  assumes "tree_ok (TNode w a x l r)" "r \<noteq> NullT"
  shows "bct_loop wid amount sender receiver trs (TNode w a x l r) (if l \<noteq> NullT then [L] else [R]) 0
    = Some (ok (spend wid amount (wid sender) receiver trs (TNode w a x l r) 0))"
  using bct_from_root [OF assms(1) refl assms(2), of wid amount sender receiver trs]
  by (metis surj_pair)

theorem traversal_is_recursion_witness:
  "bct_loop letter 25 0 2 some_trans (root split_coin) [L] 0
    = Some (ok (spend letter 25 ''A'' 2 some_trans (root split_coin) 0))"
  using traversal_is_recursion [of 0 50 None "TNode 0 30 (Some some_trans) NullT NullT"
      "TNode 1 20 (Some some_trans) NullT NullT" letter 25 0 2 some_trans]
  by (simp add: split_coin_def letter_def)

text \<open>
  After the first transaction of a coin, tracing it faults: makeBCTransaction does not count
  that transaction, so transArray has room for no pointer at all.
\<close>

theorem trace_after_first_transaction:
  assumes "root BC = treeNodeInitialization s a None" "numOfTransactions BC = 0"
    and "makeBCTransaction wid BC amount s r trs = Some (ok (BC', got))"
  shows "traceCoin wid (ID BC) (BC' # others) = Some (crash BadIndex)"
proof -
  have "BC' = BC\<lparr>root := TNode s a None
      (if a > amount then treeNodeInitialization s (size_sub a amount) (Some trs) else NullT)
      (treeNodeInitialization r amount (Some trs))\<rparr>"
    using assms(1,3) by (auto simp: makeBCTransaction_def treeNodeInitialization_def Let_def)
  then show ?thesis
    using assms(2) by (simp add: traceCoin_def trace_loop.simps trace_visit_def treeNodeInitialization_def)
qed

theorem trace_after_first_transaction_witness:
  "traceCoin letter 7 [split_coin\<lparr>numOfTransactions := 0\<rparr>] = Some (crash BadIndex)"
proof -
  have "makeBCTransaction letter small_coin 20 0 1 some_trans = Some (ok (split_coin\<lparr>numOfTransactions := 0\<rparr>, 20))"
    by (simp add: makeBCTransaction_def small_coin_def bitCoinInitialization_def treeNodeInitialization_def
        split_coin_def size_sub_exact size_add_exact SIZE_MOD_def)
  from trace_after_first_transaction [of small_coin 0 50, OF _ _ this] show ?thesis
    by (simp add: small_coin_def bitCoinInitialization_def SIZE_MOD_def)
qed

text \<open>
  BitCoinStatus reports the worth of the coin, its number of transactions and, for the unspent
  part, what the first owner has left; for a coin no transaction has used it reports 0 unspent.
\<close>

theorem status_of_unused_coin:
  "bitCoinStatus (ID (bitCoinInitialization n p v)) (bitCoinInitialization n p v # others)
    = ok (dec v @ '' 0 0'' @ nl)"
  by (simp add: bitCoinStatus_def bitCoinInitialization_def treeNodeInitialization_def dec_0)

section \<open>traceCoin returns\<close>

text \<open>
  The walk takes the right subtree of a node before the left one.  What it has still to see: the
  subtree of the node it is at, and the left subtrees beside every right turn on the way to it.
\<close>

fun pend :: "ttree \<Rightarrow> turn list \<Rightarrow> nat" where
  "pend t [] = 0"
| "pend t (L # p) = pend t p"
| "pend t (R # p) = size (subtree t (rev (L # p))) + pend t p"

lemma climb_left_pend:
  "climb_left node = ok up \<Longrightarrow> pend t up = pend t node \<and> (up = [] \<or> (\<exists>p. up = R # p))"
  by (induction node rule: climb_left.induct) (auto split: if_splits)

lemma trace_loop_returns:
  "\<exists>res. trace_loop wid room t node printed out = Some res"
proof (induction "size (subtree t (rev node)) + pend t node" arbitrary: node printed out rule: less_induct)
  case less
  show ?case
  proof (cases "subtree t (rev node)")
    case NullT
    then show ?thesis by (subst trace_loop.simps) simp
  next
    case (TNode w a x l r)
    have sub: "subtree t (rev (R # node)) = r" "subtree t (rev (L # node)) = l"
      using TNode by (simp_all add: subtree_append)
    show ?thesis
    proof (cases "r = NullT \<and> l = NullT")
      case True
      show ?thesis
      proof (cases "\<exists>printed' out' p. trace_visit wid room t node printed out = ok (printed', out') \<and> climb_left node = ok (R # p)")
        case True
        then obtain printed' out' p where p: "trace_visit wid room t node printed out = ok (printed', out')" "climb_left node = ok (R # p)"
          by blast
        have "size (subtree t (rev (L # p))) + pend t (L # p) < size (subtree t (rev node)) + pend t node"
          using climb_left_pend [OF p(2), of t] TNode by simp
        then obtain res where "trace_loop wid room t (L # p) printed' out' = Some res" using less by blast
        with TNode \<open>r = NullT \<and> l = NullT\<close> p show ?thesis by (subst trace_loop.simps) simp
      next
        case False
        with TNode \<open>r = NullT \<and> l = NullT\<close> climb_left_pend [of node _ t] show ?thesis
          by (subst trace_loop.simps) (fastforce split: sum.split list.split)
      qed
    next
      case False
      have "\<exists>res. trace_loop wid room t (R # node) printed' out' = Some res" for printed' out'
        using less [of "R # node"] TNode sub by simp
      moreover have "r = NullT \<Longrightarrow> \<exists>res. trace_loop wid room t (L # node) printed out = Some res"
        using less [of "L # node"] TNode sub by simp
      ultimately show ?thesis using TNode False by (subst trace_loop.simps) (auto split: sum.split)
    qed
  qed
qed

lemma trace_search_returns: "\<exists>res. trace_search wid BCID cs = Some res"
  by (induction cs) (auto simp: trace_loop_returns split: ttree.split)

lemma traceCoin_returns: "\<exists>res. traceCoin wid BCID cs = Some res"
  by (simp add: traceCoin_def trace_search_returns)

end
