(* ===== verification/MergeSort.thy ===== *)
theory MergeSort
  imports Prelude
begin

text \<open>
  The merge sort of the wallet pointers (SysPro_Project1/src/mergesort.c) and the binary search
  that relies on it (findWallet in wallet.c).  A Wallet pointer is a value of any type; wid reads
  the walletID field behind it.  Every array access checks its index, so the theorems below also
  say that no access leaves the arrays.
\<close>

section \<open>merge\<close>

text \<open>
  The first loop of merge: i runs over the left half, j over the right half, k over the slots of
  scndWallets.  The indices are array indices, so their additions cannot reach 2 to the 64.
\<close>

function merge_loop :: "('p \<Rightarrow> string) \<Rightarrow> 'p list \<Rightarrow> nat \<Rightarrow> nat \<Rightarrow> nat \<Rightarrow> nat \<Rightarrow> nat \<Rightarrow> 'p list \<Rightarrow> fault + 'p list"
  where
  "merge_loop wid wallets middle e i j k scnd =
     (if k \<le> e then
        if k \<ge> length scnd then crash BadIndex
        else if i > middle then
          (if j \<ge> length wallets then crash BadIndex
           else merge_loop wid wallets middle e i (j + 1) (k + 1) (scnd[k := wallets ! j]))
        else if j > e then
          (if i \<ge> length wallets then crash BadIndex
           else merge_loop wid wallets middle e (i + 1) j (k + 1) (scnd[k := wallets ! i]))
        else if i \<ge> length wallets \<or> j \<ge> length wallets then crash BadIndex
        else if strcmp (wid (wallets ! i)) (wid (wallets ! j)) < 0 then
          merge_loop wid wallets middle e (i + 1) j (k + 1) (scnd[k := wallets ! i])
        else if strcmp (wid (wallets ! i)) (wid (wallets ! j)) \<ge> 0 then
          merge_loop wid wallets middle e i (j + 1) (k + 1) (scnd[k := wallets ! j])
        else merge_loop wid wallets middle e i j (k + 1) scnd
      else ok scnd)"
  by pat_completeness auto
termination
  by (relation "measure (\<lambda>(wid, wallets, middle, e, i, j, k, scnd). Suc e - k)") auto

declare merge_loop.simps [simp del]

text \<open>The second loop copies scndWallets back.\<close>

function copy_loop :: "'p list \<Rightarrow> nat \<Rightarrow> nat \<Rightarrow> 'p list \<Rightarrow> fault + 'p list" where
  "copy_loop scnd e k wallets =
     (if k \<le> e then
        if k \<ge> length scnd \<or> k \<ge> length wallets then crash BadIndex
        else copy_loop scnd e (k + 1) (wallets[k := scnd ! k])
      else ok wallets)"
  by pat_completeness auto
termination
  by (relation "measure (\<lambda>(scnd, e, k, wallets). Suc e - k)") auto

declare copy_loop.simps [simp del]

definition merge :: "('p \<Rightarrow> string) \<Rightarrow> 'p list \<Rightarrow> nat \<Rightarrow> nat \<Rightarrow> nat \<Rightarrow> 'p list \<Rightarrow> fault + ('p list \<times> 'p list)" where
  "merge wid wallets start middle e scnd =
     and_then (merge_loop wid wallets middle e start (middle + 1) start scnd) (\<lambda>scnd.
     and_then (copy_loop scnd e start wallets) (\<lambda>wallets. ok (wallets, scnd)))"

section \<open>mergeSort\<close>

function mergeSort :: "('p \<Rightarrow> string) \<Rightarrow> 'p list \<Rightarrow> nat \<Rightarrow> nat \<Rightarrow> 'p list \<Rightarrow> fault + ('p list \<times> 'p list)" where
  "mergeSort wid wallets start e scnd =
     (if start \<ge> e then ok (wallets, scnd)
      else
        let middle = (start + e) div 2 in
        and_then (mergeSort wid wallets start middle scnd) (\<lambda>(wallets, scnd).
        and_then (mergeSort wid wallets (middle + 1) e scnd) (\<lambda>(wallets, scnd).
        merge wid wallets start middle e scnd)))"
  by pat_completeness auto
termination
  by (relation "measure (\<lambda>(wid, wallets, start, e, scnd). e - start)") auto

declare mergeSort.simps [simp del]

section \<open>The reference merge\<close>

text \<open>Merging two lists; equal keys take the element of the right list first, as the code does.\<close>

fun merge_spec :: "('p \<Rightarrow> string) \<Rightarrow> 'p list \<Rightarrow> 'p list \<Rightarrow> 'p list" where
  "merge_spec wid [] ys = ys"
| "merge_spec wid xs [] = xs"
| "merge_spec wid (x # xs) (y # ys) =
     (if wid x < wid y then x # merge_spec wid xs (y # ys) else y # merge_spec wid (x # xs) ys)"

definition sorted_by :: "('p \<Rightarrow> string) \<Rightarrow> 'p list \<Rightarrow> bool" where
  "sorted_by wid xs \<longleftrightarrow> sorted (map wid xs)"

lemma merge_spec_Nil2 [simp]: "merge_spec wid xs [] = xs"
  by (cases xs) auto

lemma mset_merge_spec: "mset (merge_spec wid xs ys) = mset xs + mset ys"
  by (induction wid xs ys rule: merge_spec.induct) auto

lemma set_merge_spec: "set (merge_spec wid xs ys) = set xs \<union> set ys"
  by (induction wid xs ys rule: merge_spec.induct) auto

lemma length_merge_spec: "length (merge_spec wid xs ys) = length xs + length ys"
  by (induction wid xs ys rule: merge_spec.induct) auto

lemma sorted_merge_spec:
  "sorted_by wid xs \<Longrightarrow> sorted_by wid ys \<Longrightarrow> sorted_by wid (merge_spec wid xs ys)"
  unfolding sorted_by_def
  by (induction wid xs ys rule: merge_spec.induct) (force simp: set_merge_spec)+

section \<open>The loops compute the reference merge\<close>

lemma merge_loop_correct:
  assumes "e < length wallets" "length scnd = length wallets"
    and "i \<le> middle + 1" "middle \<le> e" "j \<le> e + 1" "(middle + 1 - i) + (e + 1 - j) = e + 1 - k" "k \<le> e + 1"
  shows "merge_loop wid wallets middle e i j k scnd =
    ok (take k scnd @ merge_spec wid (segment i (middle + 1) wallets) (segment j (e + 1) wallets)
        @ drop (e + 1) scnd)"
  using assms
proof (induction wid wallets middle e i j k scnd rule: merge_loop.induct)
  case (1 wid wallets middle e i j k scnd)
  note prems = "1.prems"
  have left: "segment i (middle + 1) wallets = wallets ! i # segment (Suc i) (middle + 1) wallets" if "i \<le> middle"
    using that prems by (intro segment_Cons) auto
  have right: "segment j (e + 1) wallets = wallets ! j # segment (Suc j) (e + 1) wallets" if "j \<le> e"
    using that prems by (intro segment_Cons) auto
  show ?case
  proof (cases "k \<le> e")
    case False
    with prems have "k = e + 1" "i = middle + 1" "j = e + 1" by auto
    then show ?thesis by (simp add: merge_loop.simps)
  next
    case True
    then have kl: "k < length scnd" using prems by simp
    consider (r) "i > middle" | (l) "i \<le> middle" "j > e"
      | (lt) "i \<le> middle" "j \<le> e" "wid (wallets ! i) < wid (wallets ! j)"
      | (ge) "i \<le> middle" "j \<le> e" "\<not> wid (wallets ! i) < wid (wallets ! j)" by linarith
    then show ?thesis
    proof cases
      case r
      then have "j \<le> e" using True prems by simp
      with r True prems kl show ?thesis
        using "1.IH"(1) right by (subst merge_loop.simps) (simp add: take_Suc_update)
    next
      case l
      with True prems kl show ?thesis
        using "1.IH"(2) left by (subst merge_loop.simps) (simp add: take_Suc_update)
    next
      case lt
      with True prems kl show ?thesis
        using "1.IH"(3) left right by (subst merge_loop.simps) (simp add: take_Suc_update)
    next
      case ge
      with True prems kl have "strcmp (wid (wallets ! i)) (wid (wallets ! j)) \<ge> 0"
        using strcmp_less [of "wid (wallets ! i)" "wid (wallets ! j)"] by linarith
      with ge True prems kl show ?thesis
        using "1.IH"(4) left right by (subst merge_loop.simps) (simp add: take_Suc_update)
    qed
  qed
qed

lemma copy_loop_correct:
  assumes "e < length wallets" "length scnd = length wallets" "k \<le> e + 1"
  shows "copy_loop scnd e k wallets = ok (take k wallets @ segment k (e + 1) scnd @ drop (e + 1) wallets)"
  using assms
proof (induction scnd e k wallets rule: copy_loop.induct)
  case (1 scnd e k wallets)
  show ?case
  proof (cases "k \<le> e")
    case True
    with "1.prems" have "segment k (e + 1) scnd = scnd ! k # segment (Suc k) (e + 1) scnd"
      by (intro segment_Cons) auto
    with True 1 show ?thesis by (subst copy_loop.simps) (simp add: take_Suc_update)
  next
    case False
    with "1.prems" have "k = e + 1" by simp
    then show ?thesis by (simp add: copy_loop.simps)
  qed
qed

lemma merge_correct:
  assumes "e < length wallets" "length scnd = length wallets" "start \<le> middle" "middle < e"
  shows "\<exists>scnd'. length scnd' = length wallets \<and> merge wid wallets start middle e scnd =
    ok (take start wallets @ merge_spec wid (segment start (middle + 1) wallets) (segment (middle + 1) (e + 1) wallets)
        @ drop (e + 1) wallets, scnd')"
proof -
  let ?m = "merge_spec wid (segment start (middle + 1) wallets) (segment (middle + 1) (e + 1) wallets)"
  let ?scnd = "take start scnd @ ?m @ drop (e + 1) scnd"
  have lm: "length ?m = e + 1 - start"
    using assms by (simp add: length_merge_spec length_segment)
  have len: "length ?scnd = length wallets"
    using assms lm by simp
  have "merge_loop wid wallets middle e start (middle + 1) start scnd = ok ?scnd"
    using assms by (intro merge_loop_correct) auto
  moreover have "segment start (e + 1) ?scnd = ?m"
    using assms lm by (simp add: segment_def)
  moreover have "copy_loop ?scnd e start wallets =
      ok (take start wallets @ segment start (e + 1) ?scnd @ drop (e + 1) wallets)"
    using assms len by (intro copy_loop_correct) auto
  ultimately show ?thesis
    using len by (intro exI [of _ ?scnd]) (simp add: merge_def)
qed

section \<open>mergeSort sorts its range and leaves the rest alone\<close>

definition sorts_range :: "('p \<Rightarrow> string) \<Rightarrow> nat \<Rightarrow> nat \<Rightarrow> 'p list \<Rightarrow> 'p list \<Rightarrow> bool" where
  "sorts_range wid a b xs ys \<longleftrightarrow> length ys = length xs \<and> take a ys = take a xs \<and> drop b ys = drop b xs
     \<and> sorted_by wid (segment a b ys) \<and> mset (segment a b ys) = mset (segment a b xs)"

lemma segment_outside:
  "take a ys = take a xs \<Longrightarrow> b \<le> a \<Longrightarrow> segment c b ys = segment c b xs"
  "drop a ys = drop a xs \<Longrightarrow> a \<le> c \<Longrightarrow> segment c b ys = segment c b xs"
proof -
  assume "take a ys = take a xs" "b \<le> a"
  then have "take b (take a ys) = take b (take a xs)" by simp
  then have "take b ys = take b xs" using \<open>b \<le> a\<close> by (simp add: min.absorb1)
  then show "segment c b ys = segment c b xs" by (simp add: segment_def flip: drop_take)
next
  assume "drop a ys = drop a xs" "a \<le> c"
  then have "drop (c - a) (drop a ys) = drop (c - a) (drop a xs)" by simp
  then have "drop c ys = drop c xs" using \<open>a \<le> c\<close> by simp
  then show "segment c b ys = segment c b xs" by (simp add: segment_def)
qed

lemma sorts_range_merge:
  assumes l: "sorts_range wid a m xs ys" and r: "sorts_range wid m b ys zs"
    and b: "a \<le> m" "m \<le> b" "b \<le> length xs"
  shows "sorts_range wid a b xs (take a zs @ merge_spec wid (segment a m zs) (segment m b zs) @ drop b zs)"
proof -
  let ?m = "merge_spec wid (segment a m zs) (segment m b zs)"
  have len: "length ys = length xs" "length zs = length xs"
    using l r by (auto simp: sorts_range_def)
  have left: "segment a m zs = segment a m ys"
    using r by (intro segment_outside(1) [of m]) (auto simp: sorts_range_def)
  have right: "segment m b ys = segment m b xs"
    using l by (intro segment_outside(2) [of m]) (auto simp: sorts_range_def)
  have lm: "length ?m = b - a"
    using b len by (simp add: length_merge_spec length_segment)
  have "mset ?m = mset (segment a m xs) + mset (segment m b xs)"
    using l r left right by (simp add: mset_merge_spec sorts_range_def)
  also have "\<dots> = mset (segment a b xs)"
    using b by (simp flip: mset_append add: segment_append)
  finally have ms: "mset ?m = mset (segment a b xs)" .
  have so: "sorted_by wid ?m"
    using l r left by (intro sorted_merge_spec) (auto simp: sorts_range_def)
  have t: "take a zs = take a xs"
  proof -
    have "take a (take m zs) = take a (take m ys)" using r by (simp add: sorts_range_def)
    with l b show ?thesis by (simp add: sorts_range_def min.absorb1)
  qed
  have d: "drop b zs = drop b xs"
  proof -
    have "drop (b - m) (drop m ys) = drop (b - m) (drop m xs)" using l by (simp add: sorts_range_def)
    with r b show ?thesis by (simp add: sorts_range_def)
  qed
  have "segment a b (take a zs @ ?m @ drop b zs) = ?m"
    using b len lm by (simp add: segment_def)
  then show ?thesis
    using ms so t d b len lm by (simp add: sorts_range_def)
qed

lemma mergeSort_sorts:
  assumes "start \<le> e" "e < length wallets" "length scnd = length wallets"
  shows "\<exists>ws' scnd'. mergeSort wid wallets start e scnd = ok (ws', scnd') \<and> length scnd' = length wallets
    \<and> sorts_range wid start (e + 1) wallets ws'"
  using assms
proof (induction "e - start" arbitrary: wallets start e scnd rule: less_induct)
  case less
  show ?case
  proof (cases "start \<ge> e")
    case True
    with less.prems have "segment start (e + 1) wallets = [wallets ! start]"
      by (simp add: segment_Cons)
    with True show ?thesis
      using less.prems by (simp add: mergeSort.simps sorts_range_def sorted_by_def)
  next
    case False
    define middle where "middle = (start + e) div 2"
    have mid: "start \<le> middle" "middle < e" "middle - start < e - start" "e - (middle + 1) < e - start"
      using False by (auto simp: middle_def)
    obtain ws1 scnd1 where one: "mergeSort wid wallets start middle scnd = ok (ws1, scnd1)"
        "length scnd1 = length wallets" "sorts_range wid start (middle + 1) wallets ws1"
      using less.hyps [of middle start wallets scnd] less.prems mid by (auto simp: Suc_le_eq)
    have lws1: "length ws1 = length wallets" using one(3) by (simp add: sorts_range_def)
    obtain ws2 scnd2 where two: "mergeSort wid ws1 (middle + 1) e scnd1 = ok (ws2, scnd2)"
        "length scnd2 = length wallets" "sorts_range wid (middle + 1) (e + 1) ws1 ws2"
      using less.hyps [of e "middle + 1" ws1 scnd1] less.prems mid one(2) lws1 by auto
    have lws2: "length ws2 = length wallets" using two(3) lws1 by (simp add: sorts_range_def)
    obtain scnd3 where three: "length scnd3 = length wallets" "merge wid ws2 start middle e scnd2 =
       ok (take start ws2 @ merge_spec wid (segment start (middle + 1) ws2) (segment (middle + 1) (e + 1) ws2)
        @ drop (e + 1) ws2, scnd3)"
      using merge_correct [of e ws2 scnd2 start middle wid] less.prems mid two(2) lws2 by auto
    have "sorts_range wid start (e + 1) wallets
       (take start ws2 @ merge_spec wid (segment start (middle + 1) ws2) (segment (middle + 1) (e + 1) ws2)
        @ drop (e + 1) ws2)"
      using sorts_range_merge [OF one(3) two(3)] mid less.prems by simp
    with one(1) two(1) three False show ?thesis
      by (subst mergeSort.simps) (simp add: Let_def flip: middle_def)
  qed
qed

section \<open>Properties\<close>

text \<open>
  C24: On a valid range mergeSort never leaves its arrays, sorts the range by wallet ID, keeps its
  elements, and does not touch the array outside the range.
\<close>

theorem mergeSort_correct:
  assumes "start \<le> e" "e < length wallets" "length scnd = length wallets"
  shows "\<exists>ws' scnd'. mergeSort wid wallets start e scnd = ok (ws', scnd')
    \<and> take start ws' = take start wallets \<and> drop (e + 1) ws' = drop (e + 1) wallets
    \<and> sorted (map wid (segment start (e + 1) ws'))
    \<and> mset (segment start (e + 1) ws') = mset (segment start (e + 1) wallets)"
  using mergeSort_sorts [OF assms, of wid] by (auto simp: sorts_range_def sorted_by_def)

theorem mergeSort_correct_witness:
  "\<exists>ws' scnd'. mergeSort (\<lambda>p. [[], ''c'', ''b'', ''a''] ! p) [1, 2, 3] 0 2 [0, 0, 0] = ok (ws', scnd')
    \<and> take 0 ws' = take 0 [1, 2, 3] \<and> drop (2 + 1) ws' = drop (2 + 1) [1, 2, 3]
    \<and> sorted (map (\<lambda>p. [[], ''c'', ''b'', ''a''] ! p) (segment 0 (2 + 1) ws'))
    \<and> mset (segment 0 (2 + 1) ws') = mset (segment 0 (2 + 1) [1, 2, 3 :: nat])"
  by (rule mergeSort_correct) simp_all

end
