(* ===== verification/WalletSearch.thy ===== *)
theory WalletSearch
  imports MergeSort
begin

text \<open>
  The sorted array of wallet pointers and the binary search over it: sortWallets and findWallet of
  SysPro_Project1/src/wallet.c.  The bounds of the search are signed 32 bit ints; an addition that
  leaves their range is the fault SignedOverflow.
\<close>

section \<open>sortWallets\<close>

text \<open>
  The wallets sit in the array unordered, so their pointers are its indices.  The argument scnd is
  the content of the scratch array as malloc returns it.
\<close>

definition sortWallets :: "(nat \<Rightarrow> string) \<Rightarrow> nat \<Rightarrow> nat list \<Rightarrow> fault + nat list" where
  "sortWallets wid numOfWallets scnd =
     (let ordered = [0..<numOfWallets] in
      and_then (mergeSort wid ordered 0 (size_sub numOfWallets 1) scnd) (\<lambda>(ordered, scnd). ok ordered))"

section \<open>findWallet\<close>

function findWallet_loop :: "('p \<Rightarrow> string) \<Rightarrow> 'p list \<Rightarrow> string \<Rightarrow> int \<Rightarrow> int \<Rightarrow> fault + 'p option" where
  "findWallet_loop wid wallets key leftBound rightBound =
     (if leftBound \<le> rightBound then
        if to_int32 (leftBound + rightBound) \<noteq> leftBound + rightBound then crash SignedOverflow
        else
          let middle = c_div (leftBound + rightBound) 2 in
          if middle < 0 \<or> middle \<ge> int (length wallets) then crash BadIndex
          else
            let cmp = strcmp (wid (wallets ! nat middle)) key in
            if cmp = 0 then ok (Some (wallets ! nat middle))
            else if cmp < 0 then findWallet_loop wid wallets key (middle + 1) rightBound
            else findWallet_loop wid wallets key leftBound (middle - 1)
      else ok None)"
  by pat_completeness auto
termination
proof (relation "measure (\<lambda>(wid, wallets, key, l, r). nat (r - l + 1))", goal_cases)
  case 1
  then show ?case by simp
next
  case (2 wid wallets key l r)
  then show ?case using c_div_2_between [of l r] by simp
next
  case (3 wid wallets key l r)
  then show ?case using c_div_2_between [of l r] by simp
qed

declare findWallet_loop.simps [simp del]

definition findWallet :: "('p \<Rightarrow> string) \<Rightarrow> nat \<Rightarrow> 'p list \<Rightarrow> string \<Rightarrow> fault + 'p option" where
  "findWallet wid numOfWallets wallets key =
     findWallet_loop wid wallets key 0 (to_int32 (int (size_sub numOfWallets 1)))"

section \<open>The array is sorted, a permutation of the wallets\<close>

lemma sortWallets_sorts:
  assumes "0 < n" "n < SIZE_MOD" "length scnd = n"
  shows "\<exists>ordered. sortWallets wid n scnd = ok ordered \<and> sorted_by wid ordered \<and> mset ordered = mset [0..<n]"
proof -
  have e: "size_sub n 1 = n - 1" using assms by (intro size_sub_exact) auto
  obtain ws' scnd' where sort: "mergeSort wid [0..<n] 0 (n - 1) scnd = ok (ws', scnd')"
      "sorts_range wid 0 (n - 1 + 1) [0..<n] ws'"
    using mergeSort_sorts [of 0 "n - 1" "[0..<n]" scnd wid] assms by auto
  have "segment 0 n ws' = ws'" "segment 0 n [0..<n] = [0..<n]"
    using sort(2) assms by (auto simp: sorts_range_def segment_def)
  with sort assms e show ?thesis by (simp add: sortWallets_def sorts_range_def)
qed

section \<open>The search finds exactly the wallets that are there\<close>

lemma sorted_by_nth:
  "sorted_by wid ws \<Longrightarrow> i \<le> j \<Longrightarrow> j < length ws \<Longrightarrow> wid (ws ! i) \<le> wid (ws ! j)"
  using sorted_nth_mono [of "map wid ws" i j] by (simp add: sorted_by_def)

lemma findWallet_loop_correct:
  assumes "sorted_by wid ws" "length ws \<le> 2 ^ 30"
    and "0 \<le> l" "r < int (length ws)"
    and "\<And>i. i < length ws \<Longrightarrow> int i < l \<Longrightarrow> wid (ws ! i) < key"
    and "\<And>i. i < length ws \<Longrightarrow> int i > r \<Longrightarrow> key < wid (ws ! i)"
  shows "\<exists>res. findWallet_loop wid ws key l r = ok res \<and>
    (case res of Some p \<Rightarrow> p \<in> set ws \<and> wid p = key | None \<Rightarrow> \<forall>p \<in> set ws. wid p \<noteq> key)"
  using assms
proof (induction wid ws key l r rule: findWallet_loop.induct)
  case (1 wid ws key l r)
  note prems = "1.prems"
  show ?case
  proof (cases "l \<le> r")
    case False
    have "wid p \<noteq> key" if "p \<in> set ws" for p
    proof -
      from that obtain i where i: "i < length ws" "p = ws ! i" by (auto simp: in_set_conv_nth)
      have "int i < l \<or> int i > r" using False by linarith
      then show ?thesis using prems(5,6) [OF i(1)] i(2) by auto
    qed
    with False show ?thesis by (simp add: findWallet_loop.simps)
  next
    case True
    define m where "m = c_div (l + r) 2"
    have m: "l \<le> m" "m \<le> r" "0 \<le> m" "m < int (length ws)"
      using c_div_2_between [OF True] prems by (auto simp: m_def)
    have no: "to_int32 (l + r) = l + r" using prems True by (intro to_int32_id) auto
    have mem: "ws ! nat m \<in> set ws" using m by simp
    let ?c = "wid (ws ! nat m)"
    consider "?c = key" | "?c < key" | "key < ?c" by fastforce
    then show ?thesis
    proof cases
      case 1
      with True no m mem show ?thesis by (subst findWallet_loop.simps) (simp add: Let_def flip: m_def)
    next
      case 2
      then have ne: "?c \<noteq> key" by auto
      have "wid (ws ! i) < key" if "i < length ws" "int i < m + 1" for i
      proof -
        have "wid (ws ! i) \<le> ?c" using that m by (intro sorted_by_nth [OF prems(1)]) auto
        with 2 show ?thesis by (rule le_less_trans [rotated])
      qed
      then have "\<exists>res. findWallet_loop wid ws key (m + 1) r = ok res \<and>
        (case res of Some p \<Rightarrow> p \<in> set ws \<and> wid p = key | None \<Rightarrow> \<forall>p \<in> set ws. wid p \<noteq> key)"
        using 2 ne True no m prems by (intro "1.IH"(1) [OF True _ m_def]) auto
      with 2 ne True no m show ?thesis by (subst findWallet_loop.simps) (simp add: Let_def flip: m_def)
    next
      case 3
      then have ne: "\<not> ?c < key" "?c \<noteq> key" by auto
      have "key < wid (ws ! i)" if "i < length ws" "int i > m - 1" for i
      proof -
        have "?c \<le> wid (ws ! i)" using that m by (intro sorted_by_nth [OF prems(1)]) auto
        with 3 show ?thesis by (rule less_le_trans)
      qed
      then have "\<exists>res. findWallet_loop wid ws key l (m - 1) = ok res \<and>
        (case res of Some p \<Rightarrow> p \<in> set ws \<and> wid p = key | None \<Rightarrow> \<forall>p \<in> set ws. wid p \<noteq> key)"
        using ne True no m prems by (intro "1.IH"(2) [OF True _ m_def]) auto
      with ne True no m show ?thesis by (subst findWallet_loop.simps) (simp add: Let_def flip: m_def)
    qed
  qed
qed

lemma findWallet_correct:
  assumes "sorted_by wid ws" "0 < length ws" "length ws \<le> 2 ^ 30"
  shows "\<exists>res. findWallet wid (length ws) ws key = ok res \<and>
    (case res of Some p \<Rightarrow> p \<in> set ws \<and> wid p = key | None \<Rightarrow> \<forall>p \<in> set ws. wid p \<noteq> key)"
proof -
  have "size_sub (length ws) 1 = length ws - 1"
    using assms by (intro size_sub_exact) (simp_all add: SIZE_MOD_def Suc_le_eq)
  then have "to_int32 (int (size_sub (length ws) 1)) = int (length ws) - 1"
    using assms by (cases ws) (simp_all add: to_int32_id)
  then show ?thesis
    unfolding findWallet_def using assms
    by (simp only:) (rule findWallet_loop_correct, auto)
qed

section \<open>Properties\<close>

text \<open>
  C23: For up to 2 to the 30 wallets, sorting the array of wallet pointers and then searching it
  never faults, and the search returns a wallet with the wanted ID exactly when there is one.
\<close>

theorem findWallet_exact:
  assumes "0 < n" "n \<le> 2 ^ 30" "length scnd = n"
  shows "\<exists>ordered res. sortWallets wid n scnd = ok ordered \<and> findWallet wid n ordered key = ok res
    \<and> (case res of Some p \<Rightarrow> p < n \<and> wid p = key | None \<Rightarrow> \<forall>p < n. wid p \<noteq> key)"
proof -
  have "n < SIZE_MOD" using assms(2) by (simp add: SIZE_MOD_def)
  then obtain ordered where o: "sortWallets wid n scnd = ok ordered" "sorted_by wid ordered" "mset ordered = mset [0..<n]"
    using sortWallets_sorts assms(1,3) by blast
  have len: "length ordered = n" and set: "set ordered = {0..<n}"
    using mset_eq_length [OF o(3)] mset_eq_setD [OF o(3)] by simp_all
  obtain res where res: "findWallet wid n ordered key = ok res"
      "case res of Some p \<Rightarrow> p \<in> {0..<n} \<and> wid p = key | None \<Rightarrow> \<forall>p \<in> {0..<n}. wid p \<noteq> key"
    using findWallet_correct [OF o(2), of key] assms(1,2) unfolding len set by blast
  then have "case res of Some p \<Rightarrow> p < n \<and> wid p = key | None \<Rightarrow> \<forall>p < n. wid p \<noteq> key" by (cases res) auto
  with o(1) res(1) show ?thesis by blast
qed

theorem findWallet_exact_witness:
  "\<exists>ordered res. sortWallets (\<lambda>p. [''c'', ''a'', ''b''] ! p) 3 [0, 0, 0] = ok ordered
    \<and> findWallet (\<lambda>p. [''c'', ''a'', ''b''] ! p) 3 ordered ''b'' = ok res
    \<and> (case res of Some p \<Rightarrow> p < 3 \<and> [''c'', ''a'', ''b''] ! p = ''b'' | None \<Rightarrow> \<forall>p < 3. [''c'', ''a'', ''b''] ! p \<noteq> ''b'')"
  by (rule findWallet_exact) simp_all

end
