(* ===== verification/Wallet.thy ===== *)
theory Wallet
  imports BitCoin WalletSearch
begin

text \<open>
  Wallets and their coin lists (SysPro_Project1/src/wallet.c).  A Wallet pointer is an index of the
  array unordered, a BitCoin pointer an index of the list of all coins in the order of their
  creation, and a BCList pointer a position in the list of its wallet.
\<close>

section \<open>State\<close>

record bclist =
  amountOf :: nat
  thisBC :: nat

record wallet =
  walletID :: string
  wamount :: nat
  bcl :: "bclist list"

record bank =
  wallets :: "wallet list"
  coins :: "bitcoin list"

abbreviation wid :: "bank \<Rightarrow> nat \<Rightarrow> string" where "wid st p \<equiv> walletID (wallets st ! p)"

section \<open>Balances\<close>

definition senderHasEnough :: "wallet \<Rightarrow> nat \<Rightarrow> bool" where
  "senderHasEnough senderID amount \<longleftrightarrow> wamount senderID \<ge> amount"

definition changeAmountsOfWallets :: "bank \<Rightarrow> nat \<Rightarrow> nat \<Rightarrow> nat \<Rightarrow> bank" where
  "changeAmountsOfWallets st sender receiver amount =
     (let ws = (wallets st)[sender := (wallets st ! sender)\<lparr>wamount := size_sub (wamount (wallets st ! sender)) amount\<rparr>];
          ws = ws[receiver := (ws ! receiver)\<lparr>wamount := size_add (wamount (ws ! receiver)) amount\<rparr>]
      in st\<lparr>wallets := ws\<rparr>)"

section \<open>Coin lists\<close>

text \<open>addToBCList: the entry of the coin grows, or a new entry is appended.\<close>

fun add_entry :: "bitcoin list \<Rightarrow> nat \<Rightarrow> nat \<Rightarrow> bclist list \<Rightarrow> fault + bclist list" where
  "add_entry cs bitCoin got [] = ok [\<lparr> amountOf = got, thisBC = bitCoin \<rparr>]"
| "add_entry cs bitCoin got (e # es) =
     (if thisBC e \<ge> length cs \<or> bitCoin \<ge> length cs then crash NullDeref
      else if ID (cs ! thisBC e) = ID (cs ! bitCoin)
      then ok (e\<lparr>amountOf := size_add (amountOf e) got\<rparr> # es)
      else and_then (add_entry cs bitCoin got es) (\<lambda>es. ok (e # es)))"

definition addToBCList :: "bank \<Rightarrow> nat \<Rightarrow> nat \<Rightarrow> nat \<Rightarrow> fault + bank" where
  "addToBCList st receiver bitCoin amountTransferred =
     and_then (add_entry (coins st) bitCoin amountTransferred (bcl (wallets st ! receiver)))
       (\<lambda>es. ok (st\<lparr>wallets := (wallets st)[receiver := (wallets st ! receiver)\<lparr>bcl := es\<rparr>]\<rparr>))"

text \<open>The four cases of removeFromBCList unlink the node from a doubly linked list.\<close>

definition removeFromBCList :: "bank \<Rightarrow> nat \<Rightarrow> nat \<Rightarrow> bank" where
  "removeFromBCList st sender i =
     (let w = wallets st ! sender
      in st\<lparr>wallets := (wallets st)[sender := w\<lparr>bcl := take i (bcl w) @ drop (Suc i) (bcl w)\<rparr>]\<rparr>)"

text \<open>bitCoin->amountOf -= amountTransferred\<close>

definition take_from_entry :: "bank \<Rightarrow> nat \<Rightarrow> nat \<Rightarrow> nat \<Rightarrow> bank" where
  "take_from_entry st sender i got =
     (let w = wallets st ! sender; e = bcl w ! i
      in st\<lparr>wallets := (wallets st)[sender := w\<lparr>bcl := (bcl w)[i := e\<lparr>amountOf := size_sub (amountOf e) got\<rparr>]\<rparr>]\<rparr>)"

section \<open>makeTransaction\<close>

text \<open>
  The calls both branches of the loop make: makeBCTransaction for the wanted amount, addToBCList for
  what was transferred, and the reduction of the sender's entry.
\<close>

definition move_step ::
    "bank \<Rightarrow> nat \<Rightarrow> nat \<Rightarrow> trans_list \<Rightarrow> nat \<Rightarrow> nat \<Rightarrow> (fault + bank \<times> nat) option" where
  "move_step st sndr rcvr trs i wanted =
     (let c = thisBC (bcl (wallets st ! sndr) ! i) in
      if c \<ge> length (coins st) then Some (crash NullDeref)
      else
        (case makeBCTransaction (wid st) (coins st ! c) wanted sndr rcvr trs of
           None \<Rightarrow> None
         | Some (Inl e) \<Rightarrow> Some (crash e)
         | Some (Inr (BC, amountTransferred)) \<Rightarrow>
             Some (and_then (addToBCList (st\<lparr>coins := (coins st)[c := BC]\<rparr>) rcvr c amountTransferred)
               (\<lambda>st. ok (take_from_entry st sndr i amountTransferred, amountTransferred)))))"

partial_function (option) mt_loop ::
    "nat \<Rightarrow> nat \<Rightarrow> trans_list \<Rightarrow> bank \<Rightarrow> nat \<Rightarrow> nat \<Rightarrow> (fault + bank) option" where
  "mt_loop sndr rcvr trs st i tmpAmount =
     (if tmpAmount > 0 then
        if i \<ge> length (bcl (wallets st ! sndr)) then Some (crash NullDeref)
        else if amountOf (bcl (wallets st ! sndr) ! i) \<ge> tmpAmount then
          (case move_step st sndr rcvr trs i tmpAmount of
             None \<Rightarrow> None
           | Some (Inl e) \<Rightarrow> Some (crash e)
           | Some (Inr (st, amountTransferred)) \<Rightarrow>
               if i > 0 \<and> amountOf (bcl (wallets st ! sndr) ! (i - 1)) = 0 then
                 (if size_sub tmpAmount amountTransferred > 0 then Some (crash UseAfterFree)
                  else Some (ok (removeFromBCList st sndr i)))
               else mt_loop sndr rcvr trs st i (size_sub tmpAmount amountTransferred))
        else
          (case move_step st sndr rcvr trs i (amountOf (bcl (wallets st ! sndr) ! i)) of
             None \<Rightarrow> None
           | Some (Inl e) \<Rightarrow> Some (crash e)
           | Some (Inr (st, amountTransferred)) \<Rightarrow>
               let c = thisBC (bcl (wallets st ! sndr) ! i);
                   st = st\<lparr>coins := (coins st)[c := (coins st ! c)
                          \<lparr>numOfTransactions := size_add (numOfTransactions (coins st ! c)) 1\<rparr>]\<rparr>
               in if Suc i \<ge> length (bcl (wallets st ! sndr)) then Some (crash NullDeref)
                  else mt_loop sndr rcvr trs (removeFromBCList st sndr i) i (size_sub tmpAmount amountTransferred))
      else Some (ok st))"

definition makeTransaction :: "bank \<Rightarrow> nat \<Rightarrow> nat \<Rightarrow> nat \<Rightarrow> trans_list \<Rightarrow> (fault + bank) option" where
  "makeTransaction st sndr rcvr amount trs =
     (if sndr \<ge> length (wallets st) \<or> rcvr \<ge> length (wallets st) then Some (crash BadIndex)
      else
        (case mt_loop sndr rcvr trs st 0 amount of
           None \<Rightarrow> None
         | Some (Inl e) \<Rightarrow> Some (crash e)
         | Some (Inr st) \<Rightarrow> Some (ok (changeAmountsOfWallets st sndr rcvr amount))))"

section \<open>walletStatus\<close>

definition walletStatus :: "bank \<Rightarrow> nat list \<Rightarrow> string \<Rightarrow> fault + string" where
  "walletStatus st sorted_wallets key =
     and_then (findWallet (wid st) (length (wallets st)) sorted_wallets key) (\<lambda>found.
       case found of
         None \<Rightarrow> ok (''WalletID specified does not exist.'' @ nl)
       | Some p \<Rightarrow> ok (''Wallet with ID '' @ wid st p @ '' has '' @ dec (wamount (wallets st ! p)) @ '' $.'' @ nl))"

section \<open>The ledger invariant\<close>

text \<open>What the entries of a list say about a coin, and altogether.\<close>

definition entry_amount :: "bclist list \<Rightarrow> nat \<Rightarrow> nat" where
  "entry_amount es c = sum_list (map (\<lambda>e. if thisBC e = c then amountOf e else 0) es)"

definition bcl_total :: "bclist list \<Rightarrow> nat" where
  "bcl_total es = sum_list (map amountOf es)"

abbreviation owned :: "bank \<Rightarrow> nat \<Rightarrow> nat" where "owned st p \<equiv> bcl_total (bcl (wallets st ! p))"

text \<open>
  The coin lists of the wallets and the leaves of the coins' trees agree: what the list of a wallet
  says about a coin is what the leaves of that coin give to the wallet.
\<close>

definition ledger_ok :: "bank \<Rightarrow> bool" where
  "ledger_ok st \<longleftrightarrow> distinct (map walletID (wallets st)) \<and> distinct (map ID (coins st))
     \<and> (\<forall>BC \<in> set (coins st). coin_ok BC)
     \<and> (\<forall>p < length (wallets st). \<forall>e \<in> set (bcl (wallets st ! p)). thisBC e < length (coins st))
     \<and> (\<forall>p < length (wallets st). \<forall>c < length (coins st).
          entry_amount (bcl (wallets st ! p)) c = holding (wid st) (root (coins st ! c)) (wid st p))
     \<and> sum_list (map (\<lambda>BC. amt (root BC)) (coins st)) < SIZE_MOD"

text \<open>Between commands the balance of a wallet is also the total of its list.\<close>

definition bank_ok :: "bank \<Rightarrow> bool" where
  "bank_ok st \<longleftrightarrow> ledger_ok st \<and> (\<forall>p < length (wallets st). wamount (wallets st ! p) = owned st p)"

lemma entry_amount_simps [simp]:
  "entry_amount [] c = 0"
  "entry_amount (e # es) c = (if thisBC e = c then amountOf e else 0) + entry_amount es c"
  by (simp_all add: entry_amount_def)

lemma bcl_total_simps [simp]:
  "bcl_total [] = 0"
  "bcl_total (e # es) = amountOf e + bcl_total es"
  by (simp_all add: bcl_total_def)

lemma entry_le: "i < length es \<Longrightarrow> amountOf (es ! i) \<le> entry_amount es (thisBC (es ! i))"
proof (induction es arbitrary: i)
  case (Cons e es)
  show ?case
  proof (cases i)
    case (Suc j)
    with Cons.IH [of j] Cons.prems have "amountOf (es ! j) \<le> entry_amount es (thisBC (es ! j))" by simp
    with Suc show ?thesis by simp
  qed simp
qed simp

lemma bcl_total_entries:
  "\<forall>e \<in> set es. thisBC e < n \<Longrightarrow> bcl_total es = (\<Sum>c<n. entry_amount es c)"
proof (induction es)
  case (Cons e es)
  then have "(\<Sum>c<n. if thisBC e = c then amountOf e else 0) = amountOf e" by simp
  with Cons show ?case by (simp add: sum.distrib)
qed simp

lemma owned_bounded:
  assumes "ledger_ok st" "p < length (wallets st)"
  shows "owned st p < SIZE_MOD"
proof -
  have "owned st p = (\<Sum>c<length (coins st). entry_amount (bcl (wallets st ! p)) c)"
    using assms by (intro bcl_total_entries) (auto simp: ledger_ok_def)
  also have "\<dots> \<le> (\<Sum>c<length (coins st). amt (root (coins st ! c)))"
    using assms by (intro sum_mono) (auto simp: ledger_ok_def coin.share_worth)
  also have "\<dots> = sum_list (map (\<lambda>BC. amt (root BC)) (coins st))"
    by (simp add: sum_list_sum_nth atLeast0LessThan)
  finally show ?thesis using assms by (simp add: ledger_ok_def)
qed

lemma add_entry_ok:
  assumes "\<forall>e \<in> set es. thisBC e < length cs" "c < length cs" "distinct (map ID cs)"
    and "entry_amount es c + a < SIZE_MOD"
  shows "\<exists>es'. add_entry cs c a es = ok es' \<and> (\<forall>e \<in> set es'. thisBC e < length cs)
    \<and> (\<forall>c'. entry_amount es' c' = entry_amount es c' + (if c' = c then a else 0))
    \<and> bcl_total es' = bcl_total es + a"
  using assms
proof (induction es)
  case Nil
  then show ?case by simp
next
  case (Cons e es)
  have same: "ID (cs ! thisBC e) = ID (cs ! c) \<longleftrightarrow> thisBC e = c"
    using Cons.prems by (auto simp: distinct_conv_nth)
  show ?case
  proof (cases "thisBC e = c")
    case True
    with Cons.prems show ?thesis by (auto simp: size_add_exact)
  next
    case False
    have "\<forall>e \<in> set es. thisBC e < length cs" "entry_amount es c + a < SIZE_MOD"
      using Cons.prems(1,4) False by simp_all
    from Cons.IH [OF this(1) Cons.prems(2,3) this(2)]
    obtain es' where "add_entry cs c a es = ok es'" "\<forall>e \<in> set es'. thisBC e < length cs"
        "\<forall>c'. entry_amount es' c' = entry_amount es c' + (if c' = c then a else 0)"
        "bcl_total es' = bcl_total es + a"
      by blast
    with False same Cons.prems show ?thesis by auto
  qed
qed

section \<open>One move between two wallets\<close>

text \<open>What no part of a transaction changes, and what a move of an amount does.\<close>

definition same_books :: "bank \<Rightarrow> bank \<Rightarrow> bool" where
  "same_books st st' \<longleftrightarrow> wid st' = wid st
     \<and> map walletID (wallets st') = map walletID (wallets st) \<and> map wamount (wallets st') = map wamount (wallets st)
     \<and> map ID (coins st') = map ID (coins st)
     \<and> map (\<lambda>BC. amt (root BC)) (coins st') = map (\<lambda>BC. amt (root BC)) (coins st)"

definition moved :: "nat \<Rightarrow> nat \<Rightarrow> nat \<Rightarrow> bank \<Rightarrow> bank \<Rightarrow> bool" where
  "moved s r a st st' \<longleftrightarrow> same_books st st' \<and> ledger_ok st'
     \<and> owned st' s + a = owned st s \<and> owned st' r = owned st r + a
     \<and> (\<forall>p. p \<noteq> s \<longrightarrow> p \<noteq> r \<longrightarrow> wallets st' ! p = wallets st ! p)"

lemma same_books_lengths:
  assumes "same_books st st'"
  shows "length (wallets st') = length (wallets st)" "length (coins st') = length (coins st)"
  using assms map_eq_imp_length_eq unfolding same_books_def by blast+

lemma moved_trans: "moved s r a st st1 \<Longrightarrow> moved s r b st1 st2 \<Longrightarrow> moved s r (a + b) st st2"
  by (auto simp: moved_def same_books_def)

lemma moved_refl: "ledger_ok st \<Longrightarrow> moved s r 0 st st"
  by (simp add: moved_def same_books_def)

lemma map_update_same: "(i < length xs \<Longrightarrow> f x = f (xs ! i)) \<Longrightarrow> map f (xs[i := x]) = map f xs"
  by (metis list_update_beyond list_update_id map_update not_less)

lemma wid_update:
  "p < length (wallets st) \<Longrightarrow> walletID w = walletID (wallets st ! p) \<Longrightarrow>
   wid (st\<lparr>wallets := (wallets st)[p := w]\<rparr>) = wid st"
  by (auto simp: fun_eq_iff nth_list_update)

lemma ledger_update:
  assumes ledger: "ledger_ok st" and s: "s < length (wallets st)" and r: "r < length (wallets st)" and ne: "s \<noteq> r"
    and c: "c < length (coins st)"
    and BC: "coin_ok BC" "ID BC = ID (coins st ! c)" "amt (root BC) = amt (root (coins st ! c))"
    and hs: "holding (wid st) (root BC) (wid st s) = entry_amount es c"
    and hr: "holding (wid st) (root BC) (wid st r) = entry_amount er c"
    and ho: "\<forall>v. v \<noteq> wid st s \<longrightarrow> v \<noteq> wid st r \<longrightarrow>
               holding (wid st) (root BC) v = holding (wid st) (root (coins st ! c)) v"
    and es: "\<forall>e \<in> set es. thisBC e < length (coins st)" "\<And>c'. c' \<noteq> c \<Longrightarrow> entry_amount es c' = entry_amount (bcl (wallets st ! s)) c'"
    and er: "\<forall>e \<in> set er. thisBC e < length (coins st)" "\<And>c'. c' \<noteq> c \<Longrightarrow> entry_amount er c' = entry_amount (bcl (wallets st ! r)) c'"
    and st': "wallets st' = (wallets st)[r := (wallets st ! r)\<lparr>bcl := er\<rparr>, s := (wallets st ! s)\<lparr>bcl := es\<rparr>]"
      "coins st' = (coins st)[c := BC]"
  shows "ledger_ok st'" "same_books st st'"
proof -
  have len: "length (wallets st') = length (wallets st)" "length (coins st') = length (coins st)"
    using st' by simp_all
  have nth: "wallets st' ! p = (if p = s then (wallets st ! s)\<lparr>bcl := es\<rparr>
      else if p = r then (wallets st ! r)\<lparr>bcl := er\<rparr> else wallets st ! p)" for p
    using s r ne st' by (simp add: nth_list_update)
  have wid: "wid st' = wid st" using nth by (auto simp: fun_eq_iff)
  have ids: "map walletID (wallets st') = map walletID (wallets st)"
    and amounts: "map wamount (wallets st') = map wamount (wallets st)"
    using nth len by (auto intro!: nth_equalityI)
  have cids: "map ID (coins st') = map ID (coins st)"
    and worth: "map (\<lambda>BC. amt (root BC)) (coins st') = map (\<lambda>BC. amt (root BC)) (coins st)"
    unfolding st'(2) using BC by (simp_all add: map_update_same)
  show "same_books st st'" using wid ids amounts cids worth by (simp add: same_books_def)
  have coins: "\<forall>B \<in> set (coins st'). coin_ok B"
    using ledger BC(1) st'(2) set_update_subset_insert [of "coins st" c BC] by (auto simp: ledger_ok_def)
  have range: "\<forall>p < length (wallets st'). \<forall>e \<in> set (bcl (wallets st' ! p)). thisBC e < length (coins st')"
    using ledger es(1) er(1) by (auto simp: len nth ledger_ok_def)
  have agree: "entry_amount (bcl (wallets st' ! p)) c' = holding (wid st') (root (coins st' ! c')) (wid st' p)"
    if p: "p < length (wallets st')" and c': "c' < length (coins st')" for p c'
  proof -
    have old: "entry_amount (bcl (wallets st ! p)) c' = holding (wid st) (root (coins st ! c')) (wid st p)"
      using ledger p c' by (simp add: ledger_ok_def len)
    have dist: "wid st p = wid st q \<longleftrightarrow> p = q" if "q < length (wallets st)" for q
      using ledger p that len by (simp add: ledger_ok_def distinct_conv_nth) blast
    have "entry_amount (bcl (wallets st' ! p)) c' = holding (wid st) (root (coins st' ! c')) (wid st p)"
    proof (cases "c' = c")
      case False
      then show ?thesis using old es(2) [OF False] er(2) [OF False] st'(2) by (auto simp: nth)
    next
      case True
      then have "coins st' ! c' = BC" using c st'(2) by simp
      then show ?thesis using True old hs hr ho [rule_format, of "wid st p"] dist [OF s] dist [OF r] by (simp add: nth)
    qed
    moreover have "wid st' p = wid st p" by (simp add: nth)
    ultimately show ?thesis unfolding wid by simp
  qed
  show "ledger_ok st'"
    using ledger coins range agree ids cids worth by (simp add: ledger_ok_def)
qed

lemma entry_amount_update:
  "i < length es \<Longrightarrow> a \<le> amountOf (es ! i) \<Longrightarrow>
   entry_amount (es[i := (es ! i)\<lparr>amountOf := amountOf (es ! i) - a\<rparr>]) c
     + (if c = thisBC (es ! i) then a else 0) = entry_amount es c"
proof (induction es arbitrary: i)
  case (Cons e es)
  then show ?case
  proof (cases i)
    case (Suc j)
    with Cons.IH [of j] Cons.prems show ?thesis by simp
  qed simp
qed simp

lemma bcl_total_update:
  "i < length es \<Longrightarrow> a \<le> amountOf (es ! i) \<Longrightarrow>
   bcl_total (es[i := (es ! i)\<lparr>amountOf := amountOf (es ! i) - a\<rparr>]) + a = bcl_total es"
proof (induction es arbitrary: i)
  case (Cons e es)
  then show ?case
  proof (cases i)
    case (Suc j)
    with Cons.IH [of j] Cons.prems show ?thesis by simp
  qed simp
qed simp

lemma move_step_moves:
  assumes ledger: "ledger_ok st" and s: "s < length (wallets st)" and r: "r < length (wallets st)" and ne: "s \<noteq> r"
    and i: "i < length (bcl (wallets st ! s))" and a: "a \<le> amountOf (bcl (wallets st ! s) ! i)"
  shows "\<exists>st'. move_step st s r trs i a = Some (ok (st', a)) \<and> moved s r a st st'
    \<and> bcl (wallets st' ! s) = (bcl (wallets st ! s))[i := (bcl (wallets st ! s) ! i)
         \<lparr>amountOf := amountOf (bcl (wallets st ! s) ! i) - a\<rparr>]"
proof -
  define e where "e = bcl (wallets st ! s) ! i"
  define c where "c = thisBC e"
  define es where "es = (bcl (wallets st ! s))[i := e\<lparr>amountOf := amountOf e - a\<rparr>]"
  have c: "c < length (coins st)" using ledger s i by (auto simp: ledger_ok_def c_def e_def)
  have okc: "coin_ok (coins st ! c)" using ledger c by (auto simp: ledger_ok_def)
  have agree: "p < length (wallets st) \<Longrightarrow>
      entry_amount (bcl (wallets st ! p)) c = holding (wid st) (root (coins st ! c)) (wid st p)" for p
    using ledger c by (simp add: ledger_ok_def)
  have small: "amountOf e \<le> entry_amount (bcl (wallets st ! s)) c" using entry_le [OF i] by (simp add: e_def c_def)
  have enough: "a \<le> holding (wid st) (root (coins st ! c)) (wid st s)"
    using a small agree [OF s] by (simp add: e_def)
  have wne: "wid st r \<noteq> wid st s" using ledger s r ne by (auto simp: ledger_ok_def distinct_conv_nth)
  obtain BC where
    BC: "makeBCTransaction (wid st) (coins st ! c) a s r trs = Some (ok (BC, a))" "coin_ok BC"
      "ID BC = ID (coins st ! c)" "amt (root BC) = amt (root (coins st ! c))"
    and hs: "holding (wid st) (root BC) (wid st s) = holding (wid st) (root (coins st ! c)) (wid st s) - a"
    and hr: "holding (wid st) (root BC) (wid st r) = holding (wid st) (root (coins st ! c)) (wid st r) + a"
    and ho: "\<forall>v. v \<noteq> wid st s \<longrightarrow> v \<noteq> wid st r \<longrightarrow>
          holding (wid st) (root BC) v = holding (wid st) (root (coins st ! c)) v"
    and le: "holding (wid st) (root (coins st ! c)) (wid st r) + a \<le> amt (root (coins st ! c))"
    by (rule coin.move_shares [OF okc enough wne, where t = trs])
  define cs where "cs = (coins st)[c := BC]"
  have ids: "map ID cs = map ID (coins st)" by (simp add: cs_def BC(3) map_update_same)
  have sumb: "amt (root (coins st ! c)) < SIZE_MOD" using okc by (simp add: coin_ok_def)
  have "\<forall>e \<in> set (bcl (wallets st ! r)). thisBC e < length cs" "c < length cs" "distinct (map ID cs)"
    using ledger r c ids by (auto simp: ledger_ok_def cs_def)
  moreover have "entry_amount (bcl (wallets st ! r)) c + a < SIZE_MOD" using le sumb agree [OF r] by simp
  ultimately obtain er where er: "add_entry cs c a (bcl (wallets st ! r)) = ok er" "\<forall>e \<in> set er. thisBC e < length cs"
      "\<forall>c'. entry_amount er c' = entry_amount (bcl (wallets st ! r)) c' + (if c' = c then a else 0)"
      "bcl_total er = owned st r + a"
    using add_entry_ok by blast
  define st' where "st' = st\<lparr>coins := cs, wallets := (wallets st)[r := (wallets st ! r)\<lparr>bcl := er\<rparr>, s := (wallets st ! s)\<lparr>bcl := es\<rparr>]\<rparr>"
  have "amountOf e < SIZE_MOD" using small agree [OF s] coin.share_worth [OF okc, of "wid st" "wid st s"] sumb by simp
  then have sub: "size_sub (amountOf e) a = amountOf e - a" using a by (simp add: size_sub_exact e_def)
  have run: "move_step st s r trs i a = Some (ok (st', a))"
    using c BC(1) er(1) s r ne sub
    by (simp add: move_step_def addToBCList_def take_from_entry_def Let_def st'_def es_def cs_def c_def e_def)
  have ea: "entry_amount es c' + (if c' = c then a else 0) = entry_amount (bcl (wallets st ! s)) c'" for c'
    using entry_amount_update [OF i a, of c'] by (simp add: es_def e_def c_def)
  have rng: "\<forall>e \<in> set es. thisBC e < length (coins st)"
    using ledger s c set_update_subset_insert [of "bcl (wallets st ! s)" i "e\<lparr>amountOf := amountOf e - a\<rparr>"]
    by (auto simp: ledger_ok_def es_def c_def)
  have es_c: "holding (wid st) (root BC) (wid st s) = entry_amount es c"
    using hs ea [of c] agree [OF s] by simp
  have er_c: "holding (wid st) (root BC) (wid st r) = entry_amount er c"
    using hr er(3) agree [OF r] by simp
  have es_o: "entry_amount es c' = entry_amount (bcl (wallets st ! s)) c'" if "c' \<noteq> c" for c'
    using ea [of c'] that by simp
  have er_o: "entry_amount er c' = entry_amount (bcl (wallets st ! r)) c'" if "c' \<noteq> c" for c'
    using er(3) that by simp
  have er_r: "\<forall>e \<in> set er. thisBC e < length (coins st)" using er(2) by (simp add: cs_def)
  have upd: "wallets st' = (wallets st)[r := (wallets st ! r)\<lparr>bcl := er\<rparr>, s := (wallets st ! s)\<lparr>bcl := es\<rparr>]"
    "coins st' = (coins st)[c := BC]" by (simp_all add: st'_def cs_def)
  have "ledger_ok st'" "same_books st st'"
    using ledger_update [OF ledger s r ne c BC(2-4) es_c er_c ho rng es_o er_r er_o upd] by blast+
  moreover have "owned st' s + a = owned st s" using bcl_total_update [OF i a] s by (simp add: st'_def es_def e_def)
  moreover have "owned st' r = owned st r + a" using er(4) r ne by (simp add: st'_def)
  moreover have "\<forall>p. p \<noteq> s \<longrightarrow> p \<noteq> r \<longrightarrow> wallets st' ! p = wallets st ! p" by (simp add: st'_def)
  moreover have "bcl (wallets st' ! s) = es" using s by (simp add: st'_def)
  ultimately show ?thesis using run by (auto simp: moved_def es_def e_def)
qed


section \<open>makeTransaction meets its contract\<close>

lemma ledger_update_coin:
  assumes "ledger_ok st" "c < length (coins st)"
  shows "moved s r 0 st (st\<lparr>coins := (coins st)[c := (coins st ! c)\<lparr>numOfTransactions := n\<rparr>]\<rparr>)"
proof -
  let ?BC = "(coins st ! c)\<lparr>numOfTransactions := n\<rparr>"
  have "coin_ok ?BC" using assms by (simp add: ledger_ok_def coin_ok_def)
  moreover have "set ((coins st)[c := ?BC]) \<subseteq> insert ?BC (set (coins st))" by (rule set_update_subset_insert)
  ultimately have "\<forall>BC \<in> set ((coins st)[c := ?BC]). coin_ok BC" using assms by (auto simp: ledger_ok_def)
  moreover have "map ID ((coins st)[c := ?BC]) = map ID (coins st)"
    "map (\<lambda>BC. amt (root BC)) ((coins st)[c := ?BC]) = map (\<lambda>BC. amt (root BC)) (coins st)"
    by (simp_all add: map_update_same)
  moreover have "root ((coins st)[c := ?BC] ! c') = root (coins st ! c')" for c'
    using assms(2) by (simp add: nth_list_update)
  ultimately show ?thesis using assms(1) by (simp add: moved_def same_books_def ledger_ok_def)
qed

lemma ledger_remove_first:
  assumes "ledger_ok st" "s < length (wallets st)" "bcl (wallets st ! s) = e # es" "amountOf e = 0" "s \<noteq> r"
  shows "moved s r 0 st (removeFromBCList st s 0)" "bcl (wallets (removeFromBCList st s 0) ! s) = es"
proof -
  let ?st = "removeFromBCList st s 0"
  have nth: "wallets ?st ! p = (if p = s then (wallets st ! s)\<lparr>bcl := es\<rparr> else wallets st ! p)" for p
    using assms(2,3) by (simp add: removeFromBCList_def Let_def nth_list_update)
  show "bcl (wallets ?st ! s) = es" by (simp add: nth)
  have len: "length (wallets ?st) = length (wallets st)" and cs: "coins ?st = coins st"
    by (simp_all add: removeFromBCList_def Let_def)
  have wid: "wid ?st = wid st" using nth by (auto simp: fun_eq_iff)
  have ids: "map walletID (wallets ?st) = map walletID (wallets st)"
    and amounts: "map wamount (wallets ?st) = map wamount (wallets st)"
    using nth len by (auto intro!: nth_equalityI)
  have total: "owned ?st p = owned st p" for p using assms(3,4) by (simp add: nth)
  have "entry_amount (bcl (wallets ?st ! p)) c = entry_amount (bcl (wallets st ! p)) c" for p c
    using assms(3,4) by (simp add: nth)
  moreover have "\<forall>p < length (wallets st). \<forall>e \<in> set (bcl (wallets ?st ! p)). thisBC e < length (coins st)"
    using assms(1-3) by (auto simp: nth ledger_ok_def)
  moreover have "wid ?st p = wid st p" for p by (simp add: nth)
  ultimately have "ledger_ok ?st" using assms(1) unfolding ledger_ok_def len cs wid ids by simp
  then show "moved s r 0 st ?st"
    unfolding moved_def same_books_def total wid ids amounts cs using nth by simp
qed

lemma mt_loop_moves:
  assumes "ledger_ok st" "s < length (wallets st)" "r < length (wallets st)" "s \<noteq> r" "a \<le> owned st s"
  shows "\<exists>st'. mt_loop s r trs st 0 a = Some (ok st') \<and> moved s r a st st'"
  using assms
proof (induction "length (bcl (wallets st ! s))" arbitrary: st a)
  case 0
  then show ?case by (simp add: mt_loop.simps moved_refl)
next
  case (Suc n)
  note ledger = Suc.prems(1) and s = Suc.prems(2) and r = Suc.prems(3) and ne = Suc.prems(4)
  obtain e es where l: "bcl (wallets st ! s) = e # es" using Suc.hyps(2) by (cases "bcl (wallets st ! s)") auto
  have amax: "a < SIZE_MOD" using owned_bounded [OF ledger s] Suc.prems(5) by simp
  consider (zero) "a = 0" | (last) "0 < a" "a \<le> amountOf e" | (more) "0 < a" "amountOf e < a" by linarith
  then show ?case
  proof cases
    case zero
    then show ?thesis using moved_refl [OF ledger] by (simp add: mt_loop.simps)
  next
    case last
    then obtain st1 where st1: "move_step st s r trs 0 a = Some (ok (st1, a))" "moved s r a st st1"
      using move_step_moves [OF ledger s r ne, of 0 a trs] l by auto
    have "size_sub a a = 0" using amax by (simp add: size_sub_exact)
    then have "mt_loop s r trs st 0 a = Some (ok st1)"
      using last st1(1) l by (subst mt_loop.simps) (simp add: mt_loop.simps [of s r trs st1])
    with st1(2) show ?thesis by blast
  next
    case more
    obtain st1 where st1: "move_step st s r trs 0 (amountOf e) = Some (ok (st1, amountOf e))"
        "moved s r (amountOf e) st st1" "bcl (wallets st1 ! s) = e\<lparr>amountOf := 0\<rparr> # es"
      using move_step_moves [OF ledger s r ne, of 0 "amountOf e" trs] l by auto
    define c where "c = thisBC e"
    define st2 where "st2 = st1\<lparr>coins := (coins st1)[c := (coins st1 ! c)
        \<lparr>numOfTransactions := size_add (numOfTransactions (coins st1 ! c)) 1\<rparr>]\<rparr>"
    define st3 where "st3 = removeFromBCList st2 s 0"
    have led1: "ledger_ok st1" and len: "length (wallets st1) = length (wallets st)"
      using st1(2) same_books_lengths by (auto simp: moved_def)
    have "c < length (coins st1)" using led1 st1(3) s len by (auto simp: ledger_ok_def c_def)
    from ledger_update_coin [OF led1 this] have m2: "moved s r 0 st1 st2" unfolding st2_def .
    have w2: "wallets st2 = wallets st1" by (simp add: st2_def)
    have m3: "moved s r 0 st2 st3" and l3: "bcl (wallets st3 ! s) = es"
      unfolding st3_def using ledger_remove_first [of st2 s "e\<lparr>amountOf := 0\<rparr>" es r] m2 st1(3) s len ne w2
      by (simp_all add: moved_def)
    have m: "moved s r (amountOf e) st st3" using moved_trans [OF moved_trans [OF st1(2) m2] m3] by simp
    then have "owned st3 s = owned st s - amountOf e" "ledger_ok st3" "length (wallets st3) = length (wallets st)"
      using same_books_lengths by (auto simp: moved_def)
    moreover have "a - amountOf e \<le> owned st3 s" using Suc.prems(5) l l3 by simp
    ultimately obtain st' where st': "mt_loop s r trs st3 0 (a - amountOf e) = Some (ok st')"
        "moved s r (a - amountOf e) st3 st'"
      using Suc.hyps(1) [of st3 "a - amountOf e"] Suc.hyps(2) Suc.prems l l3
      by auto
    have "es \<noteq> []" using more Suc.prems(5) l by auto
    moreover have "size_sub a (amountOf e) = a - amountOf e" using more amax by (simp add: size_sub_exact)
    ultimately have "mt_loop s r trs st 0 a = Some (ok st')"
      using more st1 l st'(1) w2 by (subst mt_loop.simps) (simp add: Let_def st3_def st2_def c_def)
    moreover have "moved s r a st st'" using moved_trans [OF m st'(2)] more by simp
    ultimately show ?thesis by blast
  qed
qed


text \<open>
  The abstract ledger: a balance per wallet and a worth per coin.  A transaction is a transfer there.
\<close>

definition balances :: "bank \<Rightarrow> nat list" where "balances st = map wamount (wallets st)"
definition worths :: "bank \<Rightarrow> nat list" where "worths st = map (\<lambda>BC. amt (root BC)) (coins st)"

definition transfer :: "nat \<Rightarrow> nat \<Rightarrow> nat \<Rightarrow> nat list \<Rightarrow> nat list" where
  "transfer s r a bs = bs[s := bs ! s - a, r := bs ! r + a]"

lemma sum_list_transfer:
  assumes "s < length bs" "r < length bs" "s \<noteq> r" "a \<le> bs ! s"
  shows "sum_list (transfer s r a bs) = sum_list bs"
proof -
  have 1: "sum_list (bs[s := bs ! s - a]) + a = sum_list bs"
    using assms elem_le_sum_list [of s bs] by (simp add: sum_list_update)
  have "sum_list ((bs[s := bs ! s - a])[r := bs ! r + a]) = sum_list (bs[s := bs ! s - a]) + a"
    using assms by (simp add: sum_list_update)
  with 1 show ?thesis by (simp add: transfer_def)
qed

lemma makeTransaction_transfers:
  assumes "bank_ok st" "s < length (wallets st)" "r < length (wallets st)" "s \<noteq> r"
    and "senderHasEnough (wallets st ! s) a"
  shows "\<exists>st'. makeTransaction st s r a trs = Some (ok st') \<and> bank_ok st'
    \<and> balances st' = transfer s r a (balances st) \<and> worths st' = worths st
    \<and> wid st' = wid st \<and> length (wallets st') = length (wallets st) \<and> map ID (coins st') = map ID (coins st)"
proof -
  have led: "ledger_ok st" and bal: "\<And>p. p < length (wallets st) \<Longrightarrow> wamount (wallets st ! p) = owned st p"
    using assms(1) by (auto simp: bank_ok_def)
  have le: "a \<le> owned st s" using assms(2,5) bal by (simp add: senderHasEnough_def)
  obtain st1 where st1: "mt_loop s r trs st 0 a = Some (ok st1)" "moved s r a st st1"
    using mt_loop_moves [OF led assms(2-4) le] by blast
  define st2 where "st2 = changeAmountsOfWallets st1 s r a"
  have books: "same_books st st1" and led1: "ledger_ok st1" using st1(2) by (auto simp: moved_def)
  note len = same_books_lengths [OF books]
  have am: "wamount (wallets st1 ! p) = wamount (wallets st ! p)" if "p < length (wallets st)" for p
  proof -
    have "map wamount (wallets st1) ! p = map wamount (wallets st) ! p" using books by (simp add: same_books_def)
    then show ?thesis using that len by simp
  qed
  have lt: "wamount (wallets st ! s) < SIZE_MOD" "wamount (wallets st ! r) + a < SIZE_MOD"
    using owned_bounded [OF led assms(2)] owned_bounded [OF led1, of r] st1(2) bal assms(2,3) len by (auto simp: moved_def)
  have nth: "wallets st2 ! p = (wallets st1 ! p)\<lparr>wamount := (if p = s then wamount (wallets st ! s) - a
      else if p = r then wamount (wallets st ! r) + a else wamount (wallets st1 ! p))\<rparr>" for p
    using assms(2-4) len le bal lt am
    by (simp add: st2_def changeAmountsOfWallets_def Let_def nth_list_update size_sub_exact size_add_exact)
  have len2: "length (wallets st2) = length (wallets st)" and cs: "coins st2 = coins st1"
    by (simp_all add: st2_def changeAmountsOfWallets_def Let_def len)
  have wid: "wid st2 = wid st" "\<And>p. wid st2 p = wid st1 p" using books nth by (simp_all add: same_books_def)
  have ids: "map walletID (wallets st2) = map walletID (wallets st1)"
    using nth len len2 by (auto intro!: nth_equalityI)
  have "ledger_ok st2" using led1 ids wid books by (simp add: ledger_ok_def cs len2 len nth same_books_def)
  moreover have "wamount (wallets st2 ! p) = owned st2 p" if "p < length (wallets st2)" for p
    using that len2 nth st1(2) am bal assms(2-4) by (auto simp: moved_def)
  ultimately have "bank_ok st2" by (simp add: bank_ok_def)
  moreover have "balances st2 = transfer s r a (balances st)"
    using len2 nth am assms(2-4) by (auto simp: balances_def transfer_def nth_list_update intro!: nth_equalityI)
  moreover have "worths st2 = worths st" "map ID (coins st2) = map ID (coins st)"
    using books by (simp_all add: worths_def cs same_books_def)
  moreover have "makeTransaction st s r a trs = Some (ok st2)"
    using st1(1) assms(2,3) by (simp add: makeTransaction_def st2_def)
  ultimately show ?thesis using wid len2 by blast
qed

section \<open>Properties\<close>

text \<open>A bank with two wallets: one coin of 50 that belongs to the first.\<close>

definition small_bank :: bank where
  "small_bank = \<lparr> wallets = [\<lparr> walletID = ''A'', wamount = 50, bcl = [\<lparr> amountOf = 50, thisBC = 0 \<rparr>] \<rparr>,
                             \<lparr> walletID = ''B'', wamount = 0, bcl = [] \<rparr>],
                 coins = [bitCoinInitialization 7 0 50] \<rparr>"

definition small_trans :: trans_list where
  "small_trans = \<lparr> thisTrans = \<lparr> transactionID = ''1'', tvalue = 20, dateTime = 0 \<rparr>, sourceDestWallet = 1 \<rparr>"

lemma small_bank_ok: "bank_ok small_bank"
proof -
  have "50 < SIZE_MOD" "7 < SIZE_MOD" by (simp_all add: SIZE_MOD_def)
  then show ?thesis
    by (simp add: bank_ok_def ledger_ok_def small_bank_def bitCoinInitialization_def treeNodeInitialization_def
        coin_ok_def All_less_Suc nth_Cons')
qed

text \<open>
  C1: A transaction between two different wallets returns without a fault whenever the sender's
  balance suffices: all loops end, the sender's balance falls and the receiver's rises by exactly
  the amount, no other balance and no coin's worth changes, and the coin lists of the wallets still
  agree with the leaves of the coins' trees and with the balances.
\<close>

theorem transaction_settles:
  assumes "bank_ok st" "sndr < length (wallets st)" "rcvr < length (wallets st)" "sndr \<noteq> rcvr"
    and "senderHasEnough (wallets st ! sndr) amount"
  shows "\<exists>st'. makeTransaction st sndr rcvr amount trs = Some (ok st') \<and> bank_ok st'
    \<and> balances st' = transfer sndr rcvr amount (balances st) \<and> worths st' = worths st"
  using makeTransaction_transfers [OF assms] by blast

theorem transaction_settles_witness:
  "\<exists>st'. makeTransaction small_bank 0 1 20 small_trans = Some (ok st') \<and> bank_ok st'
    \<and> balances st' = transfer 0 1 20 (balances small_bank) \<and> worths st' = worths small_bank"
  by (rule transaction_settles) (simp_all add: small_bank_ok, simp_all add: small_bank_def senderHasEnough_def)

text \<open>
  The total amount of money in the wallets is the same before and after a transaction.
\<close>

theorem transaction_conserves_money:
  assumes "bank_ok st" "sndr < length (wallets st)" "rcvr < length (wallets st)" "sndr \<noteq> rcvr"
    and "senderHasEnough (wallets st ! sndr) amount" "makeTransaction st sndr rcvr amount trs = Some (ok st')"
  shows "(\<Sum>w \<leftarrow> wallets st'. wamount w) = (\<Sum>w \<leftarrow> wallets st. wamount w)"
proof -
  have "balances st' = transfer sndr rcvr amount (balances st)"
    using makeTransaction_transfers [OF assms(1-5), of trs] assms(6) by auto
  moreover have "amount \<le> balances st ! sndr" using assms(2,5) by (simp add: balances_def senderHasEnough_def)
  ultimately have "sum_list (balances st') = sum_list (balances st)"
    using sum_list_transfer [of sndr "balances st" rcvr amount] assms(2-4) by (simp add: balances_def)
  then show ?thesis by (simp add: balances_def)
qed

theorem transaction_conserves_money_witness:
  "\<exists>st'. makeTransaction small_bank 0 1 20 small_trans = Some (ok st') \<and> (\<Sum>w \<leftarrow> wallets st'. wamount w) = 50"
proof -
  have pre: "0 < length (wallets small_bank)" "1 < length (wallets small_bank)" "(0::nat) \<noteq> 1"
    "senderHasEnough (wallets small_bank ! 0) 20" by (simp_all add: small_bank_def senderHasEnough_def)
  obtain st' where "makeTransaction small_bank 0 1 20 small_trans = Some (ok st')"
    using makeTransaction_transfers [OF small_bank_ok pre] by blast
  with transaction_conserves_money [OF small_bank_ok pre this] show ?thesis by (simp add: small_bank_def)
qed

text \<open>
  What a wallet's list says about a coin bounds what it can spend of it: no wallet ever lists
  more of a coin than the coin is worth, and the lists of one wallet never add up to a size_t
  overflow.
\<close>

theorem wallet_lists_within_worth:
  assumes "bank_ok st" "p < length (wallets st)" "c < length (coins st)"
  shows "entry_amount (bcl (wallets st ! p)) c \<le> worths st ! c \<and> wamount (wallets st ! p) < SIZE_MOD"
proof -
  have led: "ledger_ok st" using assms(1) by (simp add: bank_ok_def)
  then have "coin_ok (coins st ! c)" using assms(3) by (simp add: ledger_ok_def)
  from coin.share_worth [OF this, of "wid st" "wid st p"] led assms
  have "entry_amount (bcl (wallets st ! p)) c \<le> worths st ! c" by (simp add: ledger_ok_def worths_def)
  with owned_bounded [OF led assms(2)] assms(1,2) show ?thesis by (simp add: bank_ok_def)
qed

theorem wallet_lists_within_worth_witness:
  "entry_amount (bcl (wallets small_bank ! 0)) 0 \<le> worths small_bank ! 0 \<and> wamount (wallets small_bank ! 0) < SIZE_MOD"
  by (rule wallet_lists_within_worth) (simp_all add: small_bank_ok, simp_all add: small_bank_def)

end
