(* ===== verification/Queries.thy ===== *)
theory Queries
  imports HashTable CTime Stdio
begin

text \<open>
  The two queries over the hash tables: findPayments on the sender table and findEarnings on the
  receiver table (SysPro_Project1/src/hashTable.c).  The text they print is their result.  They
  collect the lines in a temporary file, which is read back up to a byte 255; whether it could be opened and whether the removal of
  "./.tmp" succeeded comes from outside and is an argument.
\<close>

section \<open>The restriction on date and time\<close>

text \<open>
  start = 0 means no restriction.  A start on 1 January 1970 means a restriction on the time of day
  only; then start may be later than the end.
\<close>

definition wrapped_window :: "tm \<Rightarrow> tm \<Rightarrow> tm \<Rightarrow> bool" where
  "wrapped_window startTM endTM transTime \<longleftrightarrow>
     (tm_hour transTime < tm_hour startTM \<and> tm_hour transTime < tm_hour endTM) \<or>
     ((tm_hour transTime = tm_hour startTM \<and> tm_min transTime > tm_hour startTM) \<or>
      (tm_hour transTime = tm_hour endTM \<and> tm_min transTime < tm_min endTM))"

definition plain_window :: "tm \<Rightarrow> tm \<Rightarrow> tm \<Rightarrow> bool" where
  "plain_window startTM endTM transTime \<longleftrightarrow>
     (tm_hour transTime > tm_hour startTM \<and> tm_hour transTime < tm_hour endTM) \<or>
     ((tm_hour transTime = tm_hour startTM \<and> tm_min transTime > tm_hour startTM) \<or>
      (tm_hour transTime = tm_hour endTM \<and> tm_min transTime < tm_min endTM))"

definition query_match :: "int \<Rightarrow> int \<Rightarrow> int \<Rightarrow> bool" where
  "query_match start e tt =
     (if start = 0 then True
      else
        let startTM = gmtime start; endTM = gmtime e in
        if tm_mday startTM = 1 \<and> tm_mon startTM = 0 \<and> tm_year startTM = 70 then
          if start > e then wrapped_window startTM endTM (gmtime tt)
          else if start < e then plain_window startTM endTM (gmtime tt)
          else False
        else start < tt \<and> e > tt)"

section \<open>The reports\<close>

fun report_loop :: "(trans_list \<Rightarrow> string) \<Rightarrow> (int \<Rightarrow> bool) \<Rightarrow> trans_list list \<Rightarrow> nat \<Rightarrow> string \<Rightarrow> nat \<times> string" where
  "report_loop line sel [] tot strings = (tot, strings)"
| "report_loop line sel (t # ts) tot strings =
     (if sel (dateTime (thisTrans t))
      then report_loop line sel ts (size_add tot (tvalue (thisTrans t))) (strings @ line t)
      else report_loop line sel ts tot strings)"

definition trans_line :: "string \<Rightarrow> string \<Rightarrow> transaction \<Rightarrow> string" where
  "trans_line from to t =
     transactionID t @ '' '' @ from @ '' '' @ to @ '' '' @ dec (tvalue t) @ '' ''
     @ strftime_dmy_hm (gmtime (dateTime t)) @ nl"

definition print_report :: "hash_table \<Rightarrow> string \<Rightarrow> (trans_list \<Rightarrow> string) \<Rightarrow> int \<Rightarrow> int \<Rightarrow> bool \<Rightarrow> bool \<Rightarrow> fault + string" where
  "print_report HT walletID line start e tmp_opened tmp_removed =
     and_then (find_item HT walletID) (\<lambda>found.
       case found of
         None \<Rightarrow> ok (''WalletID does not exist.'' @ nl)
       | Some item \<Rightarrow>
           if item_trans item = [] then ok (''Sum = 0.'' @ nl)
           else if \<not> tmp_opened then ok (''Temporary file cannot be created.'' @ nl)
           else
             let (tot, strings) = report_loop line (query_match start e) (item_trans item) 0 '''' in
             ok (dec tot @ nl @ takeWhile (\<lambda>c. c \<noteq> EOF_CHAR) strings @ nl
                 @ (if tmp_removed then ''Unable to delete temporary file.'' @ nl else '''')))"

definition findPayments :: "(nat \<Rightarrow> string) \<Rightarrow> hash_table \<Rightarrow> string \<Rightarrow> int \<Rightarrow> int \<Rightarrow> bool \<Rightarrow> bool \<Rightarrow> fault + string" where
  "findPayments wid HT walletID start e tmp_opened tmp_removed =
     print_report HT walletID (\<lambda>t. trans_line walletID (wid (sourceDestWallet t)) (thisTrans t))
       start e tmp_opened tmp_removed"

definition findEarnings :: "(nat \<Rightarrow> string) \<Rightarrow> hash_table \<Rightarrow> string \<Rightarrow> int \<Rightarrow> int \<Rightarrow> bool \<Rightarrow> bool \<Rightarrow> fault + string" where
  "findEarnings wid HT walletID start e tmp_opened tmp_removed =
     print_report HT walletID (\<lambda>t. trans_line (wid (sourceDestWallet t)) walletID (thisTrans t))
       start e tmp_opened tmp_removed"

section \<open>What a report contains\<close>

lemma report_loop_eq:
  "tot < SIZE_MOD \<Longrightarrow> report_loop line sel ts tot strings =
    ((tot + (\<Sum>t \<leftarrow> filter (\<lambda>t. sel (dateTime (thisTrans t))) ts. tvalue (thisTrans t))) mod SIZE_MOD,
     strings @ concat (map line (filter (\<lambda>t. sel (dateTime (thisTrans t))) ts)))"
proof (induction ts arbitrary: tot strings)
  case (Cons t ts)
  have "size_add tot (tvalue (thisTrans t)) < SIZE_MOD" by (simp add: size_add_def)
  then show ?case
    using Cons by (simp add: size_add_def mod_add_left_eq add.assoc)
qed simp

lemma print_report_present:
  assumes "table_ok HT" "table_lookup HT walletID \<noteq> []"
  shows "print_report HT walletID line start e True tmp_removed =
    ok (dec ((\<Sum>t \<leftarrow> filter (\<lambda>t. query_match start e (dateTime (thisTrans t))) (table_lookup HT walletID).
                tvalue (thisTrans t)) mod SIZE_MOD) @ nl
        @ takeWhile (\<lambda>c. c \<noteq> EOF_CHAR)
            (concat (map line (filter (\<lambda>t. query_match start e (dateTime (thisTrans t))) (table_lookup HT walletID))))
        @ nl @ (if tmp_removed then ''Unable to delete temporary file.'' @ nl else ''''))"
proof -
  obtain it where "find_item HT walletID = ok (Some it)" "item_trans it = table_lookup HT walletID"
    using find_item_present [OF assms] by blast
  then show ?thesis using assms(2) by (simp add: print_report_def report_loop_eq)
qed

lemma print_report_crash:
  assumes "table_ok HT" "table_lookup HT walletID = []"
    and "item_walletID (hd (Table HT ! slot HT walletID)) \<noteq> None"
    and "\<exists>it \<in> set (Table HT ! slot HT walletID). item_walletID it = None"
  shows "print_report HT walletID line start e opened removed = crash NullDeref"
  using find_item_absent [OF assms(1,2)] assms(3,4) by (simp add: print_report_def)

section \<open>Restrictions\<close>

lemma query_match_unrestricted [simp]: "query_match 0 e tt"
  by (simp add: query_match_def)

lemma epoch_day:
  "tm_mday (gmtime t) = 1 \<and> tm_mon (gmtime t) = 0 \<and> tm_year (gmtime t) = 70 \<longleftrightarrow> 0 \<le> t \<and> t < 86400"
proof
  assume d: "tm_mday (gmtime t) = 1 \<and> tm_mon (gmtime t) = 0 \<and> tm_year (gmtime t) = 70"
  have "t = timegm (gmtime t)" by (simp add: timegm_gmtime)
  also have "\<dots> = tm_hour (gmtime t) * 3600 + tm_min (gmtime t) * 60 + tm_sec (gmtime t)"
    using d by (simp add: timegm_def days_before_1970 days_before_month_def)
  finally show "0 \<le> t \<and> t < 86400"
    using gmtime_valid [of t] by (simp add: tm_valid_def)
next
  assume "0 \<le> t \<and> t < 86400"
  then have "t div 86400 = 0" by simp
  moreover have "year_of 1970 0 = (1970, 0)" by (simp add: year_of.simps [of 1970 0] year_len_def is_leap_def)
  moreover have "month_of l 0 0 = (0, 0)" for l by (simp add: month_of.simps [of l 0 0] month_len_def)
  ultimately show "tm_mday (gmtime t) = 1 \<and> tm_mon (gmtime t) = 0 \<and> tm_year (gmtime t) = 70"
    by (simp add: gmtime_def)
qed

lemma query_match_dates:
  "86400 \<le> start \<Longrightarrow> query_match start e tt \<longleftrightarrow> start < tt \<and> tt < e"
  using epoch_day [of start] by (auto simp: query_match_def Let_def)

lemma query_match_times:
  "0 < start \<Longrightarrow> start < 86400 \<Longrightarrow> query_match start e tt \<longleftrightarrow>
     (if start > e then wrapped_window (gmtime start) (gmtime e) (gmtime tt)
      else start < e \<and> plain_window (gmtime start) (gmtime e) (gmtime tt))"
  using epoch_day [of start] by (auto simp: query_match_def Let_def)

lemma gmtime_hour: "tm_hour (gmtime t) = t mod 86400 div 3600"
  by (simp add: gmtime_def Let_def split: prod.splits)

lemma gmtime_min: "tm_min (gmtime t) = t mod 86400 mod 3600 div 60"
  by (simp add: gmtime_def Let_def split: prod.splits)

section \<open>Properties\<close>

definition busy_HT :: hash_table where
  "busy_HT = \<lparr> Table = [[\<lparr> item_walletID = Some ''A'', item_trans = [one_item] \<rparr>, empty_item]],
               numOfEntries = 1, bucketSize = 64 \<rparr>"

lemma busy_HT_ok:
  "table_ok busy_HT \<and> table_lookup busy_HT ''A'' = [one_item] \<and> table_lookup busy_HT ''B'' = []"
proof -
  have slot: "slot busy_HT k = 0" for k by (simp add: slot_def busy_HT_def)
  show ?thesis unfolding table_ok_def table_lookup_def slot
    by (simp add: busy_HT_def chain_ok_def sizeof_HashedItem_def empty_item_def)
qed

text \<open>
  For a wallet that has received something, findEarnings prints the sum of the selected
  transactions (modulo 2 to the 64) followed by one line per selected transaction, in the order in
  which they were made (cut at a byte 255, which the copying loop takes for the end of the file).
\<close>

theorem earnings_report:
  assumes "table_ok HT" "table_lookup HT walletID \<noteq> []"
  shows "findEarnings wid HT walletID start e True removed =
    ok (dec (sum_list (map (\<lambda>t. tvalue (thisTrans t))
               (filter (\<lambda>t. query_match start e (dateTime (thisTrans t))) (table_lookup HT walletID))) mod SIZE_MOD) @ nl
        @ takeWhile (\<lambda>c. c \<noteq> EOF_CHAR) (concat (map (\<lambda>t. trans_line (wid (sourceDestWallet t)) walletID (thisTrans t))
            (filter (\<lambda>t. query_match start e (dateTime (thisTrans t))) (table_lookup HT walletID))))
        @ nl @ (if removed then ''Unable to delete temporary file.'' @ nl else ''''))"
  unfolding findEarnings_def using print_report_present [OF assms] by simp

theorem earnings_report_witness:
  "findEarnings (\<lambda>p. ''B'') busy_HT ''A'' 0 0 True False
    = ok (dec 20 @ nl @ takeWhile (\<lambda>c. c \<noteq> EOF_CHAR) (trans_line ''B'' ''A'' (thisTrans one_item)) @ nl)"
  using earnings_report [of busy_HT "''A''" "\<lambda>p. ''B''" 0 0 False] busy_HT_ok
  by (simp add: one_item_def SIZE_MOD_def)

text \<open>
  A query for a wallet without transactions dereferences NULL when the wallet's table entry is
  in use by another wallet and its chain still has an unused record; with an unused entry it
  reports that the wallet does not exist.
\<close>

theorem payments_of_idle_wallet:
  assumes "table_ok HT" "table_lookup HT walletID = []"
  shows "findPayments wid HT walletID start e opened removed =
    (if item_walletID (hd (Table HT ! slot HT walletID)) \<noteq> None
        \<and> (\<exists>it \<in> set (Table HT ! slot HT walletID). item_walletID it = None) then crash NullDeref
     else ok (''WalletID does not exist.'' @ nl))"
  using find_item_absent [OF assms] by (simp add: findPayments_def print_report_def)

theorem payments_of_idle_wallet_witness:
  "findPayments (\<lambda>p. ''B'') busy_HT ''B'' 0 0 True True = crash NullDeref"
proof -
  have "slot busy_HT ''B'' = 0" by (simp add: slot_def busy_HT_def)
  then show ?thesis
    using payments_of_idle_wallet [of busy_HT "''B''" "\<lambda>p. ''B''" 0 0 True True] busy_HT_ok
    by (simp add: busy_HT_def empty_item_def)
qed

text \<open>
  A query with two dates selects the transactions strictly between them; a query with a start
  on 1 January 1970 is taken as a time of day, and then the hours strictly between the two hours
  match whatever the day, while within the start's hour the minutes are compared with the start's
  hour instead of its minutes.
\<close>

theorem query_selects:
  "(86400 \<le> start \<longrightarrow> (query_match start e tt \<longleftrightarrow> start < tt \<and> tt < e)) \<and>
   (0 < start \<and> start < e \<and> e < 86400 \<longrightarrow>
     (start div 3600 < tt mod 86400 div 3600 \<and> tt mod 86400 div 3600 < e div 3600 \<longrightarrow> query_match start e tt) \<and>
     (tt mod 86400 div 3600 = start div 3600 \<and> start div 3600 < tt mod 86400 mod 3600 div 60 \<longrightarrow> query_match start e tt))"
  by (auto simp: query_match_dates query_match_times plain_window_def gmtime_hour gmtime_min)

theorem query_selects_witness:
  "query_match (13 * 3600 + 30 * 60) (21 * 3600 + 54 * 60) (13 * 3600 + 20 * 60)"
  using query_selects [of "13 * 3600 + 30 * 60" "21 * 3600 + 54 * 60" "13 * 3600 + 20 * 60"] by simp

end
