(* ===== verification/Transaction.thy ===== *)
theory Transaction
  imports Wallet Queries Stdio
begin

text \<open>
  Transactions (SysPro_Project1/src/transaction.c): the global state of the program, the generation
  of IDs, the execution of a requested transaction and the reading of the transactions file.
\<close>

section \<open>State\<close>

record sys =
  the_bank :: bank
  sorted_wallets :: "nat list"
  senderHT :: hash_table
  receiverHT :: hash_table
  maxID :: string
  lastDateTime :: int

definition MAX_ID :: nat where "MAX_ID = 15"

section \<open>newID\<close>

text \<open>
  One pass of the loop body: the changed array and index, or None where the code returns NULL.
\<close>

definition new_step :: "bytes \<Rightarrow> nat \<Rightarrow> fault + (bytes \<times> nat) option" where
  "new_step new index =
     (if index \<ge> length new then crash BadIndex
      else case new ! index of
        None \<Rightarrow> crash Uninitialised
      | Some c \<Rightarrow>
          if schar c < 48 then ok (Some (new[index := Some (CHR ''0'')], index))
          else if schar c < 126 then ok (Some (new[index := Some (char_of (char_code c + 1))], index))
          else if index < 14 then ok (Some (new, index + 1))
          else ok None)"

partial_function (option) new_loop :: "string \<Rightarrow> bytes \<Rightarrow> nat \<Rightarrow> (fault + bytes option) option" where
  "new_loop mx new index =
     (case new_step new index of
        Inl e \<Rightarrow> Some (crash e)
      | Inr None \<Rightarrow> Some (ok None)
      | Inr (Some (new, index)) \<Rightarrow>
          (case same_str mx new of
             Inl e \<Rightarrow> Some (crash e)
           | Inr same \<Rightarrow> if same then new_loop mx new index else Some (ok (Some new))))"

text \<open>The new ID, NULL or a string, and the new maxID.\<close>

definition newID :: "string \<Rightarrow> (fault + string option \<times> string) option" where
  "newID mx =
     run_then (Some (write_str MAX_ID mx)) (\<lambda>new.
     run_then (new_loop mx new 0) (\<lambda>res.
       case res of
         None \<Rightarrow> Some (ok (None, mx))
       | Some new \<Rightarrow> Some (and_then (read_str new) (\<lambda>s. ok (Some s, s)))))"

section \<open>Executing a transaction\<close>

text \<open>
  The calls both requestTransaction and transactionsInitialization make once a transaction is
  accepted: the two hash tables, then the wallets and coins with the item of the sender's table.
\<close>

definition post_transaction :: "sys \<Rightarrow> nat \<Rightarrow> nat \<Rightarrow> transaction \<Rightarrow> (fault + sys) option" where
  "post_transaction s sndr rcvr t =
     run_then (Some (addTransaction (wid (the_bank s)) (senderHT s) sndr rcvr t)) (\<lambda>(sentTransaction, sHT).
     run_then (Some (addTransaction (wid (the_bank s)) (receiverHT s) rcvr sndr t)) (\<lambda>(_, rHT).
     run_then (makeTransaction (the_bank s) sndr rcvr (tvalue t) sentTransaction) (\<lambda>b.
       Some (ok (s\<lparr>the_bank := b, senderHT := sHT, receiverHT := rHT\<rparr>)))))"

abbreviation find_wallet :: "sys \<Rightarrow> string \<Rightarrow> fault + nat option" where
  "find_wallet s \<equiv> findWallet (wid (the_bank s)) (length (wallets (the_bank s))) (sorted_wallets s)"

text \<open>The argument now is what time(NULL) returns.  The result is the new state and the output.\<close>

definition requestTransaction ::
    "int \<Rightarrow> string \<Rightarrow> string \<Rightarrow> nat \<Rightarrow> int \<Rightarrow> sys \<Rightarrow> (fault + sys \<times> string) option" where
  "requestTransaction now sndrID rcvrID amount dtime s =
     (if strcmp sndrID rcvrID = 0
      then Some (ok (s, ''Transactions from and to the same Wallet ID cannot be completed.'' @ nl))
      else if dtime \<noteq> 0 \<and> dtime - lastDateTime s < 0
      then Some (ok (s, ''Invalid transaction date/time'' @ nl))
      else
        let dtime = (if dtime = 0 then now + 7200 else dtime) in
        run_then (Some (find_wallet s sndrID)) (\<lambda>sndr. case sndr of
          None \<Rightarrow> Some (ok (s, ''SenderWalletID does not exist.'' @ nl))
        | Some sndr \<Rightarrow>
          run_then (Some (find_wallet s rcvrID)) (\<lambda>rcvr. case rcvr of
            None \<Rightarrow> Some (ok (s, ''ReceiverWalletID does not exist.'' @ nl))
          | Some rcvr \<Rightarrow>
            if \<not> senderHasEnough (wallets (the_bank s) ! sndr) amount
            then Some (ok (s, ''SenderWalletID does not have enough credits.'' @ nl))
            else
              run_then (newID (maxID s)) (\<lambda>(transID, mx). case transID of
                None \<Rightarrow> Some (ok (s, ''Cannot add more transactions due to ID limitations.'' @ nl))
              | Some transID \<Rightarrow>
                run_then (post_transaction (s\<lparr>maxID := mx\<rparr>) sndr rcvr
                    \<lparr> transactionID = transID, tvalue = amount, dateTime = dtime \<rparr>) (\<lambda>s.
                  Some (ok (s\<lparr>lastDateTime := dtime\<rparr>,
                    ''Successfuly transferred '' @ dec amount @ '' $ from '' @ wid (the_bank s) sndr @ '' to ''
                    @ wid (the_bank s) rcvr @ '' on '' @ strftime_dmy_hm (gmtime dtime) @ ''.'' @ nl)))))))"

section \<open>The transactions file\<close>

fun checkIfTransExists :: "string option list \<Rightarrow> nat \<Rightarrow> string \<Rightarrow> bool" where
  "checkIfTransExists transIDs 0 transID = False"
| "checkIfTransExists [] (Suc n) transID = False"
| "checkIfTransExists (t # ts) (Suc n) transID =
     (case t of
        Some s \<Rightarrow> if strcmp s transID = 0 then True else checkIfTransExists ts n transID
      | None \<Rightarrow> checkIfTransExists ts n transID)"

fun count_lines :: "string \<Rightarrow> bool \<Rightarrow> nat \<Rightarrow> bool \<times> nat" where
  "count_lines [] flag n = (flag, n)"
| "count_lines (c # cs) flag n =
     (if c = EOF_CHAR then (flag, n) else count_lines cs True (if c = CHR 0x0A then n + 1 else n))"

definition findNumOfTransactions :: "string \<Rightarrow> nat" where
  "findNumOfTransactions file =
     (let (flag, transactions) = count_lines file False 0
      in if \<not> flag then 0 else if transactions = 0 then 1 else transactions + 1)"

text \<open>
  The variables of transactionsInitialization that live across the lines: a read that fails leaves
  them as they were.  A buffer never written is None.
\<close>

record reader =
  file_rest :: string
  transIDs :: "string option list"
  r_sender :: "string option"
  r_receiver :: "string option"
  tmpValue :: nat
  tmpDateTimeTM :: tm
  tmpDateTime :: int

text \<open>A buffer after fscanf: a failed read keeps the old content.\<close>

definition scanned :: "string option \<Rightarrow> string option \<Rightarrow> fault + string" where
  "scanned old new = (case new of Some s \<Rightarrow> ok s | None \<Rightarrow> (case old of Some s \<Rightarrow> ok s | None \<Rightarrow> crash Uninitialised))"

definition read_date :: "reader \<Rightarrow> fault + reader" where
  "read_date r =
     (let t = tmpDateTimeTM r;
          (mday, s) = fscanf_d (CHR ''-'') (file_rest r) (tm_mday t);
          (mon, s) = fscanf_d (CHR ''-'') s (tm_mon t)
      in and_then (int_minus mon 1) (\<lambda>mon.
        let (year, s) = fscanf_d (CHR '' '') s (tm_year t)
        in and_then (int_minus year 1900) (\<lambda>year.
          let (hour, s) = fscanf_d (CHR '':'') s (tm_hour t);
              (minute, s) = fscanf_d (CHR '' '') s (tm_min t);
              t = t\<lparr>tm_mday := mday, tm_mon := mon, tm_year := year, tm_hour := hour, tm_min := minute\<rparr>
          in ok (r\<lparr>file_rest := s, tmpDateTimeTM := t, tmpDateTime := timegm t\<rparr>))))"

text \<open>
  One pass of the loop for line i.  The result says whether the loop goes on; the last step, the
  update of maxID, is reached only by an accepted transaction.
\<close>

definition skip_rest :: "reader \<Rightarrow> reader" where
  "skip_rest r = r\<lparr>file_rest := skip_line (file_rest r)\<rparr>"

definition update_maxID :: "sys \<Rightarrow> string \<Rightarrow> fault + sys" where
  "update_maxID s tmpID =
     (if strcmp (maxID s) tmpID < 0
      then if length tmpID \<ge> MAX_ID then crash BadIndex else ok (s\<lparr>maxID := tmpID\<rparr>)
      else ok s)"

definition line_transaction ::
    "nat \<Rightarrow> nat \<Rightarrow> string \<Rightarrow> string \<Rightarrow> sys \<Rightarrow> reader \<Rightarrow> (fault + sys \<times> reader \<times> string) option" where
  "line_transaction i sndr tmpID sender s r =
     run_then (Some (fscanf_s 64 (file_rest r))) (\<lambda>(rcv, rest).
     run_then (Some (scanned (r_receiver r) rcv)) (\<lambda>receiver.
       let r = r\<lparr>file_rest := rest, r_receiver := Some receiver\<rparr> in
       run_then (Some (find_wallet s receiver)) (\<lambda>rcvr. case rcvr of
         None \<Rightarrow> Some (ok (s, skip_rest r, ''receiverWalletID on line '' @ dec (i + 1) @ '' does not exist'' @ nl))
       | Some rcvr \<Rightarrow>
           if strcmp sender receiver \<noteq> 0 then
             let (v, rest) = fscanf_lu (file_rest r) (tmpValue r);
                 r = r\<lparr>file_rest := rest, tmpValue := v, transIDs := (transIDs r)[i := Some tmpID]\<rparr>
             in if senderHasEnough (wallets (the_bank s) ! sndr) v then
                  run_then (Some (read_date r)) (\<lambda>r.
                  run_then (post_transaction s sndr rcvr
                      \<lparr> transactionID = tmpID, tvalue = v, dateTime = tmpDateTime r \<rparr>) (\<lambda>s.
                  run_then (Some (update_maxID s tmpID)) (\<lambda>s. Some (ok (s, r, [])))))
                else
                  Some (ok (s, skip_rest (r\<lparr>transIDs := (transIDs r)[i := None]\<rparr>),
                    ''Sender '' @ sender @ '' does not have enough credits to make transaction '' @ tmpID @ ''.'' @ nl))
           else
             Some (ok (s, skip_rest r, ''Transaction on line '' @ dec (i + 1) @ '' is not valid and will be skipped.'' @ nl)))))"

definition read_line :: "nat \<Rightarrow> sys \<Rightarrow> reader \<Rightarrow> (fault + bool \<times> sys \<times> reader \<times> string) option" where
  "read_line i s r =
     run_then (Some (fscanf_s 64 (file_rest r))) (\<lambda>(tok, rest). case tok of
       None \<Rightarrow> Some (ok (False, s, r\<lparr>file_rest := rest\<rparr>, []))
     | Some tmpID \<Rightarrow>
       run_then (Some (fscanf_s 64 rest)) (\<lambda>(snd, rest).
       run_then (Some (scanned (r_sender r) snd)) (\<lambda>sender.
         let r = r\<lparr>file_rest := rest, r_sender := Some sender\<rparr> in
         run_then (Some (find_wallet s sender)) (\<lambda>sndr. case sndr of
           None \<Rightarrow> Some (ok (True, s, skip_rest r,
                     ''senderWalletID '' @ sender @ '' on line '' @ dec (i + 1) @ '' does not exist'' @ nl))
         | Some sndr \<Rightarrow>
             if \<not> checkIfTransExists (transIDs r) i tmpID then
               run_then (line_transaction i sndr tmpID sender s r) (\<lambda>(s, r, out). Some (ok (True, s, r, out)))
             else
               Some (ok (True, s, skip_rest r,
                 ''Transaction on line '' @ dec (i + 1) @ '' is not valid and will be skipped.'' @ nl))))))"

text \<open>The for loop: k more lines, from line i on.\<close>

fun read_lines :: "nat \<Rightarrow> nat \<Rightarrow> sys \<Rightarrow> reader \<Rightarrow> string \<Rightarrow> (fault + sys \<times> reader \<times> string) option" where
  "read_lines 0 i s r out = Some (ok (s, r, out))"
| "read_lines (Suc k) i s r out =
     run_then (read_line i s r) (\<lambda>(go, s, r, msg).
       if go then read_lines k (i + 1) s r (out @ msg) else Some (ok (s, r, out)))"

text \<open>
  The content of the file, or None when it cannot be opened.  The first result is the int the
  function returns.
\<close>

definition transactionsInitialization ::
    "string \<Rightarrow> string option \<Rightarrow> sys \<Rightarrow> (fault + nat \<times> sys \<times> string) option" where
  "transactionsInitialization transactionsFile file s =
     (case file of
        None \<Rightarrow> Some (ok (1, s, ''File: '' @ transactionsFile @ '' was not read properly. Program is terminated.'' @ nl))
      | Some contents \<Rightarrow>
          let n = findNumOfTransactions contents in
          if n = 0 then Some (ok (1, s, ''No transactions found on transactionsFile. Program is terminated.'' @ nl))
          else
            run_then (read_lines n 0 s
                \<lparr> file_rest = contents, transIDs = replicate n None, r_sender = None, r_receiver = None,
                  tmpValue = 0, tmpDateTimeTM = tm_zero, tmpDateTime = 0 \<rparr> [])
              (\<lambda>(s, r, out). Some (ok (0, s\<lparr>lastDateTime := tmpDateTime r\<rparr>, out))))"

section \<open>newID gives a greater ID\<close>

lemma list_update_greater: "i < length xs \<Longrightarrow> xs ! i < c \<Longrightarrow> xs < xs[i := (c :: char)]"
proof (induction xs arbitrary: i)
  case (Cons x xs)
  then show ?case by (cases i) (auto simp: Cons_less_Cons)
qed simp

definition ascii :: "string \<Rightarrow> bool" where "ascii s \<longleftrightarrow> (\<forall>c \<in> set s. 0 < char_code c \<and> char_code c < 128)"

lemma char_code_of: "n < 256 \<Longrightarrow> char_code (char_of n) = n"
  by (simp add: char_code_def)

lemma schar_code: "char_code c < 128 \<Longrightarrow> schar c = int (char_code c)"
  using of_nat_of_char [of c, where ?'a = int] by (simp add: schar_def char_code_def Let_def)

lemma char_code_less: "c < d \<longleftrightarrow> char_code c < char_code d"
  by (simp add: less_char_def char_code_def)

lemma char_code_NUL: "char_code c = 0 \<longleftrightarrow> c = NUL"
proof
  assume "char_code c = 0"
  then have "(of_char c :: nat) = of_char NUL" by (simp add: char_code_def)
  then show "c = NUL" by (simp only: of_char_eq_iff)
qed (simp add: char_code_def)

lemma ascii_c_string: "ascii s \<Longrightarrow> c_string s"
  by (auto simp: ascii_def c_string_def char_code_def)

text \<open>The character newID puts in place of one before the last printable one\<close>

definition next_char :: "char \<Rightarrow> char" where
  "next_char c = (if char_code c < 48 then CHR ''0'' else char_of (char_code c + 1))"

lemma next_char_code: "char_code c < 126 \<Longrightarrow> char_code c < char_code (next_char c) \<and> char_code (next_char c) \<le> 126"
  by (simp add: next_char_def char_code_of) (simp add: char_code_def)

definition first_low :: "string \<Rightarrow> nat" where
  "first_low s = length (takeWhile (\<lambda>c. char_code c \<ge> 126) s)"

lemma first_low_less:
  assumes "\<exists>c \<in> set s. char_code c < 126"
  shows "first_low s < length s" "char_code (s ! first_low s) < 126"
proof -
  have "takeWhile (\<lambda>c. char_code c \<ge> 126) s \<noteq> s"
    using assms by (auto simp: takeWhile_eq_all_conv not_le)
  then show less: "first_low s < length s"
    unfolding first_low_def by (metis length_takeWhile_le le_neq_implies_less take_all_iff takeWhile_eq_take)
  then show "char_code (s ! first_low s) < 126"
    using nth_length_takeWhile [of "\<lambda>c. 126 \<le> char_code c" s] by (simp add: first_low_def)
qed

lemma new_loop_finds:
  assumes mx: "ascii mx" "length mx < MAX_ID"
    and new: "write_str MAX_ID mx = ok new"
    and low: "\<exists>c \<in> set mx. char_code c < 126"
    and j: "j \<le> first_low mx"
  shows "new_loop mx new j = Some (ok (Some (new[first_low mx := Some (next_char (mx ! first_low mx))])))"
  using j
proof (induction "first_low mx - j" arbitrary: j)
  case 0
  note len = first_low_less(1) [OF low]
  let ?c = "mx ! first_low mx"
  note lt = first_low_less(2) [OF low]
  have new': "new = map Some mx @ Some NUL # replicate (14 - length mx) None"
    using new mx by (simp add: write_str_def MAX_ID_def)
  have nth: "new ! first_low mx = Some ?c" and ln: "first_low mx < length new" using len new' by (simp_all add: nth_append)
  have upd: "new[first_low mx := Some (next_char ?c)]
      = map Some (mx[first_low mx := next_char ?c]) @ Some NUL # replicate (14 - length mx) None"
    using len new' by (simp add: list_update_append map_update)
  have "ascii (mx[first_low mx := next_char ?c])"
    using mx(1) next_char_code [OF lt] set_update_subset_insert [of mx "first_low mx" "next_char ?c"] by (force simp: ascii_def)
  then have "same_str mx (new[first_low mx := Some (next_char ?c)]) = ok (mx = mx[first_low mx := next_char ?c])"
    unfolding upd using mx by (intro same_str_written ascii_c_string)
  moreover have "mx < mx[first_low mx := next_char ?c]"
    using next_char_code [OF lt] len by (intro list_update_greater) (simp_all add: char_code_less)
  ultimately have "same_str mx (new[first_low mx := Some (next_char ?c)]) = ok False" by force
  moreover have "new_step new (first_low mx) = ok (Some (new[first_low mx := Some (next_char ?c)], first_low mx))"
    using nth ln lt by (simp add: new_step_def next_char_def schar_code)
  moreover have "j = first_low mx" using 0 by simp
  ultimately show ?case by (simp add: new_loop.simps)
next
  case (Suc n)
  have len: "j < length mx" using Suc.hyps(2) unfolding first_low_def
    by (metis length_takeWhile_le less_le_trans zero_less_Suc zero_less_diff)
  have hi: "char_code (mx ! j) \<ge> 126"
    using Suc.hyps(2) by (metis first_low_def nth_mem set_takeWhileD takeWhile_nth zero_less_Suc zero_less_diff)
  have "mx ! j \<in> set mx" using len by simp
  then have asc: "char_code (mx ! j) < 128" using mx(1) by (simp add: ascii_def)
  have new': "new = map Some mx @ Some NUL # replicate (14 - length mx) None"
    using new mx by (simp add: write_str_def MAX_ID_def)
  have nth: "new ! j = Some (mx ! j)" and ln: "j < length new" using len new' by (simp_all add: nth_append)
  have "new_step new j = ok (Some (new, j + 1))"
    using nth ln hi asc len mx(2) by (simp add: new_step_def schar_code MAX_ID_def)
  moreover have "same_str mx new = ok True" using mx(1) unfolding new' by (simp add: same_str_written ascii_c_string)
  ultimately have "new_loop mx new j = new_loop mx new (j + 1)" by (simp add: new_loop.simps [of mx new j])
  also have "\<dots> = Some (ok (Some (new[first_low mx := Some (next_char (mx ! first_low mx))])))"
    using Suc.hyps by (intro Suc.hyps(1)) auto
  finally show ?case .
qed

lemma newID_greater:
  assumes "ascii mx" "length mx < MAX_ID" "\<exists>c \<in> set mx. char_code c < 126"
  shows "\<exists>new. newID mx = Some (ok (Some new, new)) \<and> mx < new \<and> length new = length mx \<and> ascii new"
proof -
  let ?i = "first_low mx"
  let ?new = "mx[?i := next_char (mx ! ?i)]"
  note len = first_low_less(1) [OF assms(3)] and lt = first_low_less(2) [OF assms(3)]
  obtain new where new: "write_str MAX_ID mx = ok new" using assms(2) by (simp add: write_str_def)
  have "ascii ?new"
    using assms(1) next_char_code [OF lt] set_update_subset_insert [of mx ?i "next_char (mx ! ?i)"] by (force simp: ascii_def)
  moreover have "new[?i := Some (next_char (mx ! ?i))] = map Some ?new @ Some NUL # replicate (14 - length mx) None"
    using len new assms(2) by (auto simp: write_str_def MAX_ID_def list_update_append map_update)
  ultimately have "read_str (new[?i := Some (next_char (mx ! ?i))]) = ok ?new"
    by (simp add: read_str_written ascii_c_string)
  with new_loop_finds [OF assms(1,2) new assms(3), of 0] new
  have "newID mx = Some (ok (Some ?new, ?new))" by (simp add: newID_def)
  moreover have "mx < ?new"
    using next_char_code [OF lt] len by (intro list_update_greater) (simp_all add: char_code_less)
  ultimately show ?thesis using \<open>ascii ?new\<close> by simp
qed

section \<open>The invariant of the whole state\<close>

definition sys_ok :: "sys \<Rightarrow> bool" where
  "sys_ok s \<longleftrightarrow> bank_ok (the_bank s) \<and> table_ok (senderHT s) \<and> table_ok (receiverHT s)
     \<and> sorted_by (wid (the_bank s)) (sorted_wallets s)
     \<and> mset (sorted_wallets s) = mset [0..<length (wallets (the_bank s))]
     \<and> 0 < length (wallets (the_bank s)) \<and> length (wallets (the_bank s)) \<le> 2 ^ 30"

text \<open>What the hash tables say a wallet has sent and received.\<close>

definition total_of :: "trans_list list \<Rightarrow> nat" where
  "total_of ts = (\<Sum>t \<leftarrow> ts. tvalue (thisTrans t))"

definition sent :: "sys \<Rightarrow> nat \<Rightarrow> nat" where
  "sent s p = total_of (table_lookup (senderHT s) (wid (the_bank s) p))"

definition received :: "sys \<Rightarrow> nat \<Rightarrow> nat" where
  "received s p = total_of (table_lookup (receiverHT s) (wid (the_bank s) p))"

text \<open>The balances are what the recorded transactions make of the initial ones.\<close>

definition explained :: "(nat \<Rightarrow> nat) \<Rightarrow> sys \<Rightarrow> bool" where
  "explained start s \<longleftrightarrow> (\<forall>p < length (wallets (the_bank s)).
     balances (the_bank s) ! p + sent s p = start p + received s p)"

definition evolves :: "sys \<Rightarrow> sys \<Rightarrow> bool" where
  "evolves s s' \<longleftrightarrow> sys_ok s' \<and> wid (the_bank s') = wid (the_bank s)
     \<and> length (wallets (the_bank s')) = length (wallets (the_bank s))
     \<and> sorted_wallets s' = sorted_wallets s
     \<and> worths (the_bank s') = worths (the_bank s)
     \<and> sum_list (balances (the_bank s')) = sum_list (balances (the_bank s))
     \<and> (\<forall>start. explained start s \<longrightarrow> explained start s')"

lemma evolves_refl: "sys_ok s \<Longrightarrow> evolves s s" by (simp add: evolves_def)

lemma evolves_trans: "evolves s s1 \<Longrightarrow> evolves s1 s2 \<Longrightarrow> evolves s s2" by (simp add: evolves_def)

lemma evolves_globals [simp]: "evolves s (s'\<lparr>maxID := mx\<rparr>) = evolves s s'"
  "evolves s (s'\<lparr>lastDateTime := d\<rparr>) = evolves s s'" "evolves (s\<lparr>maxID := mx\<rparr>) s' = evolves s s'"
  by (simp_all add: evolves_def sys_ok_def explained_def sent_def received_def)

lemma sys_ok_globals [simp]: "sys_ok (s\<lparr>maxID := mx\<rparr>) = sys_ok s" "sys_ok (s\<lparr>lastDateTime := d\<rparr>) = sys_ok s"
  by (simp_all add: sys_ok_def)

lemma find_wallet_ok:
  assumes "sys_ok s"
  shows "\<exists>res. find_wallet s key = ok res \<and>
    (case res of Some p \<Rightarrow> p < length (wallets (the_bank s)) \<and> wid (the_bank s) p = key
     | None \<Rightarrow> \<forall>p < length (wallets (the_bank s)). wid (the_bank s) p \<noteq> key)"
proof -
  let ?n = "length (wallets (the_bank s))"
  have m: "mset (sorted_wallets s) = mset [0..<?n]" and st: "sorted_by (wid (the_bank s)) (sorted_wallets s)"
    and n: "0 < ?n" "?n \<le> 2 ^ 30" using assms by (simp_all add: sys_ok_def)
  have len: "length (sorted_wallets s) = ?n" and set: "set (sorted_wallets s) = {0..<?n}"
    using mset_eq_length [OF m] mset_eq_setD [OF m] by simp_all
  obtain res where "find_wallet s key = ok res" and res: "case res of
      Some p \<Rightarrow> p \<in> {0..<?n} \<and> wid (the_bank s) p = key | None \<Rightarrow> \<forall>p \<in> {0..<?n}. wid (the_bank s) p \<noteq> key"
    using findWallet_correct [of "wid (the_bank s)" "sorted_wallets s" key] st n unfolding len set by blast
  moreover from res have "case res of Some p \<Rightarrow> p < ?n \<and> wid (the_bank s) p = key
      | None \<Rightarrow> \<forall>p < ?n. wid (the_bank s) p \<noteq> key" by (cases res) auto
  ultimately show ?thesis by blast
qed

lemma find_wallet_Some:
  "sys_ok s \<Longrightarrow> find_wallet s key = ok (Some p) \<Longrightarrow> p < length (wallets (the_bank s)) \<and> wid (the_bank s) p = key"
  using find_wallet_ok [of s key] by auto

section \<open>A posted transaction\<close>

definition posted :: "nat \<Rightarrow> nat \<Rightarrow> transaction \<Rightarrow> sys \<Rightarrow> sys \<Rightarrow> bool" where
  "posted sndr rcvr t s s' \<longleftrightarrow> sys_ok s' \<and> wid (the_bank s') = wid (the_bank s)
     \<and> length (wallets (the_bank s')) = length (wallets (the_bank s))
     \<and> balances (the_bank s') = transfer sndr rcvr (tvalue t) (balances (the_bank s))
     \<and> worths (the_bank s') = worths (the_bank s)
     \<and> (\<forall>k. table_lookup (senderHT s') k = table_lookup (senderHT s) k
          @ (if k = wid (the_bank s) sndr then [\<lparr> thisTrans = t, sourceDestWallet = rcvr \<rparr>] else []))
     \<and> (\<forall>k. table_lookup (receiverHT s') k = table_lookup (receiverHT s) k
          @ (if k = wid (the_bank s) rcvr then [\<lparr> thisTrans = t, sourceDestWallet = sndr \<rparr>] else []))
     \<and> sorted_wallets s' = sorted_wallets s \<and> maxID s' = maxID s \<and> lastDateTime s' = lastDateTime s"

lemma post_transaction_posted:
  assumes s: "sys_ok s" and p: "sndr < length (wallets (the_bank s))" "rcvr < length (wallets (the_bank s))" "sndr \<noteq> rcvr"
    and enough: "senderHasEnough (wallets (the_bank s) ! sndr) (tvalue t)"
  shows "\<exists>s'. post_transaction s sndr rcvr t = Some (ok s') \<and> posted sndr rcvr t s s'"
proof -
  let ?w = "wid (the_bank s)"
  have ok: "bank_ok (the_bank s)" "table_ok (senderHT s)" "table_ok (receiverHT s)" using s by (simp_all add: sys_ok_def)
  obtain sHT where sHT: "table_add (senderHT s) (?w sndr) \<lparr> thisTrans = t, sourceDestWallet = rcvr \<rparr> = ok sHT" "table_ok sHT"
      "\<forall>k. table_lookup sHT k = table_lookup (senderHT s) k
         @ (if k = ?w sndr then [\<lparr> thisTrans = t, sourceDestWallet = rcvr \<rparr>] else [])"
    using trans_index.add_ok [OF ok(2)] by blast
  obtain rHT where rHT: "table_add (receiverHT s) (?w rcvr) \<lparr> thisTrans = t, sourceDestWallet = sndr \<rparr> = ok rHT" "table_ok rHT"
      "\<forall>k. table_lookup rHT k = table_lookup (receiverHT s) k
         @ (if k = ?w rcvr then [\<lparr> thisTrans = t, sourceDestWallet = sndr \<rparr>] else [])"
    using trans_index.add_ok [OF ok(3)] by blast
  obtain b where b: "makeTransaction (the_bank s) sndr rcvr (tvalue t) \<lparr> thisTrans = t, sourceDestWallet = rcvr \<rparr> = Some (ok b)"
      "bank_ok b" "balances b = transfer sndr rcvr (tvalue t) (balances (the_bank s))" "worths b = worths (the_bank s)"
      "wid b = ?w" "length (wallets b) = length (wallets (the_bank s))"
    using makeTransaction_transfers [OF ok(1) p enough] by blast
  let ?s = "s\<lparr>the_bank := b, senderHT := sHT, receiverHT := rHT\<rparr>"
  have "post_transaction s sndr rcvr t = Some (ok ?s)"
    using sHT(1) rHT(1) b(1) by (simp add: post_transaction_def addTransaction_def Let_def)
  moreover have "sys_ok ?s" using s sHT(2) rHT(2) b by (simp add: sys_ok_def)
  ultimately show ?thesis using sHT(3) rHT(3) b by (simp add: posted_def)
qed

lemma posted_evolves:
  assumes s: "sys_ok s" and p: "sndr < length (wallets (the_bank s))" "rcvr < length (wallets (the_bank s))" "sndr \<noteq> rcvr"
    and enough: "senderHasEnough (wallets (the_bank s) ! sndr) (tvalue t)"
    and posted: "posted sndr rcvr t s s'"
  shows "evolves s s'"
proof -
  let ?w = "wid (the_bank s)" and ?b = "balances (the_bank s)"
  have len: "length ?b = length (wallets (the_bank s))" by (simp add: balances_def)
  have le: "tvalue t \<le> ?b ! sndr" using enough p by (simp add: balances_def senderHasEnough_def)
  have "distinct (map walletID (wallets (the_bank s)))" using s by (simp add: sys_ok_def bank_ok_def ledger_ok_def)
  then have inj: "?w i = ?w j \<longleftrightarrow> i = j" if "i < length (wallets (the_bank s))" "j < length (wallets (the_bank s))" for i j
    using that by (simp add: distinct_conv_nth) blast
  have w: "wid (the_bank s') x = wid (the_bank s) x" for x using posted by (simp add: posted_def fun_eq_iff)
  have "explained start s'" if "explained start s" for start
    unfolding explained_def
  proof (intro allI impI)
    fix q assume q: "q < length (wallets (the_bank s'))"
    then have q: "q < length (wallets (the_bank s))" using posted by (simp add: posted_def)
    have "sent s' q = sent s q + (if q = sndr then tvalue t else 0)"
      using posted inj [OF q p(1)] by (simp add: w sent_def total_of_def posted_def)
    moreover have "received s' q = received s q + (if q = rcvr then tvalue t else 0)"
      using posted inj [OF q p(2)] by (simp add: w received_def total_of_def posted_def)
    moreover have "balances (the_bank s') ! q + (if q = sndr then tvalue t else 0)
        = ?b ! q + (if q = rcvr then tvalue t else 0)"
      using posted p len le q by (auto simp: posted_def transfer_def nth_list_update)
    moreover have "?b ! q + sent s q = start q + received s q" using that q by (simp add: explained_def)
    ultimately show "balances (the_bank s') ! q + sent s' q = start q + received s' q" by (auto split: if_splits)
  qed
  moreover have "sum_list (transfer sndr rcvr (tvalue t) ?b) = sum_list ?b"
    using sum_list_transfer [of sndr ?b rcvr] p len le by simp
  ultimately show ?thesis using posted by (simp add: evolves_def posted_def)
qed

section \<open>The loop of newID ends\<close>

definition rank :: "bytes \<Rightarrow> nat \<Rightarrow> nat" where
  "rank new index = (15 - index) * 2000 + (if index < length new
     then (case new ! index of None \<Rightarrow> 0 | Some c \<Rightarrow> if schar c < 48 then 1000 else nat (127 - schar c)) else 0)"

lemma schar_next:
  assumes "48 \<le> schar c" "schar c < 126"
  shows "schar (char_of (Suc (char_code c))) = schar c + 1"
proof -
  have "schar c = (if 128 \<le> int (char_code c) then int (char_code c) - 256 else int (char_code c))"
    using of_nat_of_char [of c, where ?'a = int] by (simp add: schar_def char_code_def Let_def)
  moreover have "int (char_code c) < 256" by (simp add: char_code_def)
  ultimately have "char_code c < 126" using assms by (simp split: if_splits)
  then show ?thesis by (simp add: schar_code char_code_of)
qed

lemma new_step_rank:
  assumes "new_step new index = ok (Some (new', index'))" "index < 15"
  shows "rank new' index' < rank new index \<and> index' < 15"
proof -
  obtain c where c: "index < length new" "new ! index = Some c"
    using assms(1) by (auto simp: new_step_def split: if_splits option.splits)
  consider "schar c < 48" | "48 \<le> schar c" "schar c < 126" | "126 \<le> schar c" by linarith
  then show ?thesis
  proof cases
    case 1
    then have "new' = new[index := Some (CHR ''0'')]" "index' = index" using assms(1) c by (auto simp: new_step_def)
    with 1 c assms(2) show ?thesis by (simp add: rank_def schar_code char_code_def)
  next
    case 2
    then have "new' = new[index := Some (char_of (char_code c + 1))]" "index' = index"
      using assms(1) c by (auto simp: new_step_def)
    with 2 c assms(2) show ?thesis by (simp add: rank_def schar_next)
  next
    case 3
    then have n: "new' = new" "index' = index + 1" "index < 14"
      using assms(1) c by (auto simp: new_step_def split: if_splits)
    have "rank new (index + 1) \<le> (15 - (index + 1)) * 2000 + 1000" by (auto simp: rank_def split: option.splits)
    also have "\<dots> < (15 - index) * 2000" using n by simp
    also have "\<dots> \<le> rank new index" by (simp add: rank_def)
    finally show ?thesis using n by simp
  qed
qed

lemma new_loop_returns: "index < 15 \<Longrightarrow> new_loop mx new index \<noteq> None"
proof (induction "rank new index" arbitrary: new index rule: less_induct)
  case less
  show ?case
  proof (cases "new_step new index")
    case (Inr o')
    show ?thesis
    proof (cases o')
      case (Some x)
      obtain new' index' where x: "x = (new', index')" by (cases x)
      with less Inr Some have "new_loop mx new' index' \<noteq> None" using new_step_rank by blast
      with Inr Some x show ?thesis by (subst new_loop.simps) (auto split: sum.splits)
    qed (simp add: Inr new_loop.simps)
  qed (simp add: new_loop.simps)
qed

lemma newID_returns: "newID mx \<noteq> None"
proof (cases "write_str MAX_ID mx")
  case (Inr new)
  then show ?thesis using new_loop_returns [of 0 mx new]
    by (auto simp: newID_def run_then_def split: option.splits sum.splits)
qed (simp add: newID_def)

section \<open>The IDs in use\<close>

definition ids_below :: "sys \<Rightarrow> bool" where
  "ids_below s \<longleftrightarrow> (\<forall>k. \<forall>t \<in> set (table_lookup (senderHT s) k). transactionID (thisTrans t) \<le> maxID s)"

definition grows :: "sys \<Rightarrow> sys \<Rightarrow> bool" where
  "grows s s' \<longleftrightarrow> evolves s s' \<and> (ids_below s \<longrightarrow> ids_below s')"

lemma grows_refl: "sys_ok s \<Longrightarrow> grows s s" by (simp add: grows_def evolves_refl)
lemma grows_trans: "grows s s1 \<Longrightarrow> grows s1 s2 \<Longrightarrow> grows s s2" unfolding grows_def using evolves_trans by blast
lemma grows_sys_ok: "grows s s' \<Longrightarrow> sys_ok s'" by (simp add: grows_def evolves_def)

lemma posted_ids:
  assumes "posted sndr rcvr t s s'" "ids_below s" "maxID s \<le> mx" "transactionID t \<le> mx"
  shows "ids_below (s'\<lparr>maxID := mx\<rparr>)"
  using assms by (fastforce simp: posted_def ids_below_def split: if_splits)

lemma posted_ids_here:
  "posted sndr rcvr t s s' \<Longrightarrow> ids_below s \<Longrightarrow> transactionID t \<le> maxID s \<Longrightarrow> ids_below s'"
  using posted_ids [of sndr rcvr t s s' "maxID s"] by (simp add: posted_def ids_below_def)

section \<open>requestTransaction\<close>

definition request_time :: "int \<Rightarrow> int \<Rightarrow> int" where
  "request_time now d = (if d = 0 then now + 7200 else d)"

lemma request_accepted:
  assumes s: "sys_ok s" and p: "p < length (wallets (the_bank s))" and q: "q < length (wallets (the_bank s))" and ne: "p \<noteq> q"
    and d: "d = 0 \<or> lastDateTime s \<le> d" and enough: "a \<le> balances (the_bank s) ! p"
    and id: "newID (maxID s) = Some (ok (Some new, new))"
  shows "\<exists>s'. requestTransaction now (wid (the_bank s) p) (wid (the_bank s) q) a d s
      = Some (ok (s', ''Successfuly transferred '' @ dec a @ '' $ from '' @ wid (the_bank s) p @ '' to ''
          @ wid (the_bank s) q @ '' on '' @ strftime_dmy_hm (gmtime (request_time now d)) @ ''.'' @ nl))
    \<and> posted p q \<lparr> transactionID = new, tvalue = a, dateTime = request_time now d \<rparr>
        (s\<lparr>maxID := new, lastDateTime := request_time now d\<rparr>) s'"
proof -
  let ?t = "\<lparr> transactionID = new, tvalue = a, dateTime = request_time now d \<rparr>"
  have "distinct (map walletID (wallets (the_bank s)))" using s by (simp add: sys_ok_def bank_ok_def ledger_ok_def)
  then have inj: "wid (the_bank s) i = wid (the_bank s) j \<longleftrightarrow> i = j"
    if "i < length (wallets (the_bank s))" "j < length (wallets (the_bank s))" for i j
    using that by (simp add: distinct_conv_nth) blast
  have fp: "find_wallet s (wid (the_bank s) p) = ok (Some p)"
    using find_wallet_ok [OF s, of "wid (the_bank s) p"] p inj by (auto split: option.splits)
  have fq: "find_wallet s (wid (the_bank s) q) = ok (Some q)"
    using find_wallet_ok [OF s, of "wid (the_bank s) q"] q inj by (auto split: option.splits)
  have en: "senderHasEnough (wallets (the_bank s) ! p) a" using enough p by (simp add: balances_def senderHasEnough_def)
  obtain s1 where s1: "post_transaction (s\<lparr>maxID := new\<rparr>) p q ?t = Some (ok s1)" "posted p q ?t (s\<lparr>maxID := new\<rparr>) s1"
    using post_transaction_posted [of "s\<lparr>maxID := new\<rparr>" p q ?t] s p q ne en by auto
  have "wid (the_bank s) p \<noteq> wid (the_bank s) q" using inj [OF p q] ne by simp
  then have "requestTransaction now (wid (the_bank s) p) (wid (the_bank s) q) a d s
      = Some (ok (s1\<lparr>lastDateTime := request_time now d\<rparr>, ''Successfuly transferred '' @ dec a @ '' $ from ''
          @ wid (the_bank s1) p @ '' to '' @ wid (the_bank s1) q @ '' on ''
          @ strftime_dmy_hm (gmtime (request_time now d)) @ ''.'' @ nl))"
    using d fp fq en id s1(1) by (auto simp: requestTransaction_def request_time_def Let_def)
  moreover have "wid (the_bank s1) x = wid (the_bank s) x" for x using s1(2) by (simp add: posted_def fun_eq_iff)
  moreover have "posted p q ?t (s\<lparr>maxID := new, lastDateTime := request_time now d\<rparr>) (s1\<lparr>lastDateTime := request_time now d\<rparr>)"
    using s1(2) by (simp add: posted_def)
  ultimately show ?thesis by simp
qed

lemma posted_globals: "posted sndr rcvr t (s\<lparr>maxID := mx\<rparr>) s' \<Longrightarrow> posted sndr rcvr t s (s'\<lparr>maxID := maxID s\<rparr>)"
  by (simp add: posted_def)

lemma post_evolves:
  assumes "sys_ok s" "sndr < length (wallets (the_bank s))" "rcvr < length (wallets (the_bank s))" "sndr \<noteq> rcvr"
    and "senderHasEnough (wallets (the_bank s) ! sndr) (tvalue t)"
  shows "\<exists>s'. post_transaction s sndr rcvr t = Some (ok s') \<and> evolves s s' \<and> posted sndr rcvr t s s'"
  using post_transaction_posted [OF assms] posted_evolves [OF assms] by blast

text \<open>Whatever is requested, the call returns, and unless newID faults the invariant is kept.\<close>

lemma request_evolves:
  assumes s: "sys_ok s"
  shows "\<exists>res. requestTransaction now sndrID rcvrID a d s = Some res
    \<and> (case res of Inr (s', out) \<Rightarrow> evolves s s' | Inl e \<Rightarrow> newID (maxID s) = Some (crash e))"
proof -
  obtain x where x: "find_wallet s sndrID = ok x" using find_wallet_ok [OF s, of sndrID] by blast
  obtain y where y: "find_wallet s rcvrID = ok y" using find_wallet_ok [OF s, of rcvrID] by blast
  obtain z where z: "newID (maxID s) = Some z" using newID_returns [of "maxID s"] by blast
  note go = requestTransaction_def x y z Let_def
  show ?thesis
  proof (cases "sndrID = rcvrID \<or> (d \<noteq> 0 \<and> d < lastDateTime s) \<or> x = None \<or> y = None
      \<or> \<not> senderHasEnough (wallets (the_bank s) ! the x) a")
    case True
    then show ?thesis using evolves_refl [OF s] by (auto simp: go split: option.splits)
  next
    case False
    then obtain p q where p: "x = Some p" and q: "y = Some q" by auto
    have lt: "p < length (wallets (the_bank s))" "q < length (wallets (the_bank s))" "p \<noteq> q"
      using find_wallet_Some [OF s] x y p q False by auto
    show ?thesis
    proof (cases z)
      case (Inl e)
      with False p q z show ?thesis by (auto simp: go)
    next
      case (Inr idm)
      obtain tid mx where idm: "idm = (tid, mx)" by (cases idm)
      show ?thesis
      proof (cases tid)
        case None
        with Inr idm False p q show ?thesis using evolves_refl [OF s] by (auto simp: go)
      next
        case (Some new)
        let ?t = "\<lparr> transactionID = new, tvalue = a, dateTime = request_time now d \<rparr>"
        obtain s1 where s1: "post_transaction (s\<lparr>maxID := mx\<rparr>) p q ?t = Some (ok s1)" "evolves (s\<lparr>maxID := mx\<rparr>) s1"
          using post_evolves [of "s\<lparr>maxID := mx\<rparr>" p q ?t] s lt False p by auto
        with Some Inr idm False p q show ?thesis by (auto simp: go request_time_def)
      qed
    qed
  qed
qed

section \<open>Reading the transactions file\<close>

lemma line_transaction_grows:
  assumes s: "sys_ok s" and p: "p < length (wallets (the_bank s))" "wid (the_bank s) p = sender"
  shows "\<exists>res. line_transaction i p tmpID sender s r = Some res
    \<and> (case res of Inr (s', r', out) \<Rightarrow> grows s s' | Inl e \<Rightarrow> True)"
proof (cases "fscanf_s 64 (file_rest r)")
  case (Inl e)
  then show ?thesis by (simp add: line_transaction_def)
next
  case (Inr x)
  obtain rcv rest where x: "x = (rcv, rest)" by (cases x)
  show ?thesis
  proof (cases "scanned (r_receiver r) rcv")
    case (Inl e)
    with Inr x show ?thesis by (simp add: line_transaction_def)
  next
    case receiver: (Inr receiver)
    obtain y where y: "find_wallet s receiver = ok y" using find_wallet_ok [OF s, of receiver] by blast
    obtain v rest' where v: "fscanf_lu rest (tmpValue r) = (v, rest')" by fastforce
    note go = line_transaction_def Inr x receiver y v Let_def
    show ?thesis
    proof (cases "y = None \<or> sender = receiver \<or> \<not> senderHasEnough (wallets (the_bank s) ! p) v")
      case True
      then show ?thesis using grows_refl [OF s] by (auto simp: go split: option.splits)
    next
      case False
      then obtain q where q: "y = Some q" by auto
      have lt: "q < length (wallets (the_bank s))" "p \<noteq> q" using find_wallet_Some [OF s] y q False p by auto
      define r1 where "r1 = r\<lparr>r_receiver := Some receiver, file_rest := rest', tmpValue := v, transIDs := (transIDs r)[i := Some tmpID]\<rparr>"
      show ?thesis
      proof (cases "read_date r1")
        case (Inl e)
        with False q show ?thesis by (auto simp: go r1_def)
      next
        case date: (Inr r2)
        let ?t = "\<lparr> transactionID = tmpID, tvalue = v, dateTime = tmpDateTime r2 \<rparr>"
        obtain s1 where s1: "post_transaction s p q ?t = Some (ok s1)" "evolves s s1" "posted p q ?t s s1"
          using post_evolves [OF s p(1) lt(1) lt(2), of ?t] False by auto
        have "grows s s2" if "update_maxID s1 tmpID = ok s2" for s2
        proof (cases "maxID s1 < tmpID")
          case True
          then have "s2 = s1\<lparr>maxID := tmpID\<rparr>" using that by (auto simp: update_maxID_def split: if_splits)
          moreover have "maxID s \<le> tmpID" using True s1(3) by (simp add: posted_def)
          ultimately show ?thesis using s1(2) posted_ids [OF s1(3), of tmpID] by (simp add: grows_def)
        next
          case False
          then have "s2 = s1" "tmpID \<le> maxID s" using that s1(3) by (auto simp: update_maxID_def posted_def)
          then show ?thesis using s1(2) posted_ids_here [OF s1(3)] by (simp add: grows_def)
        qed
        with False q date s1(1) show ?thesis
          by (cases "update_maxID s1 tmpID") (auto simp: go r1_def [symmetric])
      qed
    qed
  qed
qed

lemma read_line_grows:
  assumes s: "sys_ok s"
  shows "\<exists>res. read_line i s r = Some res \<and> (case res of Inr (go, s', r', out) \<Rightarrow> grows s s' | Inl e \<Rightarrow> True)"
proof (cases "fscanf_s 64 (file_rest r)")
  case (Inl e)
  then show ?thesis by (simp add: read_line_def)
next
  case first: (Inr x)
  obtain tok rest where x: "x = (tok, rest)" by (cases x)
  show ?thesis
  proof (cases tok)
    case None
    with first x show ?thesis using grows_refl [OF s] by (simp add: read_line_def)
  next
    case tmpID: (Some tmpID)
    show ?thesis
    proof (cases "fscanf_s 64 rest")
      case (Inl e)
      with first x tmpID show ?thesis by (simp add: read_line_def)
    next
      case second: (Inr y)
      obtain snd rest' where y: "y = (snd, rest')" by (cases y)
      show ?thesis
      proof (cases "scanned (r_sender r) snd")
        case (Inl e)
        with first x tmpID second y show ?thesis by (simp add: read_line_def)
      next
        case sender: (Inr sender)
        obtain z where z: "find_wallet s sender = ok z" using find_wallet_ok [OF s, of sender] by blast
        note go = read_line_def first x tmpID second y sender z Let_def
        let ?r = "r\<lparr>file_rest := rest', r_sender := Some sender\<rparr>"
        show ?thesis
        proof (cases "z = None \<or> checkIfTransExists (transIDs r) i tmpID")
          case True
          then show ?thesis using grows_refl [OF s] by (auto simp: go split: option.splits)
        next
          case False
          then obtain p where p: "z = Some p" by auto
          then have "p < length (wallets (the_bank s))" "wid (the_bank s) p = sender" using find_wallet_Some [OF s] z by auto
          then obtain res where "line_transaction i p tmpID sender s ?r = Some res"
              "case res of Inr (s', r', out) \<Rightarrow> grows s s' | Inl e \<Rightarrow> True"
            using line_transaction_grows [OF s] by blast
          with False p show ?thesis by (cases res) (auto simp: go)
        qed
      qed
    qed
  qed
qed

lemma read_lines_grows:
  "sys_ok s \<Longrightarrow> \<exists>res. read_lines k i s r out = Some res \<and> (case res of Inr (s', r', out') \<Rightarrow> grows s s' | Inl e \<Rightarrow> True)"
proof (induction k arbitrary: i s r out)
  case 0
  then show ?case by (simp add: grows_refl)
next
  case (Suc k)
  obtain res where res: "read_line i s r = Some res" "case res of Inr (go, s', r', out) \<Rightarrow> grows s s' | Inl e \<Rightarrow> True"
    using read_line_grows [OF Suc.prems] by blast
  show ?case
  proof (cases res)
    case (Inl e)
    with res(1) show ?thesis by simp
  next
    case (Inr x)
    obtain go s1 r1 msg where x: "x = (go, s1, r1, msg)" by (cases x)
    with res Inr have step: "read_line i s r = Some (ok (go, s1, r1, msg))" "grows s s1" by simp_all
    obtain res1 where res1: "read_lines k (i + 1) s1 r1 (out @ msg) = Some res1"
        "case res1 of Inr (s', r', out') \<Rightarrow> grows s1 s' | Inl e \<Rightarrow> True"
      using Suc.IH [OF grows_sys_ok [OF step(2)]] by blast
    with step grows_trans [OF step(2)] show ?thesis by (cases go) (auto split: sum.splits)
  qed
qed

lemma transactionsInitialization_grows:
  assumes "sys_ok s"
  shows "\<exists>res. transactionsInitialization name file s = Some res
    \<and> (case res of Inr (ret, s', out) \<Rightarrow> evolves s s' \<and> (ids_below s \<longrightarrow> ids_below s') | Inl e \<Rightarrow> True)"
proof (cases "file = None \<or> findNumOfTransactions (the file) = 0")
  case True
  then show ?thesis using evolves_refl [OF assms] by (auto simp: transactionsInitialization_def Let_def split: option.splits)
next
  case False
  then obtain contents where contents: "file = Some contents" "findNumOfTransactions contents \<noteq> 0" by auto
  define n where "n = findNumOfTransactions contents"
  define r where "r = \<lparr> file_rest = contents, transIDs = replicate n None, r_sender = None, r_receiver = None,
     tmpValue = 0, tmpDateTimeTM = tm_zero, tmpDateTime = 0 \<rparr>"
  obtain res where "read_lines n 0 s r [] = Some res" "case res of Inr (s', r', out') \<Rightarrow> grows s s' | Inl e \<Rightarrow> True"
    using read_lines_grows [OF assms, of n 0 r "[]"] by blast
  moreover have "transactionsInitialization name file s
      = run_then (read_lines n 0 s r []) (\<lambda>(s, r, out). Some (ok (0, s\<lparr>lastDateTime := tmpDateTime r\<rparr>, out)))"
    using contents by (simp add: transactionsInitialization_def n_def r_def Let_def)
  ultimately show ?thesis by (auto simp: grows_def ids_below_def split: sum.splits)
qed

section \<open>Properties\<close>

definition small_sys :: sys where
  "small_sys = \<lparr> the_bank = small_bank, sorted_wallets = [0, 1], senderHT = small_HT, receiverHT = small_HT,
                 maxID = ''7'', lastDateTime = 0 \<rparr>"

lemma small_sys_ok: "sys_ok small_sys"
proof -
  have "mset [0, 1] = mset [0..<2 :: nat]" by (simp add: upt_rec del: mset_upt)
  moreover have "length (wallets small_bank) = 2" "sorted_by (wid small_bank) [0, 1]"
    by (simp_all add: small_bank_def sorted_by_def)
  ultimately show ?thesis using small_bank_ok small_HT_ok by (simp add: sys_ok_def small_sys_def)
qed

lemma small_ascii: "ascii ''7'' \<and> length ''7'' < MAX_ID \<and> (\<exists>c \<in> set ''7''. char_code c < 126)"
  by (simp add: ascii_def char_code_def MAX_ID_def)

lemma small_sys_ids: "ids_below small_sys"
  using small_HT_ok by (simp add: ids_below_def small_sys_def)

text \<open>
  C3: A valid request for a transaction is carried out completely: it gets a new ID greater than
  every ID recorded so far, both hash tables record it once under the right wallets, the balances
  change by the amount, and the text names amount, wallets and time.
\<close>

theorem request_settles:
  assumes "sys_ok s" "p < length (wallets (the_bank s))" "q < length (wallets (the_bank s))" "p \<noteq> q"
    and "d = 0 \<or> lastDateTime s \<le> d" "a \<le> balances (the_bank s) ! p" "ids_below s"
    and "ascii (maxID s)" "length (maxID s) < MAX_ID" "\<exists>c \<in> set (maxID s). char_code c < 126"
  shows "\<exists>new s'. requestTransaction now (wid (the_bank s) p) (wid (the_bank s) q) a d s
      = Some (ok (s', ''Successfuly transferred '' @ dec a @ '' $ from '' @ wid (the_bank s) p @ '' to ''
          @ wid (the_bank s) q @ '' on '' @ strftime_dmy_hm (gmtime (request_time now d)) @ ''.'' @ nl))
    \<and> sys_ok s' \<and> maxID s' = new \<and> ids_below s' \<and> lastDateTime s' = request_time now d
    \<and> (\<forall>k. \<forall>t \<in> set (table_lookup (senderHT s) k). transactionID (thisTrans t) < new)
    \<and> balances (the_bank s') = transfer p q a (balances (the_bank s))
    \<and> (\<forall>k. table_lookup (senderHT s') k = table_lookup (senderHT s) k @ (if k = wid (the_bank s) p
         then [\<lparr> thisTrans = \<lparr> transactionID = new, tvalue = a, dateTime = request_time now d \<rparr>, sourceDestWallet = q \<rparr>] else []))
    \<and> (\<forall>k. table_lookup (receiverHT s') k = table_lookup (receiverHT s) k @ (if k = wid (the_bank s) q
         then [\<lparr> thisTrans = \<lparr> transactionID = new, tvalue = a, dateTime = request_time now d \<rparr>, sourceDestWallet = p \<rparr>] else []))"
proof -
  obtain new where new: "newID (maxID s) = Some (ok (Some new, new))" "maxID s < new"
    using newID_greater [OF assms(8-10)] by blast
  obtain s' where s': "requestTransaction now (wid (the_bank s) p) (wid (the_bank s) q) a d s
      = Some (ok (s', ''Successfuly transferred '' @ dec a @ '' $ from '' @ wid (the_bank s) p @ '' to ''
          @ wid (the_bank s) q @ '' on '' @ strftime_dmy_hm (gmtime (request_time now d)) @ ''.'' @ nl))"
    "posted p q \<lparr> transactionID = new, tvalue = a, dateTime = request_time now d \<rparr>
        (s\<lparr>maxID := new, lastDateTime := request_time now d\<rparr>) s'"
    using request_accepted [OF assms(1-6) new(1)] by blast
  have below: "\<forall>k. \<forall>t \<in> set (table_lookup (senderHT s) k). transactionID (thisTrans t) < new"
    using assms(7) new(2) by (auto simp: ids_below_def intro: le_less_trans)
  then have "ids_below (s\<lparr>maxID := new, lastDateTime := request_time now d\<rparr>)" by (simp add: ids_below_def less_imp_le)
  from posted_ids_here [OF s'(2) this] have "ids_below s'" by simp
  with s' below show ?thesis by (auto simp: posted_def)
qed

theorem request_settles_witness:
  "\<exists>new s'. requestTransaction 0 ''A'' ''B'' 20 86400 small_sys
      = Some (ok (s', ''Successfuly transferred '' @ dec 20 @ '' $ from A to B on ''
          @ strftime_dmy_hm (gmtime 86400) @ ''.'' @ nl))
    \<and> maxID s' = new \<and> balances (the_bank s') = [30, 20] \<and> lastDateTime s' = 86400"
  using request_settles [of small_sys 0 1 86400 20 0] small_sys_ok small_sys_ids small_ascii
  by (simp add: small_sys_def) (auto simp: small_bank_def balances_def transfer_def request_time_def)

text \<open>
  Each guard of requestTransaction refuses without changing anything: equal IDs, a time before
  the last transaction, an unknown sender or receiver, and a balance that does not suffice.
\<close>

theorem request_refused:
  assumes "sys_ok s" "d = 0 \<or> lastDateTime s \<le> d"
  shows "(sndrID = rcvrID \<longrightarrow> requestTransaction now sndrID rcvrID a d s
            = Some (ok (s, ''Transactions from and to the same Wallet ID cannot be completed.'' @ nl)))
    \<and> (sndrID \<noteq> rcvrID \<and> (\<forall>p < length (wallets (the_bank s)). wid (the_bank s) p \<noteq> sndrID) \<longrightarrow>
         requestTransaction now sndrID rcvrID a d s = Some (ok (s, ''SenderWalletID does not exist.'' @ nl)))
    \<and> (\<forall>p < length (wallets (the_bank s)). sndrID = wid (the_bank s) p \<and> sndrID \<noteq> rcvrID
         \<and> (\<forall>q < length (wallets (the_bank s)). wid (the_bank s) q \<noteq> rcvrID) \<longrightarrow>
         requestTransaction now sndrID rcvrID a d s = Some (ok (s, ''ReceiverWalletID does not exist.'' @ nl)))
    \<and> (\<forall>p < length (wallets (the_bank s)). \<forall>q < length (wallets (the_bank s)). p \<noteq> q \<and> sndrID = wid (the_bank s) p
         \<and> rcvrID = wid (the_bank s) q \<and> balances (the_bank s) ! p < a \<longrightarrow>
         requestTransaction now sndrID rcvrID a d s
           = Some (ok (s, ''SenderWalletID does not have enough credits.'' @ nl)))"
proof -
  have none: "find_wallet s key = ok None" if "\<forall>p < length (wallets (the_bank s)). wid (the_bank s) p \<noteq> key" for key
    using find_wallet_ok [OF assms(1), of key] that by (auto split: option.splits)
  have "distinct (map walletID (wallets (the_bank s)))" using assms(1) by (simp add: sys_ok_def bank_ok_def ledger_ok_def)
  then have inj: "wid (the_bank s) i = wid (the_bank s) j \<longleftrightarrow> i = j"
    if "i < length (wallets (the_bank s))" "j < length (wallets (the_bank s))" for i j
    using that by (simp add: distinct_conv_nth) blast
  have some: "find_wallet s (wid (the_bank s) p) = ok (Some p)" if "p < length (wallets (the_bank s))" for p
    using find_wallet_ok [OF assms(1), of "wid (the_bank s) p"] that inj by (auto split: option.splits)
  have poor: "\<not> senderHasEnough (wallets (the_bank s) ! p) a"
    if "p < length (wallets (the_bank s))" "balances (the_bank s) ! p < a" for p
    using that by (simp add: balances_def senderHasEnough_def)
  have date: "\<not> (d \<noteq> 0 \<and> d - lastDateTime s < 0)" using assms(2) by auto
  note go = requestTransaction_def Let_def
  have 1: "requestTransaction now sndrID rcvrID a d s
      = Some (ok (s, ''Transactions from and to the same Wallet ID cannot be completed.'' @ nl))" if "sndrID = rcvrID"
    using that by (simp add: go)
  have 2: "requestTransaction now sndrID rcvrID a d s = Some (ok (s, ''SenderWalletID does not exist.'' @ nl))"
    if "sndrID \<noteq> rcvrID" "\<forall>p < length (wallets (the_bank s)). wid (the_bank s) p \<noteq> sndrID"
    using that date none by (simp add: go)
  have 3: "requestTransaction now sndrID rcvrID a d s = Some (ok (s, ''ReceiverWalletID does not exist.'' @ nl))"
    if "p < length (wallets (the_bank s))" "sndrID = wid (the_bank s) p" "sndrID \<noteq> rcvrID"
      "\<forall>q < length (wallets (the_bank s)). wid (the_bank s) q \<noteq> rcvrID" for p
    using that date none some by (simp add: go)
  have 4: "requestTransaction now sndrID rcvrID a d s = Some (ok (s, ''SenderWalletID does not have enough credits.'' @ nl))"
    if "p < length (wallets (the_bank s))" "q < length (wallets (the_bank s))" "p \<noteq> q" "sndrID = wid (the_bank s) p"
      "rcvrID = wid (the_bank s) q" "balances (the_bank s) ! p < a" for p q
    using that date some poor inj by (simp add: go)
  show ?thesis using 1 2 3 4 by blast
qed

theorem request_refused_witness:
  "requestTransaction 0 ''A'' ''C'' 20 0 small_sys = Some (ok (small_sys, ''ReceiverWalletID does not exist.'' @ nl))"
  using request_refused [of small_sys 0 "''A''" "''C''" 0 20] small_sys_ok
  by (simp add: small_sys_def small_bank_def All_less_Suc nth_Cons')

lemma same_str_longer: "c \<noteq> NUL \<Longrightarrow> same_str s (map Some s @ Some c # junk) = ok False"
  by (induction s) auto

lemma read_str_open: "c_string s \<Longrightarrow> read_str (map Some s @ bs) = and_then (read_str bs) (\<lambda>t. ok (s @ t))"
  by (induction s) (auto simp: c_string_def and_then_def split: sum.splits)

lemma new_loop_overruns:
  assumes mx: "ascii mx" "length mx < MAX_ID" "\<forall>c \<in> set mx. 126 \<le> char_code c"
    and new: "new = map Some mx @ Some NUL # replicate (14 - length mx) None" and j: "j \<le> length mx"
  shows "new_loop mx new j = Some (ok (Some (map Some mx @ Some (CHR ''0'') # replicate (14 - length mx) None)))"
  using j
proof (induction "length mx - j" arbitrary: j)
  case 0
  then have "j = length mx" by simp
  then have "new_step new j = ok (Some (map Some mx @ Some (CHR ''0'') # replicate (14 - length mx) None, j))"
    using new by (simp add: new_step_def nth_append list_update_append schar_code char_code_def)
  then show ?case by (simp add: new_loop.simps same_str_longer)
next
  case (Suc n)
  then have len: "j < length mx" by simp
  then have hi: "char_code (mx ! j) \<ge> 126" "char_code (mx ! j) < 128" using mx(1,3) by (simp_all add: ascii_def)
  have "new ! j = Some (mx ! j)" "j < length new" using len new by (simp_all add: nth_append)
  then have "new_step new j = ok (Some (new, j + 1))"
    using hi len mx(2) by (simp add: new_step_def schar_code MAX_ID_def)
  moreover have "same_str mx new = ok True" using mx(1) unfolding new by (simp add: same_str_written ascii_c_string)
  ultimately have "new_loop mx new j = new_loop mx new (j + 1)" by (simp add: new_loop.simps [of mx new j])
  also have "\<dots> = Some (ok (Some (map Some mx @ Some (CHR ''0'') # replicate (14 - length mx) None)))"
    using Suc.hyps by (intro Suc.hyps(1)) auto
  finally show ?case .
qed

lemma newID_overruns:
  assumes "ascii mx" "length mx < MAX_ID" "\<forall>c \<in> set mx. 126 \<le> char_code c"
  shows "newID mx = Some (crash (if length mx < 14 then Uninitialised else BadIndex))"
proof -
  have new: "write_str MAX_ID mx = ok (map Some mx @ Some NUL # replicate (14 - length mx) None)"
    using assms(2) by (simp add: write_str_def MAX_ID_def)
  have "read_str (map Some mx @ Some (CHR ''0'') # replicate (14 - length mx) None)
      = crash (if length mx < 14 then Uninitialised else BadIndex)"
  proof (cases "14 - length mx")
    case 0
    then show ?thesis using assms(1) by (simp add: read_str_open ascii_c_string)
  next
    case (Suc n)
    then show ?thesis using assms(1) by (simp add: read_str_open ascii_c_string)
  qed
  then show ?thesis using new new_loop_overruns [OF assms refl, of 0] by (simp add: newID_def)
qed

text \<open>
  C22: NewID on a printable maxID gives a greater ID of the same length, so one no transaction has,
  as long as some character can still grow.  Otherwise it does not return NULL: it overwrites the
  terminating NUL and copies an unterminated string, past the bytes it wrote or past the array.
\<close>

theorem newID_outcome:
  assumes "ascii mx" "length mx < MAX_ID"
  shows "(\<exists>c \<in> set mx. char_code c < 126) \<and>
      (\<exists>new. newID mx = Some (ok (Some new, new)) \<and> mx < new \<and> length new = length mx \<and> ascii new)
    \<or> (\<forall>c \<in> set mx. 126 \<le> char_code c) \<and>
      newID mx = Some (crash (if length mx < 14 then Uninitialised else BadIndex))"
proof (cases "\<exists>c \<in> set mx. char_code c < 126")
  case True
  with newID_greater [OF assms True] show ?thesis by blast
next
  case False
  then have "\<forall>c \<in> set mx. 126 \<le> char_code c" by auto
  with newID_overruns [OF assms this] show ?thesis by blast
qed

theorem newID_outcome_witness:
  "newID ''~~'' = Some (crash Uninitialised)"
  using newID_outcome [of "''~~''"] by (simp add: ascii_def char_code_def MAX_ID_def)

text \<open>
  C7: Whatever a user requests, the call returns; unless generating the ID faults, the whole state
  stays valid, the worth of every coin and the total of the balances are unchanged, and the
  balances are still exactly what the recorded transactions make of the initial ones.
\<close>

theorem request_keeps_books:
  assumes "sys_ok s" "explained start s"
  shows "\<exists>res. requestTransaction now sndrID rcvrID a d s = Some res \<and>
    (case res of
       Inr (s', out) \<Rightarrow> sys_ok s' \<and> explained start s' \<and> worths (the_bank s') = worths (the_bank s)
          \<and> sum_list (balances (the_bank s')) = sum_list (balances (the_bank s))
     | Inl e \<Rightarrow> newID (maxID s) = Some (crash e))"
proof -
  obtain res where res: "requestTransaction now sndrID rcvrID a d s = Some res"
      "case res of Inr (s', out) \<Rightarrow> evolves s s' | Inl e \<Rightarrow> newID (maxID s) = Some (crash e)"
    using request_evolves [OF assms(1)] by blast
  then show ?thesis using assms(2) by (cases res) (auto simp: evolves_def)
qed

lemma small_sys_explained: "explained (\<lambda>p. if p = 0 then 50 else 0) small_sys"
  using small_HT_ok
  by (simp add: explained_def sent_def received_def total_of_def small_sys_def small_bank_def balances_def
      All_less_Suc nth_Cons')

theorem request_keeps_books_witness:
  "\<exists>res. requestTransaction 0 ''A'' ''B'' 20 0 small_sys = Some res \<and>
    (case res of
       Inr (s', out) \<Rightarrow> sys_ok s' \<and> explained (\<lambda>p. if p = 0 then 50 else 0) s'
         \<and> worths (the_bank s') = worths (the_bank small_sys)
         \<and> sum_list (balances (the_bank s')) = sum_list (balances (the_bank small_sys))
     | Inl e \<Rightarrow> newID (maxID small_sys) = Some (crash e))"
  using small_sys_ok small_sys_explained by (rule request_keeps_books)



end
