(* ===== verification/Commands.thy ===== *)
theory Commands
  imports CmdLine Transaction
begin

text \<open>
  The command interpreter takeCommands of SysPro_Project1/src/use.c.  Its input is the list of
  lines getline delivers, each with its newline; where the input ends getline returns -1, which
  the size_t len turns into an index far behind the buffer.  The clock, the files of
  requestTransactions and the success of the temporary files of the queries come from outside.
\<close>

section \<open>State\<close>

record shell =
  world :: sys
  stdin :: "string list"
  ticks :: nat
  printed :: string

record surround =
  clock :: "nat \<Rightarrow> int"
  fopen :: "string \<Rightarrow> string option"
  tmp_files :: "nat \<Rightarrow> bool \<times> bool"

datatype outcome = Exits | Again | Pending line nat

definition say :: "string \<Rightarrow> shell \<Rightarrow> shell" where
  "say s sh = sh\<lparr>printed := printed sh @ s\<rparr>"

section \<open>Reading a command\<close>

text \<open>The loops that print a prompt and read lines until one has a token.\<close>

fun read_cmd :: "string \<Rightarrow> string list \<Rightarrow> string \<Rightarrow> fault + (line \<times> nat \<times> string list \<times> string)" where
  "read_cmd prompt [] out = crash BadIndex"
| "read_cmd prompt (l # ls) out =
     (if l = [] then read_cmd prompt ls (out @ prompt)
      else
        and_then (tok (load l)) (\<lambda>(commandString, ln).
          case commandString of
            None \<Rightarrow> read_cmd prompt ls (out @ prompt)
          | Some p \<Rightarrow> ok (ln, p, ls, out @ prompt)))"

definition next_cmd :: "string \<Rightarrow> shell \<Rightarrow> fault + (line \<times> nat \<times> shell)" where
  "next_cmd prompt sh =
     and_then (read_cmd prompt (stdin sh) []) (\<lambda>(ln, p, ls, out). ok (ln, p, say out (sh\<lparr>stdin := ls\<rparr>)))"

section \<open>Requests\<close>

text \<open>requestTransaction with the strings the line holds by then\<close>

definition call_request ::
    "surround \<Rightarrow> string \<Rightarrow> nat option \<Rightarrow> nat option \<Rightarrow> nat \<Rightarrow> int \<Rightarrow> shell \<Rightarrow> (fault + shell) option" where
  "call_request env m sndrID rcvrID amount d sh =
     (case (sndrID, rcvrID) of
        (Some s, Some r) \<Rightarrow>
          run_then (Some (cstr_at m s)) (\<lambda>s.
          run_then (Some (cstr_at m r)) (\<lambda>r.
          run_then (requestTransaction (clock env (ticks sh)) s r amount d (world sh)) (\<lambda>(w, out).
            Some (ok (say out (sh\<lparr>world := w, ticks := ticks sh + 1\<rparr>))))))
      | _ \<Rightarrow> Some (crash NullDeref))"

text \<open>One transaction on a line; date is how the caller reads the date.\<close>

definition parse_request ::
    "(string \<Rightarrow> nat \<Rightarrow> fault + string + int) \<Rightarrow> line \<Rightarrow> fault + string + (string \<times> nat \<times> nat \<times> nat \<times> int)" where
  "parse_request date ln =
     attempt (request_args ln) (\<lambda>(sndrID, rcvrID, str1, ln).
     attempt (read_amount (mem ln) str1) (\<lambda>(amount, str1).
     attempt (date (mem ln) str1) (\<lambda>d. got_it (mem ln, sndrID, rcvrID, amount, d))))"

definition do_request ::
    "surround \<Rightarrow> (string \<Rightarrow> nat \<Rightarrow> fault + string + int) \<Rightarrow> line \<Rightarrow> shell \<Rightarrow> (fault + shell) option" where
  "do_request env date ln sh =
     run_then (Some (parse_request date ln)) (\<lambda>res.
       case res of
         Inl msg \<Rightarrow> Some (ok (say msg sh))
       | Inr (m, s, r, amount, d) \<Rightarrow> call_request env m (Some s) (Some r) amount d sh)"

text \<open>getline on a file: every line with its newline, the last one as it is.\<close>

function lines_of :: "string \<Rightarrow> string list" where
  "lines_of s =
     (if s = [] then []
      else (takeWhile (\<lambda>c. c \<noteq> CHR 0x0A) s @ take 1 (dropWhile (\<lambda>c. c \<noteq> CHR 0x0A) s))
           # lines_of (drop 1 (dropWhile (\<lambda>c. c \<noteq> CHR 0x0A) s)))"
  by pat_completeness auto
termination
proof (relation "measure length", simp)
  fix s :: string assume "s \<noteq> []"
  have "length (dropWhile (\<lambda>c. c \<noteq> CHR 0x0A) s) \<le> length s" by (rule length_dropWhile_le)
  moreover have "0 < length s" using \<open>s \<noteq> []\<close> by simp
  ultimately have "length (drop 1 (dropWhile (\<lambda>c. c \<noteq> CHR 0x0A) s)) < length s"
    unfolding length_drop by linarith
  then show "(drop 1 (dropWhile (\<lambda>c. c \<noteq> CHR 0x0A) s), s) \<in> measure length" by simp
qed

declare lines_of.simps [simp del]

fun file_requests :: "surround \<Rightarrow> string list \<Rightarrow> shell \<Rightarrow> (fault + shell) option" where
  "file_requests env [] sh = Some (ok sh)"
| "file_requests env (l # ls) sh =
     run_then (do_request env file_date (load l) sh) (\<lambda>sh. file_requests env ls sh)"

text \<open>requestTransactions with a file name\<close>

definition requests_from_file :: "surround \<Rightarrow> line \<Rightarrow> shell \<Rightarrow> (fault + shell) option" where
  "requests_from_file env ln sh =
     run_then (Some (tok ln)) (\<lambda>(filename, ln). case filename of
       None \<Rightarrow> Some (ok (say (''No filename specified.'' @ nl) sh))
     | Some p \<Rightarrow>
         run_then (Some (cstr_at (mem ln) p)) (\<lambda>filename.
           case fopen env filename of
             None \<Rightarrow> Some (ok (say (''File '' @ filename @ '' was not read properly.'' @ nl) sh))
           | Some content \<Rightarrow> file_requests env (lines_of content) sh))"

text \<open>
  requestTransactions on the terminal.  A receiver ";" makes it read another line; strcmp on a
  missing receiver is a fault.
\<close>

fun multi_ids ::
    "nat option \<Rightarrow> nat option \<Rightarrow> line \<Rightarrow> string list \<Rightarrow> string
     \<Rightarrow> fault + (nat option \<times> nat option \<times> line \<times> string list \<times> string)" where
  "multi_ids sndrID rcvrID ln ls out =
     (case rcvrID of
        None \<Rightarrow> crash NullDeref
      | Some r \<Rightarrow>
          and_then (cstr_at (mem ln) r) (\<lambda>s.
            if strcmp s '';'' \<noteq> 0 then ok (sndrID, rcvrID, ln, ls, out)
            else
              (case ls of
                 [] \<Rightarrow> crash BadIndex
               | l # ls \<Rightarrow>
                   if l = [] then crash UseAfterFree
                   else
                     and_then (tok (load l)) (\<lambda>(sndrID, ln).
                     and_then (tok ln) (\<lambda>(rcvrID, ln).
                       multi_ids sndrID rcvrID ln ls (out @ ''No receiverWalletID read.'' @ nl))))))"

declare multi_ids.simps [simp del]

text \<open>
  One transaction: after the message about an amount or a date the line is freed twice.
\<close>

definition multi_request ::
    "surround \<Rightarrow> nat option \<Rightarrow> nat option \<Rightarrow> line \<Rightarrow> shell \<Rightarrow> (fault + shell) option" where
  "multi_request env sndrID rcvrID ln sh =
     run_then (Some (tok ln)) (\<lambda>(str1, ln). case str1 of
       None \<Rightarrow> Some (ok (say (''Invalid transaction entered.'' @ nl) sh))
     | Some str1 \<Rightarrow>
         run_then (Some (attempt (read_amount (mem ln) str1) (\<lambda>(amount, str1).
             attempt (multi_date (mem ln) str1) (\<lambda>d. got_it (amount, d))))) (\<lambda>res.
           case res of
             Inl msg \<Rightarrow> Some (crash UseAfterFree)
           | Inr (amount, d) \<Rightarrow> call_request env (mem ln) sndrID rcvrID amount d sh))"

text \<open>The last character of the line, which decides whether it is a transaction\<close>

definition ends_with_semicolon :: "line \<Rightarrow> fault + bool" where
  "ends_with_semicolon ln =
     (if length (mem ln) < 3 then crash BadIndex else ok (mem ln ! (length (mem ln) - 3) = CHR '';''))"

partial_function (option) multi_loop ::
    "surround \<Rightarrow> nat option \<Rightarrow> nat option \<Rightarrow> line \<Rightarrow> shell \<Rightarrow> (fault + outcome \<times> shell) option" where
  "multi_loop env sndrID rcvrID ln sh =
     run_then (multi_request env sndrID rcvrID ln sh) (\<lambda>sh.
     run_then (Some (next_cmd ''Enter new transaction or command: '' sh)) (\<lambda>(ln, p, sh).
     run_then (Some (ends_with_semicolon ln)) (\<lambda>more.
       if more then run_then (Some (tok ln)) (\<lambda>(rcvrID, ln). multi_loop env (Some p) rcvrID ln sh)
       else Some (ok (Pending ln p, sh)))))"

definition requests_from_terminal :: "surround \<Rightarrow> line \<Rightarrow> shell \<Rightarrow> (fault + outcome \<times> shell) option" where
  "requests_from_terminal env ln sh =
     run_then (Some (tok ln)) (\<lambda>(sndrID, ln).
     run_then (Some (tok ln)) (\<lambda>(rcvrID, ln).
     run_then (Some (multi_ids sndrID rcvrID ln (stdin sh) [])) (\<lambda>(sndrID, rcvrID, ln, ls, out).
       multi_loop env sndrID rcvrID ln (say out (sh\<lparr>stdin := ls\<rparr>)))))"

section \<open>Queries\<close>

definition find_cmd ::
    "(line \<Rightarrow> fault + string + (int \<times> int)) \<Rightarrow> (string \<Rightarrow> int \<Rightarrow> int \<Rightarrow> bool \<Rightarrow> bool \<Rightarrow> fault + string)
     \<Rightarrow> surround \<Rightarrow> line \<Rightarrow> shell \<Rightarrow> fault + shell" where
  "find_cmd read_window report env ln sh =
     and_then (tok ln) (\<lambda>(walletID, ln). case walletID of
       None \<Rightarrow> ok (say (''No wallet specified.'' @ nl) sh)
     | Some p \<Rightarrow>
         and_then (read_window ln) (\<lambda>res. case res of
           Inl msg \<Rightarrow> ok (say msg sh)
         | Inr (startTime, endTime) \<Rightarrow>
             and_then (cstr_at (mem ln) p) (\<lambda>walletID.
             case tmp_files env (ticks sh) of (opened, removed) \<Rightarrow>
             and_then (report walletID startTime endTime opened removed) (\<lambda>out.
               ok (say out (sh\<lparr>ticks := ticks sh + 1\<rparr>))))))"


definition coin_arg :: "line \<Rightarrow> fault + string + nat" where
  "coin_arg ln =
     and_then (tok ln) (\<lambda>(str1, ln). case str1 of
       None \<Rightarrow> fail_with ''No BitCoinID specified.''
     | Some p \<Rightarrow> and_then (strtol_at (mem ln) p) (\<lambda>(v, _, _). got_it (nat (v mod int SIZE_MOD))))"

section \<open>One command\<close>

definition usage :: string where
  "usage = ''Wrong command, try:'' @ nl @ ''/requestTransaction senderWalletID receiverWalletID amount date time'' @ nl
     @ ''/requestTransactions senderWalletID receiverWalletID amount date time;'' @ nl
     @ ''senderWalletID2 receiverWalletID2 amount2 date2 time2;'' @ nl @ ''...'' @ nl
     @ ''senderWalletIDn receiverWalletIDn amountn daten timen;'' @ nl
     @ ''/requestTransactions inputFile'' @ nl @ ''/findEarnings walletID [time1][year1][time2][year2]'' @ nl
     @ ''/findPayments walletID [time1][year1][time2][year2]'' @ nl @ ''/walletStatus walletID'' @ nl
     @ ''/bitCoinStatus bitCoinID'' @ nl @ ''/traceCoin bitCoinID'' @ nl @ ''/exit'' @ nl"

definition again :: "(fault + shell) option \<Rightarrow> (fault + outcome \<times> shell) option" where
  "again r = run_then r (\<lambda>sh. Some (ok (Again, sh)))"

definition wid_of :: "shell \<Rightarrow> nat \<Rightarrow> string" where
  "wid_of sh = wid (the_bank (world sh))"

definition do_walletStatus :: "line \<Rightarrow> shell \<Rightarrow> fault + shell" where
  "do_walletStatus ln sh =
     and_then (tok ln) (\<lambda>(walletID, ln). case walletID of
       None \<Rightarrow> ok (say (''No walletID specified.'' @ nl) sh)
     | Some p \<Rightarrow>
         and_then (cstr_at (mem ln) p) (\<lambda>walletID.
         and_then (walletStatus (the_bank (world sh)) (sorted_wallets (world sh)) walletID) (\<lambda>out. ok (say out sh))))"

definition do_bitCoinStatus :: "line \<Rightarrow> shell \<Rightarrow> fault + shell" where
  "do_bitCoinStatus ln sh =
     and_then (coin_arg ln) (\<lambda>res. case res of
       Inl msg \<Rightarrow> ok (say msg sh)
     | Inr BCID \<Rightarrow> and_then (bitCoinStatus BCID (coins (the_bank (world sh)))) (\<lambda>out. ok (say out sh)))"

definition do_traceCoin :: "line \<Rightarrow> shell \<Rightarrow> (fault + shell) option" where
  "do_traceCoin ln sh =
     run_then (Some (coin_arg ln)) (\<lambda>res. case res of
       Inl msg \<Rightarrow> Some (ok (say msg sh))
     | Inr BCID \<Rightarrow> run_then (traceCoin (wid_of sh) BCID (coins (the_bank (world sh)))) (\<lambda>out. Some (ok (say out sh))))"

text \<open>
  The errno tests of bitCoinStatus and traceCoin come with a reset of errno or a value 0, for which
  strtol never sets it, so they never print their message.
\<close>

definition step_command :: "surround \<Rightarrow> line \<Rightarrow> nat \<Rightarrow> shell \<Rightarrow> (fault + outcome \<times> shell) option" where
  "step_command env ln p sh =
     run_then (Some (cstr_at (mem ln) p)) (\<lambda>cmd.
       if strcmp cmd ''exit'' = 0 then Some (ok (Exits, say (''Program exits.'' @ nl) sh))
       else if strcmp cmd ''requestTransaction'' = 0 then again (do_request env transaction_date ln sh)
       else if strcmp cmd ''requestTransactions'' = 0 then
         run_then (Some (ends_with_semicolon ln)) (\<lambda>more.
           if \<not> more then again (requests_from_file env ln sh) else requests_from_terminal env ln sh)
       else if strcmp cmd ''findEarnings'' = 0 then
         again (Some (find_cmd earnings_window (findEarnings (wid_of sh) (receiverHT (world sh))) env ln sh))
       else if strcmp cmd ''findPayments'' = 0 then
         again (Some (find_cmd payments_window (findPayments (wid_of sh) (senderHT (world sh))) env ln sh))
       else if strcmp cmd ''walletStatus'' = 0 then again (Some (do_walletStatus ln sh))
       else if strcmp cmd ''bitCoinStatus'' = 0 then again (Some (do_bitCoinStatus ln sh))
       else if strcmp cmd ''traceCoin'' = 0 then again (do_traceCoin ln sh)
       else Some (ok (Again, say usage sh)))"

section \<open>The interpreter\<close>

partial_function (option) command_loop :: "surround \<Rightarrow> line \<Rightarrow> nat \<Rightarrow> shell \<Rightarrow> (fault + shell) option" where
  "command_loop env ln p sh =
     run_then (step_command env ln p sh) (\<lambda>(res, sh).
       case res of
         Exits \<Rightarrow> Some (ok sh)
       | Again \<Rightarrow>
           run_then (Some (next_cmd (''Give command:'' @ nl) sh)) (\<lambda>(ln, p, sh). command_loop env ln p sh)
       | Pending ln p \<Rightarrow> command_loop env ln p sh)"

definition takeCommands :: "surround \<Rightarrow> shell \<Rightarrow> (fault + shell) option" where
  "takeCommands env sh =
     run_then (Some (next_cmd (''Give command:'' @ nl) sh)) (\<lambda>(ln, p, sh). command_loop env ln p sh)"

section \<open>What a command keeps\<close>

text \<open>A computation that returns: a fault, or a value with the property.\<close>

definition ends_in :: "(fault + 'a) option \<Rightarrow> ('a \<Rightarrow> bool) \<Rightarrow> bool" where
  "ends_in r P \<longleftrightarrow> (\<exists>e. r = Some (crash e)) \<or> (\<exists>x. r = Some (ok x) \<and> P x)"

lemma ends_in_simps [simp]:
  "ends_in (Some (crash e)) P" "ends_in (Some (ok x)) P = P x" "\<not> ends_in None P"
  by (simp_all add: ends_in_def)

lemma ends_in_run_then: "ends_in r P \<Longrightarrow> (\<And>x. P x \<Longrightarrow> ends_in (f x) Q) \<Longrightarrow> ends_in (run_then r f) Q"
  unfolding ends_in_def by (elim disjE exE conjE) simp_all

lemma ends_in_mono: "ends_in r P \<Longrightarrow> (\<And>x. P x \<Longrightarrow> Q x) \<Longrightarrow> ends_in r Q"
  by (auto simp: ends_in_def)

lemma ends_in_pure: "(\<And>x. m = ok x \<Longrightarrow> ends_in (f x) Q) \<Longrightarrow> ends_in (run_then (Some m) f) Q"
  by (cases m) simp_all

lemma ends_in_and_then: "(\<And>x. m = ok x \<Longrightarrow> ends_in (Some (f x)) Q) \<Longrightarrow> ends_in (Some (and_then m f)) Q"
  by (cases m) simp_all

text \<open>The system evolves and no line of the input comes back; a command comes from a line of the input.\<close>

definition comes_from :: "line \<Rightarrow> nat \<Rightarrow> shell \<Rightarrow> bool" where
  "comes_from ln p sh \<longleftrightarrow> (\<exists>l \<in> set (stdin sh). tok (load l) = ok (Some p, ln))"

definition leads_to :: "shell \<Rightarrow> shell \<Rightarrow> bool" where
  "leads_to sh sh' \<longleftrightarrow> evolves (world sh) (world sh')
     \<and> length (stdin sh') \<le> length (stdin sh) \<and> set (stdin sh') \<subseteq> set (stdin sh)"

lemma leads_to_refl: "sys_ok (world sh) \<Longrightarrow> leads_to sh sh"
  by (simp add: leads_to_def evolves_refl)

lemma leads_to_trans: "leads_to a b \<Longrightarrow> leads_to b c \<Longrightarrow> leads_to a c"
  unfolding leads_to_def using evolves_trans by (metis le_trans subset_trans)

lemma comes_from_before: "comes_from ln p b \<Longrightarrow> leads_to a b \<Longrightarrow> comes_from ln p a"
  by (auto simp: comes_from_def leads_to_def)

lemma leads_to_ok: "leads_to a b \<Longrightarrow> sys_ok (world b)"
  by (simp add: leads_to_def evolves_def)

lemma leads_to_fields [simp]:
  "leads_to a (say s b) = leads_to a b" "leads_to a (b\<lparr>ticks := n\<rparr>) = leads_to a b" "leads_to (say s a) b = leads_to a b"
  by (simp_all add: leads_to_def say_def)

lemma say_fields [simp]: "world (say s sh) = world sh" "stdin (say s sh) = stdin sh"
  by (simp_all add: say_def)

lemma read_cmd_from:
  "read_cmd prompt ls out = ok (ln, p, rest, out') \<Longrightarrow>
   length rest < length ls \<and> set rest \<subseteq> set ls \<and> (\<exists>l \<in> set ls. tok (load l) = ok (Some p, ln))"
proof (induction ls arbitrary: out)
  case Nil
  then show ?case by simp
next
  case (Cons l ls)
  then have "read_cmd prompt ls (out @ prompt) = ok (ln, p, rest, out') \<or> rest = ls \<and> tok (load l) = ok (Some p, ln)"
    by (auto simp: and_then_ok_iff split: if_splits option.splits)
  with Cons.IH show ?case by fastforce
qed

lemma next_cmd_goes:
  "next_cmd prompt sh = ok (ln, p, sh') \<Longrightarrow> sys_ok (world sh) \<Longrightarrow>
   leads_to sh sh' \<and> length (stdin sh') < length (stdin sh) \<and> comes_from ln p sh"
  by (auto simp: next_cmd_def and_then_ok_iff leads_to_def say_def evolves_refl comes_from_def dest!: read_cmd_from)

lemma call_request_goes:
  assumes "sys_ok (world sh)"
  shows "ends_in (call_request env m s r amount d sh) (leads_to sh)"
proof -
  have "ends_in (run_then (requestTransaction now a b amount d (world sh)) (\<lambda>(w, out).
      Some (ok (say out (sh\<lparr>world := w, ticks := n\<rparr>))))) (leads_to sh)" for now a b n
  proof -
    obtain res where "requestTransaction now a b amount d (world sh) = Some res"
        "case res of Inr (s', out) \<Rightarrow> evolves (world sh) s' | Inl e \<Rightarrow> newID (maxID (world sh)) = Some (crash e)"
      using request_evolves [OF assms] by blast
    then show ?thesis by (cases res) (auto simp: leads_to_def say_def)
  qed
  then show ?thesis by (auto simp: call_request_def intro!: ends_in_pure split: option.split)
qed

lemma do_request_goes: "sys_ok (world sh) \<Longrightarrow> ends_in (do_request env date ln sh) (leads_to sh)"
  unfolding do_request_def
  by (rule ends_in_pure) (auto simp: leads_to_refl call_request_goes split: sum.splits)

lemma file_requests_goes: "sys_ok (world sh) \<Longrightarrow> ends_in (file_requests env ls sh) (leads_to sh)"
proof (induction ls arbitrary: sh)
  case Nil
  then show ?case by (simp add: leads_to_refl)
next
  case (Cons l ls)
  show ?case unfolding file_requests.simps
  proof (rule ends_in_run_then [OF do_request_goes [OF Cons.prems]])
    fix x assume x: "leads_to sh x"
    show "ends_in (file_requests env ls x) (leads_to sh)"
      by (rule ends_in_mono [OF Cons.IH [OF leads_to_ok [OF x]]]) (rule leads_to_trans [OF x])
  qed
qed

lemma requests_from_file_goes: "sys_ok (world sh) \<Longrightarrow> ends_in (requests_from_file env ln sh) (leads_to sh)"
  unfolding requests_from_file_def
  by (auto intro!: ends_in_pure simp: leads_to_refl file_requests_goes split: option.split)

lemma multi_request_goes: "sys_ok (world sh) \<Longrightarrow> ends_in (multi_request env s r ln sh) (leads_to sh)"
  unfolding multi_request_def
  by (auto intro!: ends_in_pure simp: leads_to_refl call_request_goes split: option.split sum.split)

lemma multi_ids_shorter: "multi_ids s r ln ls out = ok (s', r', ln', rest, out') \<Longrightarrow> length rest \<le> length ls \<and> set rest \<subseteq> set ls"
proof (induction ls arbitrary: s r ln out)
  case Nil
  then show ?case by (subst (asm) multi_ids.simps) (auto simp: and_then_ok_iff split: option.splits if_splits)
next
  case (Cons l ls)
  from Cons.prems show ?case
    by (subst (asm) multi_ids.simps)
      (auto simp: and_then_ok_iff split: option.splits if_splits dest!: Cons.IH)
qed

text \<open>Where a command leaves_for another one, it has read a line.\<close>

definition leaves_for :: "shell \<Rightarrow> outcome \<times> shell \<Rightarrow> bool" where
  "leaves_for sh r \<longleftrightarrow> leads_to sh (snd r) \<and> (\<forall>ln p. fst r = Pending ln p \<longrightarrow> length (stdin (snd r)) < length (stdin sh) \<and> comes_from ln p sh)"

lemma leaves_for_before:
  assumes "ends_in r (leaves_for b)" "leads_to a b"
  shows "ends_in r (leaves_for a)"
proof (rule ends_in_mono [OF assms(1)])
  fix x assume "leaves_for b x"
  moreover have "length (stdin b) \<le> length (stdin a)" using assms(2) by (simp add: leads_to_def)
  ultimately show "leaves_for a x"
    using leads_to_trans [OF assms(2), of "snd x"] comes_from_before [OF _ assms(2)]
    by (metis leaves_for_def less_le_trans)
qed

lemma multi_loop_leaves: "sys_ok (world sh) \<Longrightarrow> ends_in (multi_loop env s r ln sh) (leaves_for sh)"
proof (induction "length (stdin sh)" arbitrary: s r ln sh rule: less_induct)
  case less
  show ?case
  proof (subst multi_loop.simps, rule ends_in_run_then [OF multi_request_goes [OF less.prems]], rule ends_in_pure)
    fix sh1 x assume sh1: "leads_to sh sh1" and x: "next_cmd ''Enter new transaction or command: '' sh1 = ok x"
    obtain ln2 p sh2 where x2: "x = (ln2, p, sh2)" by (rule prod_cases3)
    have sh2: "leads_to sh1 sh2 \<and> length (stdin sh2) < length (stdin sh1) \<and> comes_from ln2 p sh1"
      using next_cmd_goes x x2 leads_to_ok [OF sh1] by blast
    then have to2: "leads_to sh sh2" "length (stdin sh2) < length (stdin sh)" "comes_from ln2 p sh"
      using sh1 leads_to_trans [OF sh1] comes_from_before by (auto simp: leads_to_def)
    have rest: "ends_in (multi_loop env (Some p) r' ln' sh2) (leaves_for sh)" for r' ln'
    proof -
      have "ends_in (multi_loop env (Some p) r' ln' sh2) (leaves_for sh2)"
        using less.hyps [OF to2(2)] leads_to_ok [OF to2(1)] by blast
      then show ?thesis using to2(1) by (rule leaves_for_before)
    qed
    show "ends_in (case x of (ln, p, sh) \<Rightarrow> run_then (Some (ends_with_semicolon ln)) (\<lambda>more.
        if more then run_then (Some (tok ln)) (\<lambda>(rcvrID, ln). multi_loop env (Some p) rcvrID ln sh)
        else Some (ok (Pending ln p, sh)))) (leaves_for sh)"
      unfolding x2 using to2 by (auto intro!: ends_in_pure simp: rest leaves_for_def)
  qed
qed

lemma requests_from_terminal_leaves:
  assumes "sys_ok (world sh)"
  shows "ends_in (requests_from_terminal env ln sh) (leaves_for sh)"
  unfolding requests_from_terminal_def
proof (intro ends_in_pure, clarify, intro ends_in_pure, clarify, intro ends_in_pure, clarify)
  fix s ln1 r ln2 s' r' ln3 ls out
  assume ids: "multi_ids s r ln2 (stdin sh) [] = ok (s', r', ln3, ls, out)"
  define sh1 where "sh1 = say out (sh\<lparr>stdin := ls\<rparr>)"
  have "leads_to sh sh1" using assms multi_ids_shorter [OF ids] by (simp add: sh1_def leads_to_def evolves_refl)
  moreover have "ends_in (multi_loop env s' r' ln3 sh1) (leaves_for sh1)"
    using multi_loop_leaves assms by (simp add: sh1_def)
  ultimately show "ends_in (multi_loop env s' r' ln3 (say out (sh\<lparr>stdin := ls\<rparr>))) (leaves_for sh)"
    unfolding sh1_def [symmetric] using leaves_for_before by blast
qed

lemma again_leaves: "ends_in r (leads_to sh) \<Longrightarrow> ends_in (again r) (leaves_for sh)"
  unfolding again_def by (erule ends_in_run_then) (simp add: leaves_for_def)

lemma find_cmd_goes: "sys_ok (world sh) \<Longrightarrow> ends_in (Some (find_cmd w rep env ln sh)) (leads_to sh)"
  unfolding find_cmd_def
  by (intro ends_in_and_then) (auto simp: leads_to_refl intro!: ends_in_and_then split: option.split sum.split prod.split)

lemma do_walletStatus_goes: "sys_ok (world sh) \<Longrightarrow> ends_in (Some (do_walletStatus ln sh)) (leads_to sh)"
  unfolding do_walletStatus_def
  by (intro ends_in_and_then) (auto intro!: ends_in_and_then simp: leads_to_refl split: option.split)

lemma do_bitCoinStatus_goes: "sys_ok (world sh) \<Longrightarrow> ends_in (Some (do_bitCoinStatus ln sh)) (leads_to sh)"
  unfolding do_bitCoinStatus_def
  by (intro ends_in_and_then) (auto intro!: ends_in_and_then simp: leads_to_refl split: sum.split)

lemma do_traceCoin_goes: "sys_ok (world sh) \<Longrightarrow> ends_in (do_traceCoin ln sh) (leads_to sh)"
  unfolding do_traceCoin_def
proof (rule ends_in_pure)
  fix res
  assume ok: "sys_ok (world sh)"
  have "ends_in (run_then (traceCoin w b cs) (\<lambda>out. Some (ok (say out sh)))) (leads_to sh)" for w b cs
  proof -
    obtain r where "traceCoin w b cs = Some r" using traceCoin_returns by blast
    then show ?thesis using ok by (cases r) (simp_all add: leads_to_refl)
  qed
  then show "ends_in (case res of Inl msg \<Rightarrow> Some (ok (say msg sh))
      | Inr BCID \<Rightarrow> run_then (traceCoin (wid_of sh) BCID (coins (the_bank (world sh)))) (\<lambda>out. Some (ok (say out sh)))) (leads_to sh)"
    using ok by (auto simp: leads_to_refl split: sum.split)
qed

lemma step_command_leaves:
  assumes "sys_ok (world sh)"
  shows "ends_in (step_command env ln p sh) (leaves_for sh)"
proof -
  note ok = assms
  have word: "leaves_for sh (Again, say s sh)" "leaves_for sh (Exits, say s sh)" for s
    using ok by (simp_all add: leaves_for_def leads_to_refl)
  have many: "ends_in (run_then (Some (ends_with_semicolon ln)) (\<lambda>more.
      if \<not> more then again (requests_from_file env ln sh) else requests_from_terminal env ln sh)) (leaves_for sh)"
    by (rule ends_in_pure)
      (simp add: again_leaves requests_from_file_goes ok requests_from_terminal_leaves)
  show ?thesis unfolding step_command_def
  proof (rule ends_in_pure)
    fix cmd
    show "ends_in (if strcmp cmd ''exit'' = 0 then Some (ok (Exits, say (''Program exits.'' @ nl) sh))
       else if strcmp cmd ''requestTransaction'' = 0 then again (do_request env transaction_date ln sh)
       else if strcmp cmd ''requestTransactions'' = 0 then
         run_then (Some (ends_with_semicolon ln)) (\<lambda>more.
           if \<not> more then again (requests_from_file env ln sh) else requests_from_terminal env ln sh)
       else if strcmp cmd ''findEarnings'' = 0 then
         again (Some (find_cmd earnings_window (findEarnings (wid_of sh) (receiverHT (world sh))) env ln sh))
       else if strcmp cmd ''findPayments'' = 0 then
         again (Some (find_cmd payments_window (findPayments (wid_of sh) (senderHT (world sh))) env ln sh))
       else if strcmp cmd ''walletStatus'' = 0 then again (Some (do_walletStatus ln sh))
       else if strcmp cmd ''bitCoinStatus'' = 0 then again (Some (do_bitCoinStatus ln sh))
       else if strcmp cmd ''traceCoin'' = 0 then again (do_traceCoin ln sh)
       else Some (ok (Again, say usage sh))) (leaves_for sh)"
      by (simp only: ends_in_simps word again_leaves [OF do_request_goes [OF ok]] many again_leaves [OF do_walletStatus_goes [OF ok]]
          again_leaves [OF do_bitCoinStatus_goes [OF ok]] again_leaves [OF do_traceCoin_goes [OF ok]]
          again_leaves [OF find_cmd_goes [OF ok]] simp_thms if_cancel split: if_split)
  qed
qed

text \<open>Only the word exit ends the loop.\<close>

lemma multi_loop_no_exit: "multi_loop env s r ln sh \<noteq> Some (ok (Exits, sh'))"
proof -
  have "multi_loop env s r ln sh = Some y \<Longrightarrow> y \<noteq> ok (Exits, sh')" for y
  proof (rule multi_loop.raw_induct [where P = "\<lambda>env s r ln sh y. y \<noteq> ok (Exits, sh')", rotated])
    fix f :: "surround \<Rightarrow> nat option \<Rightarrow> nat option \<Rightarrow> line \<Rightarrow> shell \<Rightarrow> (fault + outcome \<times> shell) option"
      and env s r ln sh y
    assume "\<And>env s r ln sh y. f env s r ln sh = Some y \<Longrightarrow> y \<noteq> ok (Exits, sh')"
    then have f: "f env s r ln sh \<noteq> Some (ok (Exits, sh'))" for env s r ln sh by blast
    assume "run_then (multi_request env s r ln sh) (\<lambda>sh.
     run_then (Some (next_cmd ''Enter new transaction or command: '' sh)) (\<lambda>(ln, p, sh).
     run_then (Some (ends_with_semicolon ln)) (\<lambda>more.
       if more then run_then (Some (tok ln)) (\<lambda>(rcvrID, ln). f env (Some p) rcvrID ln sh)
       else Some (ok (Pending ln p, sh))))) = Some y"
    then show "y \<noteq> ok (Exits, sh')" using f
      by (auto simp: run_then_def split: option.splits sum.splits if_splits prod.splits)
  qed
  then show ?thesis by blast
qed

lemma step_exits:
  assumes "step_command env ln p sh = Some (ok (Exits, sh'))"
  shows "cstr_at (mem ln) p = ok ''exit''"
proof -
  have terminal: "requests_from_terminal env ln sh \<noteq> Some (ok (Exits, sh'))"
    unfolding requests_from_terminal_def run_then_ok_iff using multi_loop_no_exit by (auto simp: run_then_ok_iff)
  have again: "again r \<noteq> Some (ok (Exits, sh'))" for r by (auto simp: again_def run_then_ok_iff)
  show ?thesis
  proof (rule ccontr)
    assume "cstr_at (mem ln) p \<noteq> ok ''exit''"
    with assms terminal again show False
      unfolding step_command_def by (auto simp: run_then_ok_iff split: if_splits sum.splits)
  qed
qed

definition asks_exit :: "line \<Rightarrow> nat \<Rightarrow> shell \<Rightarrow> bool" where
  "asks_exit ln p sh \<longleftrightarrow> cstr_at (mem ln) p = ok ''exit''
     \<or> (\<exists>ln p. comes_from ln p sh \<and> cstr_at (mem ln) p = ok ''exit'')"

lemma asks_exit_before: "asks_exit ln p b \<Longrightarrow> leads_to a b \<Longrightarrow> comes_from ln p a \<Longrightarrow> asks_exit ln' p' a"
  unfolding asks_exit_def using comes_from_before by blast

lemma command_loop_returns:
  "sys_ok (world sh) \<Longrightarrow> ends_in (command_loop env ln p sh) (\<lambda>sh'. leads_to sh sh' \<and> asks_exit ln p sh)"
proof (induction "length (stdin sh)" arbitrary: ln p sh rule: less_induct)
  case less
  have on: "ends_in (command_loop env ln' p' sh1) (\<lambda>sh'. leads_to sh sh' \<and> asks_exit ln p sh)"
    if "leads_to sh sh1" "length (stdin sh1) < length (stdin sh)" "comes_from ln' p' sh" for ln' p' sh1
    by (rule ends_in_mono [OF less.hyps [OF that(2) leads_to_ok [OF that(1)]]])
      (use that leads_to_trans asks_exit_before in blast)
  show ?case
  proof (subst command_loop.simps, cases "step_command env ln p sh")
    case None
    then show "ends_in (run_then (step_command env ln p sh) f) Q" for f Q
      using step_command_leaves [OF less.prems] by (metis ends_in_simps(3))
  next
    case (Some y)
    show "ends_in (run_then (step_command env ln p sh) (\<lambda>(res, sh). (case res of
         Exits \<Rightarrow> Some (ok sh)
       | Again \<Rightarrow>
           run_then (Some (next_cmd (''Give command:'' @ nl) sh)) (\<lambda>(ln, p, sh). command_loop env ln p sh)
       | Pending ln p \<Rightarrow> command_loop env ln p sh))) (\<lambda>sh'. leads_to sh sh' \<and> asks_exit ln p sh)"
    proof (cases y)
      case (Inl e)
      with Some show ?thesis by simp
    next
      case (Inr x)
      obtain res sh1 where x1: "x = (res, sh1)" by fastforce
      have x: "leaves_for sh (res, sh1)"
        using step_command_leaves [OF less.prems, of env ln p] Some Inr x1 by simp
      have sh1: "leads_to sh sh1" using x by (simp add: leaves_for_def)
      show ?thesis
      proof (cases res)
        case Exits
        with Some Inr x1 have "cstr_at (mem ln) p = ok ''exit''" by (auto intro: step_exits)
        with Exits Some Inr x1 sh1 show ?thesis by (simp add: asks_exit_def)
      next
        case Again
        have "ends_in (command_loop env ln' p' sh2) (\<lambda>sh'. leads_to sh sh' \<and> asks_exit ln p sh)"
          if "next_cmd (''Give command:'' @ nl) sh1 = ok (ln', p', sh2)" for ln' p' sh2
        proof -
          have sh2: "leads_to sh1 sh2" "length (stdin sh2) < length (stdin sh1)" "comes_from ln' p' sh1"
            using next_cmd_goes [OF that leads_to_ok [OF sh1]] by simp_all
          have "length (stdin sh2) < length (stdin sh)" using sh1 sh2(2) by (simp add: leads_to_def)
          with leads_to_trans [OF sh1 sh2(1)] show ?thesis using comes_from_before [OF sh2(3) sh1] by (rule on)
        qed
        then show ?thesis unfolding Some Inr x1 Again by (auto intro!: ends_in_pure)
      next
        case (Pending ln' p')
        with x have "ends_in (command_loop env ln' p' sh1) (\<lambda>sh'. leads_to sh sh' \<and> asks_exit ln p sh)"
          by (intro on) (simp_all add: leaves_for_def)
        with Some Inr x1 Pending show ?thesis by simp
      qed
    qed
  qed
qed

lemma takeCommands_returns:
  assumes ok: "sys_ok (world sh)"
  shows "ends_in (takeCommands env sh)
    (\<lambda>sh'. leads_to sh sh' \<and> (\<exists>ln p. comes_from ln p sh \<and> cstr_at (mem ln) p = ok ''exit''))"
proof -
  have "ends_in (command_loop env ln p sh1)
      (\<lambda>sh'. leads_to sh sh' \<and> (\<exists>ln p. comes_from ln p sh \<and> cstr_at (mem ln) p = ok ''exit''))"
    if "next_cmd (''Give command:'' @ nl) sh = ok (ln, p, sh1)" for ln p sh1
  proof -
    have sh1: "leads_to sh sh1" "comes_from ln p sh" using next_cmd_goes [OF that ok] by simp_all
    show ?thesis
    proof (rule ends_in_mono [OF command_loop_returns [OF leads_to_ok [OF sh1(1)]]])
      fix sh' assume "leads_to sh1 sh' \<and> asks_exit ln p sh1"
      then show "leads_to sh sh' \<and> (\<exists>ln p. comes_from ln p sh \<and> cstr_at (mem ln) p = ok ''exit'')"
        using leads_to_trans [OF sh1(1)] comes_from_before [OF _ sh1(1)] sh1(2) unfolding asks_exit_def by blast
    qed
  qed
  then show ?thesis by (auto simp: takeCommands_def intro!: ends_in_pure)
qed

section \<open>From the text of a line to the transaction\<close>

definition cut_line :: "string \<Rightarrow> string \<Rightarrow> string \<Rightarrow> nat \<Rightarrow> string \<Rightarrow> string" where
  "cut_line pre s r a tail = pre @ s @ NUL # r @ NUL # dec a @ NUL # tail"

lemma parse_request_line:
  assumes "mem ln = pre @ request_line s r a mday rest @ NUL # z" "save ln = length pre"
    and "is_word s" "is_word r" "0 < a" "a < 2 ^ 63"
    and m: "m = cut_line pre s r a (dec mday @ CHR ''-'' # rest @ NUL # z)"
  shows "parse_request date ln =
    attempt (date m (length pre + length s + length r + 2 + length (dec a)))
      (\<lambda>d. got_it (m, length pre, length pre + length s + 1, a, d))"
proof -
  have "request_args ln = got_it (length pre, length pre + length s + 1, length pre + length s + length r + 2,
      \<lparr> mem = m, save = length pre + length s + length r + length (dec a) + 3 \<rparr>)"
    using request_args_words [of ln pre s r "dec a"] assms by (simp add: request_line_def cut_line_def dec_is_word)
  moreover have "drop (length pre + length s + length r + 2) m = dec a @ NUL # dec mday @ CHR ''-'' # rest @ NUL # z"
    by (simp add: m cut_line_def)
  ultimately show ?thesis
    using read_amount_dec [of "length pre + length s + length r + 2" m a] assms(5,6) by (simp add: parse_request_def)
qed

lemma day_of_line:
  assumes m: "m = cut_line pre s r a (dec mday @ CHR ''-'' # rest @ NUL # z)" and "mday < 2 ^ 31"
    and p: "p = length pre + length s + length r + 2 + length (dec a)"
  shows "strtol_at m (p + 1) = ok (int mday, False, p + 1 + length (dec mday))"
    and "drop (p + 1 + length (dec mday) + 1) m = rest @ NUL # z"
proof -
  have d: "drop (p + 1) m = dec mday @ CHR ''-'' # rest @ NUL # z"
    by (simp add: m p cut_line_def eval_nat_numeral)
  have "mday < 2 ^ 63" using assms(2) by (rule less_trans) simp
  then show "strtol_at m (p + 1) = ok (int mday, False, p + 1 + length (dec mday))"
    using strtol_at_dec [OF d] by (simp add: is_digit_def char_code_def)
  show "drop (p + 1 + length (dec mday) + 1) m = rest @ NUL # z" using drop_behind [OF d] .
qed

definition line_time :: "int \<Rightarrow> nat \<Rightarrow> nat \<Rightarrow> nat \<Rightarrow> nat \<Rightarrow> int" where
  "line_time mday mon year hour minute =
     timegm (tm_zero\<lparr>tm_mday := mday, tm_mon := int mon - 1, tm_year := int year - 1900,
       tm_hour := int hour, tm_min := int minute\<rparr>)"

lemma dates_of_line:
  assumes "m = cut_line pre s r a (dec mday @ CHR ''-'' # rest_text mon year hour minute @ NUL # z)"
    and "0 < mday" "mday < 2 ^ 31" "rest_ok mon year hour minute"
    and "p = length pre + length s + length r + 2 + length (dec a)"
  shows "transaction_date m p = got_it (line_time (int mday) mon year hour minute)"
    and "file_date m p = got_it (line_time 0 mon year hour minute)"
proof -
  note day = day_of_line [OF assms(1,3,5)]
  have rest: "date_rest m (p + 1 + length (dec mday)) d = got_it (line_time d mon year hour minute)" for d
    using date_rest_text [OF day(2) _ _ assms(4)] by (simp add: line_time_def is_digit_def char_code_def)
  show "transaction_date m p = got_it (line_time (int mday) mon year hour minute)"
    using assms(2,3) day(1) rest by (simp add: transaction_date_def int32_small Let_def)
  show "file_date m p = got_it (line_time 0 mon year hour minute)"
    using assms(2) day(1) rest by (simp add: file_date_def Let_def)
qed

lemma call_of_line:
  assumes "is_word s" "is_word r" "m = cut_line pre s r a tail"
  shows "call_request env m (Some (length pre)) (Some (length pre + length s + 1)) a d sh =
    run_then (requestTransaction (clock env (ticks sh)) s r a d (world sh)) (\<lambda>(w, out).
      Some (ok (say out (sh\<lparr>world := w, ticks := ticks sh + 1\<rparr>))))"
proof -
  have "cstr_at m (length pre) = ok s"
    using cstr_at_word [OF assms(1), of pre] by (simp add: assms(3) cut_line_def)
  moreover have "cstr_at m (length pre + length s + 1) = ok r"
    using cstr_at_word [OF assms(2), of "pre @ s @ [NUL]"] by (simp add: assms(3) cut_line_def)
  ultimately show ?thesis by (simp add: call_request_def)
qed

lemma do_request_line:
  assumes "mem ln = pre @ request_line s r a mday (rest_text mon year hour minute) @ NUL # z" "save ln = length pre"
    and "is_word s" "is_word r" "0 < a" "a < 2 ^ 63" "0 < mday" "mday < 2 ^ 31" "rest_ok mon year hour minute"
    and "day = int mday \<and> date = transaction_date \<or> day = 0 \<and> date = file_date"
  shows "do_request env date ln sh =
    run_then (requestTransaction (clock env (ticks sh)) s r a (line_time day mon year hour minute) (world sh)) (\<lambda>(w, out).
      Some (ok (say out (sh\<lparr>world := w, ticks := ticks sh + 1\<rparr>))))"
proof -
  define m where "m = cut_line pre s r a (dec mday @ CHR ''-'' # rest_text mon year hour minute @ NUL # z)"
  have "date m (length pre + length s + length r + 2 + length (dec a)) = got_it (line_time day mon year hour minute)"
    using assms(10) dates_of_line [OF m_def assms(7,8,9) refl] by auto
  then have "parse_request date ln = got_it (m, length pre, length pre + length s + 1, a, line_time day mon year hour minute)"
    using parse_request_line [OF assms(1-6) m_def] by simp
  then show ?thesis
    using call_of_line [OF assms(3,4) m_def] by (simp add: do_request_def got_it_def)
qed

section \<open>Properties\<close>

definition calm :: surround where
  "calm = \<lparr> clock = \<lambda>n. 0, fopen = \<lambda>name. None, tmp_files = \<lambda>n. (True, True) \<rparr>"

definition small_shell :: "string list \<Rightarrow> shell" where
  "small_shell ls = \<lparr> world = small_sys, stdin = ls, ticks = 0, printed = [] \<rparr>"

text \<open>
  C8: A session of commands always ends, whatever lines it reads: with a fault, or with
  a state that is valid, whose balances are what the recorded transactions make of the initial ones,
  and in which the worth of every coin and the sum of all balances are what they were.
\<close>

theorem session_keeps_books:
  assumes "sys_ok (world sh)" "explained start (world sh)"
  shows "\<exists>res. takeCommands env sh = Some res \<and>
    (case res of
       Inl e \<Rightarrow> True
     | Inr sh' \<Rightarrow> sys_ok (world sh') \<and> explained start (world sh') \<and> worths (the_bank (world sh')) = worths (the_bank (world sh))
         \<and> sum_list (balances (the_bank (world sh'))) = sum_list (balances (the_bank (world sh)))
         \<and> length (stdin sh') \<le> length (stdin sh))"
  using takeCommands_returns [OF assms(1), of env] assms(2)
  by (auto simp: ends_in_def leads_to_def evolves_def)

theorem session_keeps_books_witness:
  "\<exists>res. takeCommands calm (small_shell [''exit'' @ nl]) = Some res \<and>
    (case res of
       Inl e \<Rightarrow> True
     | Inr sh' \<Rightarrow> sys_ok (world sh') \<and> explained (\<lambda>p. if p = 0 then 50 else 0) (world sh')
         \<and> worths (the_bank (world sh')) = worths (the_bank (world (small_shell [''exit'' @ nl])))
         \<and> sum_list (balances (the_bank (world sh'))) = sum_list (balances (the_bank (world (small_shell [''exit'' @ nl]))))
         \<and> length (stdin sh') \<le> length (stdin (small_shell [''exit'' @ nl])))"
  by (rule session_keeps_books) (simp_all add: small_shell_def small_sys_ok small_sys_explained)

text \<open>
  C21: A line "requestTransaction s r amount day-month-year hour:minutes" is read back as
  exactly these values: the interpreter calls requestTransaction with them and goes on with the next
  line.
\<close>

theorem request_line_parsed:
  assumes "is_word s" "is_word r" "0 < a" "a < 2 ^ 63" "0 < mday" "mday < 2 ^ 31" "rest_ok mon year hour minute"
    and "stdin sh = (''requestTransaction '' @ request_line s r a mday (rest_text mon year hour minute) @ nl) # ls"
  shows "takeCommands env sh =
    run_then (requestTransaction (clock env (ticks sh)) s r a (line_time (int mday) mon year hour minute) (world sh))
      (\<lambda>(w, out). takeCommands env (say (''Give command:'' @ nl @ out) (sh\<lparr>stdin := ls, world := w, ticks := ticks sh + 1\<rparr>)))"
proof -
  let ?l = "''requestTransaction '' @ request_line s r a mday (rest_text mon year hour minute) @ nl"
  let ?c = "''requestTransaction'' @ [NUL]"
  define ln where "ln = \<lparr> mem = ?c @ request_line s r a mday (rest_text mon year hour minute) @ NUL # [NUL], save = length ?c \<rparr>"
  have "tok (load ?l) = ok (Some 0, ln)"
    using tok_word [of "load ?l" "[]" "''requestTransaction''"]
    by (simp add: load_def butlast_append is_word_def ln_def)
  moreover have "?l \<noteq> []" by simp
  ultimately have read: "next_cmd (''Give command:'' @ nl) sh = ok (ln, 0, say (''Give command:'' @ nl) (sh\<lparr>stdin := ls\<rparr>))"
    by (simp add: next_cmd_def assms(8) del: append_Cons)
  have "cstr_at (mem ln) 0 = ok ''requestTransaction''"
    using cstr_at_word [of "''requestTransaction''" "[]"] by (simp add: ln_def is_word_def)
  then have "step_command env ln 0 sh1 = again (do_request env transaction_date ln sh1)" for sh1
    by (simp add: step_command_def)
  moreover have "do_request env transaction_date ln sh1 =
      run_then (requestTransaction (clock env (ticks sh1)) s r a (line_time (int mday) mon year hour minute) (world sh1)) (\<lambda>(w, out).
        Some (ok (say out (sh1\<lparr>world := w, ticks := ticks sh1 + 1\<rparr>))))" for sh1
    by (rule do_request_line [where pre = "''requestTransaction'' @ [NUL]" and z = "[NUL]"]) (use assms in \<open>simp_all add: ln_def\<close>)
  ultimately have "command_loop env ln 0 sh1 =
      run_then (requestTransaction (clock env (ticks sh1)) s r a (line_time (int mday) mon year hour minute) (world sh1)) (\<lambda>(w, out).
        takeCommands env (say out (sh1\<lparr>world := w, ticks := ticks sh1 + 1\<rparr>)))" for sh1
    by (subst command_loop.simps) (simp add: again_def run_then_assoc takeCommands_def case_prod_beta')
  then show ?thesis
    unfolding takeCommands_def [of env sh] read by (simp add: say_def)
qed

theorem request_line_parsed_witness:
  "takeCommands calm (small_shell [''requestTransaction '' @ request_line ''A'' ''B'' 20 1 (rest_text 2 2018 10 30) @ nl]) =
     run_then (requestTransaction 0 ''A'' ''B'' 20 (line_time 1 2 2018 10 30) small_sys)
       (\<lambda>(w, out). takeCommands calm (say (''Give command:'' @ nl @ out)
          \<lparr> world = w, stdin = [], ticks = 1, printed = [] \<rparr>))"
  using request_line_parsed [of "''A''" "''B''" 20 1 2 2018 10 30
      "small_shell [''requestTransaction '' @ request_line ''A'' ''B'' 20 1 (rest_text 2 2018 10 30) @ nl]" "[]" calm]
  by (simp add: is_word_def rest_ok_def small_shell_def calm_def)

text \<open>
  The same line in a file of transactions means another date: the day of the month is
  taken as 0, whatever the line says.
\<close>

theorem file_line_loses_day:
  assumes "is_word s" "is_word r" "0 < a" "a < 2 ^ 63" "0 < mday" "mday < 2 ^ 31" "rest_ok mon year hour minute"
  shows "file_requests env ((request_line s r a mday (rest_text mon year hour minute) @ nl) # ls) sh =
    run_then (requestTransaction (clock env (ticks sh)) s r a (line_time 0 mon year hour minute) (world sh))
      (\<lambda>(w, out). file_requests env ls (say out (sh\<lparr>world := w, ticks := ticks sh + 1\<rparr>)))"
proof -
  let ?l = "request_line s r a mday (rest_text mon year hour minute)"
  have "do_request env file_date (load (?l @ nl)) sh =
      run_then (requestTransaction (clock env (ticks sh)) s r a (line_time 0 mon year hour minute) (world sh)) (\<lambda>(w, out).
        Some (ok (say out (sh\<lparr>world := w, ticks := ticks sh + 1\<rparr>))))"
    by (rule do_request_line [where pre = "[]" and z = "[NUL]"]) (use assms in \<open>simp_all add: load_def butlast_append\<close>)
  then show ?thesis by (simp add: run_then_assoc case_prod_beta')
qed

theorem file_line_loses_day_witness:
  "file_requests calm [request_line ''A'' ''B'' 20 15 (rest_text 2 2018 10 30) @ nl] (small_shell []) =
     run_then (requestTransaction 0 ''A'' ''B'' 20 (line_time 0 2 2018 10 30) small_sys)
       (\<lambda>(w, out). Some (ok (say out \<lparr> world = w, stdin = [], ticks = 1, printed = [] \<rparr>)))"
  using file_line_loses_day [of "''A''" "''B''" 20 15 2 2018 10 30 calm "[]" "small_shell []"]
  by (simp add: is_word_def rest_ok_def small_shell_def calm_def)

text \<open>
  A session whose input has no line with exit as its first word ends in a fault: getline
  returns -1 at the end of the input, which is stored in a size_t and not recognised.
\<close>

theorem session_needs_exit:
  assumes "sys_ok (world sh)"
    and "\<forall>l \<in> set (stdin sh). \<forall>ln p. tok (load l) = ok (Some p, ln) \<longrightarrow> cstr_at (mem ln) p \<noteq> ok ''exit''"
  shows "\<exists>e. takeCommands env sh = Some (crash e)"
  using takeCommands_returns [OF assms(1), of env] assms(2) by (auto simp: ends_in_def comes_from_def)

theorem session_needs_exit_witness: "\<exists>e. takeCommands calm (small_shell [''quit now'' @ nl]) = Some (crash e)"
proof (rule session_needs_exit)
  show "sys_ok (world (small_shell [''quit now'' @ nl]))" by (simp add: small_shell_def small_sys_ok)
  show "\<forall>l \<in> set (stdin (small_shell [''quit now'' @ nl])). \<forall>ln p.
      tok (load l) = ok (Some p, ln) \<longrightarrow> cstr_at (mem ln) p \<noteq> ok ''exit''"
    by (auto simp: small_shell_def tok_def load_def cstr_at_def Let_def)
qed

end
