(* ===== verification/WalletsInit.thy ===== *)
theory WalletsInit
  imports Transaction CmdLine
begin

text \<open>
  Reading the balances file (SysPro_Project1/src/wallet.c): walletsInitialization and its helpers.  The
  file is its content and a position, since findNumOfBCsOnLine seeks back.  The array of wallets is
  the list of those written so far; room is the number of slots not yet written.
\<close>

section \<open>Helpers\<close>

text \<open>The coins of the earlier wallets; the argument id is a size_t.\<close>

fun entries_have :: "bitcoin list \<Rightarrow> nat \<Rightarrow> bclist list \<Rightarrow> bool" where
  "entries_have cs i [] = False"
| "entries_have cs i (e # es) = (if ID (cs ! thisBC e) = i then True else entries_have cs i es)"

fun checkIfBCExists :: "bitcoin list \<Rightarrow> wallet list \<Rightarrow> nat \<Rightarrow> bool" where
  "checkIfBCExists cs [] i = False"
| "checkIfBCExists cs (w # ws) i = (if entries_have cs i (bcl w) then True else checkIfBCExists cs ws i)"

fun checkIfWalletExists :: "wallet list \<Rightarrow> string \<Rightarrow> bool" where
  "checkIfWalletExists [] i = False"
| "checkIfWalletExists (w # ws) i = (if strcmp (walletID w) i = 0 then True else checkIfWalletExists ws i)"

text \<open>The loop ends at the end of the file or at a byte 255, which a char cannot tell from EOF.\<close>

definition findNumOfWallets :: "string \<Rightarrow> nat" where
  "findNumOfWallets f = length (filter (\<lambda>c. c = CHR 0x0A) (takeWhile (\<lambda>c. c \<noteq> EOF_CHAR) f))"

text \<open>
  offset is one more than the number of characters in the line.  When a newline ended the loop,
  seeking back by offset restores the position; at the end of the file nothing was read last, so
  it goes one character too far, and from position 0 it fails.  Without characters the newline
  stays consumed.
\<close>

definition findNumOfBCsOnLine :: "string \<Rightarrow> nat \<Rightarrow> nat \<times> nat" where
  "findNumOfBCsOnLine f p =
     (let l = takeWhile (\<lambda>c. c \<noteq> CHR 0x0A \<and> c \<noteq> EOF_CHAR) (drop p f);
          offset = 1 + length l;
          after = (if p + length l < length f then p + length l + 1 else p + length l);
          p' = (if offset \<noteq> 1 \<and> offset \<le> after then after - offset else after)
      in (if l = [] then 0 else length (filter (\<lambda>c. c = CHR '' '') l) + 1, p'))"

text \<open>Freeing after an error: the next of a list node is read after the node was freed.\<close>

fun freeWalletsInitial :: "wallet option list \<Rightarrow> fault + unit" where
  "freeWalletsInitial [] = ok ()"
| "freeWalletsInitial (None # ws) = crash Uninitialised"
| "freeWalletsInitial (Some w # ws) = (if bcl w \<noteq> [] then crash UseAfterFree else freeWalletsInitial ws)"

section \<open>walletsInitialization\<close>

text \<open>
  The coins of one wallet: n more of them.  ws are the wallets before it, es its list so far, cs all
  coins.  fscanf leaves tmpID as it was when there is no number.
\<close>

fun coins_loop ::
    "nat \<Rightarrow> string \<Rightarrow> nat \<Rightarrow> wallet list \<Rightarrow> wallet \<Rightarrow> nat \<Rightarrow> int \<Rightarrow> bitcoin list
     \<Rightarrow> fault + string + (wallet \<times> nat \<times> int \<times> bitcoin list)" where
  "coins_loop 0 f value ws w p tmpID cs = got_it (w, p, tmpID, cs)"
| "coins_loop (Suc n) f value ws w p tmpID cs =
     (let (tmpID, rest) = fscanf_d (CHR '' '') (drop p f) tmpID;
          p = length f - length rest;
          cs' = cs @ [bitCoinInitialization tmpID (length ws) value]
      in if \<not> checkIfBCExists cs ws (nat (tmpID mod int SIZE_MOD)) then
           coins_loop n f value ws (w\<lparr>bcl := bcl w @ [\<lparr> amountOf = value, thisBC = length cs \<rparr>]\<rparr>) p tmpID cs'
         else
           and_then (freeWalletsInitial (map Some ws @ [Some w])) (\<lambda>_.
             fail_with ''BitCoin currently being inserted already exists. Program is terminated.''))"

fun wallets_loop ::
    "nat \<Rightarrow> string \<Rightarrow> nat \<Rightarrow> nat \<Rightarrow> int \<Rightarrow> wallet list \<Rightarrow> bitcoin list \<Rightarrow> fault + string + (wallet list \<times> bitcoin list)" where
  "wallets_loop room f value p tmpID ws cs =
     and_then (fscanf_s 64 (drop p f)) (\<lambda>(buffer, rest). case buffer of
       None \<Rightarrow> got_it (ws, cs)
     | Some buffer \<Rightarrow>
         if checkIfWalletExists ws buffer then
           and_then (freeWalletsInitial (map Some ws @ [None])) (\<lambda>_.
             fail_with (''Wallet '' @ buffer @ '' currently being inserted already exists. Program is terminated.''))
         else
           (case room of
              0 \<Rightarrow> crash BadIndex
            | Suc room \<Rightarrow>
                (case findNumOfBCsOnLine f (length f - length rest) of (numOfBCsOnLine, p) \<Rightarrow>
                   if numOfBCsOnLine = 0 then
                     wallets_loop room f value p tmpID (ws @ [\<lparr> walletID = buffer, wamount = 0, bcl = [] \<rparr>]) cs
                   else
                     attempt (coins_loop numOfBCsOnLine f value ws
                         \<lparr> walletID = buffer, wamount = size_mul numOfBCsOnLine value, bcl = [] \<rparr> p tmpID cs)
                       (\<lambda>(w, p, tmpID, cs). wallets_loop room f value p tmpID (ws @ [w]) cs))))"

declare wallets_loop.simps [simp del]

text \<open>
  The wallets, their coins and the sorted array, or the message before NULL is returned.  Slots of
  the array no line was read for stay unwritten; sortWallets and freeWallets read them.
\<close>

definition walletsInitialization ::
    "string \<Rightarrow> string option \<Rightarrow> nat \<Rightarrow> fault + string + (bank \<times> nat list)" where
  "walletsInitialization bitCoinBalancesFile file value =
     (case file of
        None \<Rightarrow> fail_with (''File: '' @ bitCoinBalancesFile @ '' was not read properly. Program is terminated.'')
      | Some f \<Rightarrow>
          let numOfWallets = findNumOfWallets f in
          if numOfWallets = 0 then
            fail_with (''No wallet data found in file: '' @ bitCoinBalancesFile @ '', program is terminated'')
          else
            attempt (wallets_loop numOfWallets f value 0 0 [] []) (\<lambda>(ws, cs).
              if length ws < numOfWallets then crash Uninitialised
              else
                and_then (sortWallets (\<lambda>i. walletID (ws ! i)) numOfWallets (replicate numOfWallets 0)) (\<lambda>ordered.
                  got_it (\<lparr> wallets = ws, coins = cs \<rparr>, ordered))))"

section \<open>What the file makes of the bank\<close>

text \<open>
  Every wallet lists the coins of its line once each with the full value, every coin is in one list
  and its tree is a leaf of that wallet.
\<close>

abbreviation leaf_of :: "nat \<Rightarrow> nat \<Rightarrow> ttree" where
  "leaf_of p value \<equiv> TNode p value None NullT NullT"

definition coins_of :: "nat \<Rightarrow> bitcoin list \<Rightarrow> nat \<Rightarrow> bclist list \<Rightarrow> bool" where
  "coins_of value cs p es \<longleftrightarrow> distinct (map thisBC es)
     \<and> (\<forall>e \<in> set es. amountOf e = value \<and> thisBC e < length cs \<and> root (cs ! thisBC e) = leaf_of p value)"

definition fresh :: "nat \<Rightarrow> wallet list \<Rightarrow> bitcoin list \<Rightarrow> bool" where
  "fresh value ws cs \<longleftrightarrow> distinct (map walletID ws)
     \<and> (\<forall>p < length ws. coins_of value cs p (bcl (ws ! p)))
     \<and> (\<forall>c < length cs. \<exists>p < length ws. root (cs ! c) = leaf_of p value \<and> c \<in> thisBC ` set (bcl (ws ! p)))"

definition paid :: "nat \<Rightarrow> wallet list \<Rightarrow> bool" where
  "paid value ws \<longleftrightarrow> (\<forall>w \<in> set ws. wamount w = size_mul (length (bcl w)) value)"

lemma checkIfWalletExists_iff: "checkIfWalletExists ws i \<longleftrightarrow> i \<in> walletID ` set ws"
  by (induction ws) auto

lemma entries_have_iff: "entries_have cs i es \<longleftrightarrow> (\<exists>e \<in> set es. ID (cs ! thisBC e) = i)"
  by (induction es) auto

lemma checkIfBCExists_iff: "checkIfBCExists cs ws i \<longleftrightarrow> (\<exists>w \<in> set ws. \<exists>e \<in> set (bcl w). ID (cs ! thisBC e) = i)"
  by (induction ws) (auto simp: entries_have_iff)

lemma fresh_wallet:
  assumes "fresh value ws cs" "walletID w \<notin> walletID ` set ws" "bcl w = []"
  shows "fresh value (ws @ [w]) cs"
proof -
  have "coins_of value cs p (bcl ((ws @ [w]) ! p))" if "p < length (ws @ [w])" for p
  proof (cases "p = length ws")
    case True
    with assms(3) show ?thesis by (simp add: coins_of_def)
  next
    case False
    with assms(1) that show ?thesis unfolding fresh_def by (simp add: nth_append)
  qed
  moreover have "\<exists>p < length (ws @ [w]). root (cs ! c) = leaf_of p value \<and> c \<in> thisBC ` set (bcl ((ws @ [w]) ! p))"
    if "c < length cs" for c
  proof -
    obtain p where "p < length ws" "root (cs ! c) = leaf_of p value" "c \<in> thisBC ` set (bcl (ws ! p))"
      using assms(1) \<open>c < length cs\<close> unfolding fresh_def by blast
    then show ?thesis by (intro exI [of _ p]) (simp add: nth_append)
  qed
  ultimately show ?thesis using assms(1,2) by (simp add: fresh_def)
qed

lemma fresh_coin:
  assumes "fresh value (ws @ [w]) cs"
  shows "fresh value (ws @ [w\<lparr>bcl := bcl w @ [\<lparr> amountOf = value, thisBC = length cs \<rparr>]\<rparr>])
    (cs @ [bitCoinInitialization i (length ws) value])"
proof -
  let ?w = "w\<lparr>bcl := bcl w @ [\<lparr> amountOf = value, thisBC = length cs \<rparr>]\<rparr>"
  let ?cs = "cs @ [bitCoinInitialization i (length ws) value]"
  have grown: "coins_of value cs p es \<Longrightarrow> coins_of value ?cs p es" for p es
    by (auto simp: coins_of_def nth_append)
  have lists: "coins_of value ?cs p (bcl ((ws @ [?w]) ! p))" if "p < length (ws @ [?w])" for p
  proof (cases "p = length ws")
    case True
    have "coins_of value cs (length ws) (bcl w)"
      using assms unfolding fresh_def by (metis length_append_singleton lessI nth_append_length)
    with True show ?thesis
      by (auto simp: coins_of_def nth_append bitCoinInitialization_def treeNodeInitialization_def)
  next
    case False
    then have p: "p < length ws" using that by simp
    then have "coins_of value cs p (bcl ((ws @ [w]) ! p))" using assms unfolding fresh_def by simp
    with grown p show ?thesis by (simp add: nth_append)
  qed
  have coins: "\<exists>p < length (ws @ [?w]). root (?cs ! c) = leaf_of p value \<and> c \<in> thisBC ` set (bcl ((ws @ [?w]) ! p))"
    if "c < length ?cs" for c
  proof (cases "c = length cs")
    case True
    then show ?thesis
      by (intro exI [of _ "length ws"]) (simp add: bitCoinInitialization_def treeNodeInitialization_def)
  next
    case False
    then have c: "c < length cs" using that by simp
    then obtain p where p: "p < length (ws @ [w])" "root (cs ! c) = leaf_of p value"
        "c \<in> thisBC ` set (bcl ((ws @ [w]) ! p))"
      using assms unfolding fresh_def by auto
    then have "c \<in> thisBC ` set (bcl ((ws @ [?w]) ! p))" by (auto simp: nth_append split: if_splits)
    with p c show ?thesis by (intro exI [of _ p]) (simp add: nth_append)
  qed
  have "distinct (map walletID (ws @ [?w]))" using assms by (simp add: fresh_def)
  with lists coins show ?thesis unfolding fresh_def by blast
qed

lemma coins_loop_fresh:
  assumes "coins_loop n f value ws w p i cs = ok (Inr (w', p', i', cs'))" "fresh value (ws @ [w]) cs"
  shows "fresh value (ws @ [w']) cs' \<and> wamount w' = wamount w \<and> walletID w' = walletID w
    \<and> length (bcl w') = length (bcl w) + n"
  using assms
proof (induction n arbitrary: w p i cs)
  case 0
  then show ?case by (simp add: got_it_def)
next
  case (Suc n)
  obtain i1 rest where d: "fscanf_d (CHR '' '') (drop p f) i = (i1, rest)" by fastforce
  let ?w = "w\<lparr>bcl := bcl w @ [\<lparr> amountOf = value, thisBC = length cs \<rparr>]\<rparr>"
  have "coins_loop n f value ws ?w (length f - length rest) i1 (cs @ [bitCoinInitialization i1 (length ws) value])
      = ok (Inr (w', p', i', cs'))"
    using Suc.prems(1) d by (auto simp: Let_def and_then_ok_iff fail_with_def split: if_splits)
  from Suc.IH [OF this fresh_coin [OF Suc.prems(2)]] show ?case by simp
qed

lemma wallets_loop_fresh:
  assumes "wallets_loop room f value p i ws cs = ok (Inr (ws', cs'))" "fresh value ws cs" "paid value ws"
  shows "fresh value ws' cs' \<and> paid value ws' \<and> length ws' \<le> length ws + room"
  using assms
proof (induction room arbitrary: p i ws cs)
  case 0
  then show ?case
    by (subst (asm) wallets_loop.simps)
      (auto simp: and_then_ok_iff got_it_def fail_with_def split: option.splits if_splits)
next
  case (Suc room)
  obtain buffer rest where s: "fscanf_s 64 (drop p f) = ok (buffer, rest)"
    using Suc.prems(1) by (subst (asm) wallets_loop.simps) (auto simp: and_then_ok_iff)
  show ?case
  proof (cases buffer)
    case None
    with Suc.prems s show ?thesis by (subst (asm) wallets_loop.simps) (auto simp: got_it_def)
  next
    case (Some name)
    obtain n p1 where n: "findNumOfBCsOnLine f (length f - length rest) = (n, p1)" by fastforce
    have new: "name \<notin> walletID ` set ws"
      using Suc.prems(1) s Some
      by (subst (asm) wallets_loop.simps) (auto simp: checkIfWalletExists_iff and_then_ok_iff fail_with_def split: if_splits)
    define w where "w = (\<lambda>a. \<lparr> walletID = name, wamount = a, bcl = [] \<rparr>)"
    have f: "fresh value (ws @ [w a]) cs" for a
      using fresh_wallet [OF Suc.prems(2)] new by (simp add: w_def)
    have step: "(if n = 0 then wallets_loop room f value p1 i (ws @ [w 0]) cs
        else attempt (coins_loop n f value ws (w (size_mul n value)) p1 i cs)
               (\<lambda>(w, p, i, cs). wallets_loop room f value p i (ws @ [w]) cs)) = ok (Inr (ws', cs'))"
      using Suc.prems(1) s Some n new
      by (subst (asm) wallets_loop.simps) (simp add: checkIfWalletExists_iff w_def split: if_splits)
    show ?thesis
    proof (cases "n = 0")
      case True
      have "paid value (ws @ [w 0])" using Suc.prems(3) by (simp add: paid_def w_def size_mul_def)
      with True step Suc.IH [OF _ f] show ?thesis by fastforce
    next
      case False
      then obtain w' p' i' cs1 where c: "coins_loop n f value ws (w (size_mul n value)) p1 i cs = ok (Inr (w', p', i', cs1))"
          "wallets_loop room f value p' i' (ws @ [w']) cs1 = ok (Inr (ws', cs'))"
        using step by (auto simp: attempt_ok_iff)
      have "fresh value (ws @ [w']) cs1" "paid value (ws @ [w'])"
        using coins_loop_fresh [OF c(1) f] Suc.prems(3) by (simp_all add: paid_def w_def)
      with Suc.IH [OF c(2)] show ?thesis by simp
    qed
  qed
qed

lemma entry_amount_coins:
  "coins_of value cs p es \<Longrightarrow> entry_amount es c = (if c \<in> thisBC ` set es then value else 0)"
  by (induction es) (auto simp: coins_of_def)

lemma bcl_total_coins: "coins_of value cs p es \<Longrightarrow> bcl_total es = length es * value"
  by (induction es) (auto simp: coins_of_def)

lemma coins_of_length: "coins_of value cs p es \<Longrightarrow> length es \<le> length cs"
proof -
  assume c: "coins_of value cs p es"
  then have "set (map thisBC es) \<subseteq> {..<length cs}" by (auto simp: coins_of_def)
  then have "card (set (map thisBC es)) \<le> length cs" by (metis card_lessThan card_mono finite_lessThan)
  with c show ?thesis by (simp add: coins_of_def distinct_card del: set_map)
qed

lemma fresh_bank_ok:
  assumes "fresh value ws cs" "paid value ws" "distinct (map ID cs)" "length cs * value < SIZE_MOD"
  shows "bank_ok \<lparr> wallets = ws, coins = cs \<rparr>"
proof -
  let ?wid = "\<lambda>p. walletID (ws ! p)"
  have lists: "coins_of value cs p (bcl (ws ! p))" if "p < length ws" for p using assms(1) that by (simp add: fresh_def)
  have owner: "\<exists>q < length ws. root (cs ! c) = leaf_of q value \<and> c \<in> thisBC ` set (bcl (ws ! q))"
    if "c < length cs" for c using assms(1) that by (simp add: fresh_def)
  have amts: "\<forall>BC \<in> set cs. amt (root BC) = value" using owner by (fastforce simp: in_set_conv_nth)
  then have total: "sum_list (map (\<lambda>BC. amt (root BC)) cs) = length cs * value"
    by (simp add: sum_list_triv cong: map_cong)
  have coin: "coin_ok BC" if BC: "BC \<in> set cs" for BC
  proof -
    obtain c where c: "c < length cs" "BC = cs ! c" using BC by (metis in_set_conv_nth)
    have "value < SIZE_MOD"
    proof (cases "length cs")
      case 0
      with c(1) show ?thesis by simp
    next
      case (Suc n)
      then have "value \<le> length cs * value" by simp
      with assms(4) show ?thesis by linarith
    qed
    then show ?thesis using owner [OF c(1)] c(2) by (auto simp: coin_ok_def)
  qed
  have entries: "entry_amount (bcl (ws ! p)) c = holding ?wid (root (cs ! c)) (?wid p)"
    if p: "p < length ws" and c: "c < length cs" for p c
  proof -
    obtain q where q: "q < length ws" "root (cs ! c) = leaf_of q value" "c \<in> thisBC ` set (bcl (ws ! q))"
      using owner [OF c] by blast
    have "?wid q = ?wid p \<longleftrightarrow> q = p"
      using assms(1) p q(1) nth_eq_iff_index_eq [of "map walletID ws" q p] by (simp add: fresh_def)
    moreover have "c \<in> thisBC ` set (bcl (ws ! p)) \<longleftrightarrow> q = p"
      using lists [OF p] q(2,3) by (auto simp: coins_of_def)
    ultimately show ?thesis using entry_amount_coins [OF lists [OF p]] q(2) by simp
  qed
  have balance: "wamount (ws ! p) = bcl_total (bcl (ws ! p))" if p: "p < length ws" for p
  proof -
    have "length (bcl (ws ! p)) * value \<le> length cs * value" using coins_of_length [OF lists [OF p]] by simp
    then have "size_mul (length (bcl (ws ! p))) value = length (bcl (ws ! p)) * value"
      using assms(4) by (intro size_mul_exact) linarith
    then show ?thesis using assms(2) p bcl_total_coins [OF lists [OF p]] by (simp add: paid_def)
  qed
  show ?thesis unfolding bank_ok_def ledger_ok_def
    using assms(1,3,4) coin entries balance lists total by (auto simp: fresh_def coins_of_def)
qed

lemma walletsInitialization_cases:
  assumes "walletsInitialization name file value = ok (Inr (b, ordered))"
  obtains f where "file = Some f" "fresh value (wallets b) (coins b)" "paid value (wallets b)"
    "length (wallets b) = findNumOfWallets f" "0 < length (wallets b)"
    "sortWallets (wid b) (length (wallets b)) (replicate (length (wallets b)) 0) = ok ordered"
proof -
  obtain f where f: "file = Some f" using assms by (cases "file") (simp_all add: walletsInitialization_def fail_with_def)
  let ?n = "findNumOfWallets f"
  have n: "?n \<noteq> 0"
  proof
    assume "?n = 0"
    with assms f show False by (simp add: walletsInitialization_def fail_with_def)
  qed
  obtain ws cs where l: "wallets_loop ?n f value 0 0 [] [] = ok (Inr (ws, cs))"
      and r: "(if length ws < ?n then crash Uninitialised
              else and_then (sortWallets (\<lambda>i. walletID (ws ! i)) ?n (replicate ?n 0)) (\<lambda>ordered.
                  got_it (\<lparr> wallets = ws, coins = cs \<rparr>, ordered))) = ok (Inr (b, ordered))"
    using assms f n by (auto simp: walletsInitialization_def attempt_ok_iff Let_def)
  have "fresh value ws cs \<and> paid value ws \<and> length ws \<le> ?n"
    using wallets_loop_fresh [OF l] by (simp add: fresh_def paid_def)
  with r n f that show thesis by (auto simp: and_then_ok_iff got_it_def split: if_splits)
qed

section \<open>Well-formed files\<close>

text \<open>A wallet and its coins on a line each, the coins as decimal numbers.\<close>

type_synonym balance_line = "string \<times> nat list"

fun ids_text :: "nat list \<Rightarrow> string" where
  "ids_text [] = []"
| "ids_text [i] = dec i"
| "ids_text (i # is) = dec i @ '' '' @ ids_text is"

definition line_text :: "balance_line \<Rightarrow> string" where
  "line_text l = fst l @ '' '' @ ids_text (snd l) @ nl"

definition balances_text :: "balance_line list \<Rightarrow> string" where
  "balances_text ls = concat (map line_text ls)"

definition name_ok :: "string \<Rightarrow> bool" where
  "name_ok w \<longleftrightarrow> w \<noteq> [] \<and> length w < 64 \<and> (\<forall>c \<in> set w. \<not> is_space c \<and> c \<noteq> NUL \<and> c \<noteq> EOF_CHAR)"

definition line_ok :: "balance_line \<Rightarrow> bool" where
  "line_ok l \<longleftrightarrow> name_ok (fst l) \<and> snd l \<noteq> [] \<and> (\<forall>i \<in> set (snd l). i < 2 ^ 31)"

text \<open>The wallets and coins such a file stands for; from is the number of the first wallet.\<close>

fun line_wallets :: "nat \<Rightarrow> nat \<Rightarrow> balance_line list \<Rightarrow> wallet list" where
  "line_wallets value c [] = []"
| "line_wallets value c ((name, is) # ls) =
     \<lparr> walletID = name, wamount = size_mul (length is) value,
       bcl = map (\<lambda>k. \<lparr> amountOf = value, thisBC = k \<rparr>) [c..<c + length is] \<rparr> # line_wallets value (c + length is) ls"

fun line_coins :: "nat \<Rightarrow> nat \<Rightarrow> balance_line list \<Rightarrow> bitcoin list" where
  "line_coins value p [] = []"
| "line_coins value p ((name, is) # ls) =
     map (\<lambda>i. bitCoinInitialization (int i) p value) is @ line_coins value (Suc p) ls"

lemma space_or_digit: "is_digit c \<Longrightarrow> \<not> is_space c \<and> c \<noteq> CHR 0x0A \<and> c \<noteq> EOF_CHAR \<and> c \<noteq> CHR '' ''"
  by (auto simp: is_digit_def is_space_def char_code_def EOF_CHAR_def)

lemma name_text:
  assumes "name_ok w"
  shows "fscanf_s 64 (w @ CHR '' '' # r) = ok (Some w, skip_ws r)"
proof -
  obtain c cs where w: "w = c # cs" using assms by (cases w) (simp_all add: name_ok_def)
  have "skip_ws (w @ CHR '' '' # r) = w @ CHR '' '' # r" using assms w by (simp add: skip_ws_def name_ok_def)
  moreover have "takeWhile (\<lambda>c. \<not> is_space c) (w @ CHR '' '' # r) = w"
      "dropWhile (\<lambda>c. \<not> is_space c) (w @ CHR '' '' # r) = CHR '' '' # r"
    using assms by (simp_all add: takeWhile_append2 dropWhile_append2 name_ok_def is_space_def char_code_def)
  moreover have "takeWhile (\<lambda>c. c \<noteq> NUL) w = w" using assms by (simp add: name_ok_def)
  ultimately show ?thesis using assms w
    by (simp add: fscanf_s_def name_ok_def Let_def skip_ws_def is_space_def char_code_def)
qed

lemma dec_text:
  assumes "i < 2 ^ 31" "is_space c"
  shows "fscanf_d (CHR '' '') (dec i @ c # r) v = (int i, skip_ws r)"
proof -
  have "\<not> is_digit c" using assms(2) by (auto simp: is_space_def is_digit_def)
  then have "takeWhile is_digit (dec i @ c # r) = dec i" "dropWhile is_digit (dec i @ c # r) = c # r"
    using dec_span [of "c # r" i] by simp_all
  moreover have "int i < 2 ^ 31" using assms(1) by (metis of_nat_less_iff of_nat_numeral of_nat_power)
  then have "to_int32 (clamp_long (int i)) = int i" by (simp add: clamp_long_def to_int32_id)
  moreover have "is_space (CHR '' '')" by (simp add: is_space_def char_code_def)
  moreover have "skip_ws (c # r) = skip_ws r" using assms(2) by (simp add: skip_ws_def)
  ultimately show ?thesis
    by (simp add: fscanf_d_def dec_head dec_nonempty digits_value_dec match_tail_def)
qed

lemma ids_chars: "c \<in> set (ids_text is) \<Longrightarrow> is_digit c \<or> c = CHR '' ''"
  by (induction "is" rule: ids_text.induct) (auto dest: dec_digits)

lemma ids_starts: "is \<noteq> [] \<Longrightarrow> skip_ws (ids_text is @ r) = ids_text is @ r"
  by (induction "is" rule: ids_text.induct) (simp_all add: dec_head)

lemma ids_spaces: "is \<noteq> [] \<Longrightarrow> length (filter (\<lambda>c. c = CHR '' '') (ids_text is)) = length is - 1"
proof (induction "is" rule: ids_text.induct)
  case 1
  then show ?case by simp
next
  case (2 i)
  have "filter (\<lambda>c. c = CHR '' '') (dec i) = []"
    using dec_digits space_or_digit by (fastforce simp: filter_empty_conv)
  then show ?case by simp
next
  case (3 i v va)
  have "filter (\<lambda>c. c = CHR '' '') (dec i) = []"
    using dec_digits space_or_digit by (fastforce simp: filter_empty_conv)
  with 3 show ?case by simp
qed

lemma count_of_line:
  assumes "drop p f = ids_text is @ CHR 0x0A # r" "is \<noteq> []"
  shows "findNumOfBCsOnLine f p = (length is, p)"
proof -
  have chars: "\<forall>c \<in> set (ids_text is). c \<noteq> CHR 0x0A \<and> c \<noteq> EOF_CHAR"
  proof
    fix c assume "c \<in> set (ids_text is)"
    from ids_chars [OF this] show "c \<noteq> CHR 0x0A \<and> c \<noteq> EOF_CHAR"
      using space_or_digit by (auto simp: EOF_CHAR_def)
  qed
  then have l: "takeWhile (\<lambda>c. c \<noteq> CHR 0x0A \<and> c \<noteq> EOF_CHAR) (drop p f) = ids_text is"
    unfolding assms(1) by (subst takeWhile_append2) auto
  have ne: "ids_text is \<noteq> []" using assms(2) dec_nonempty by (cases "is" rule: ids_text.cases) auto
  have "length f - p = length (ids_text is) + Suc (length r)" using arg_cong [OF assms(1), of length] by simp
  then have "p + length (ids_text is) < length f" by simp
  with l ne ids_spaces [OF assms(2)] assms(2) show ?thesis
    by (simp add: findNumOfBCsOnLine_def Let_def)
qed

lemma drop_to: "drop p f = a @ r \<Longrightarrow> drop (length f - length r) f = r"
proof -
  assume d: "drop p f = a @ r"
  have "f = take p f @ a @ r" using append_take_drop_id [of p f] d by simp
  then obtain u where "f = u @ r" by (metis append.assoc)
  then show ?thesis by simp
qed

text \<open>None of the coins in is belongs to an earlier wallet.\<close>

definition unknown :: "nat set \<Rightarrow> wallet list \<Rightarrow> bitcoin list \<Rightarrow> bool" where
  "unknown I ws cs \<longleftrightarrow> (\<forall>w \<in> set ws. \<forall>e \<in> set (bcl w). thisBC e < length cs \<and> ID (cs ! thisBC e) \<notin> I)"

lemma unknown_coin: "unknown I ws cs \<Longrightarrow> unknown I ws (cs @ cs')"
  by (fastforce simp: unknown_def nth_append)

lemma unknown_not: "unknown I ws cs \<Longrightarrow> i \<in> I \<Longrightarrow> \<not> checkIfBCExists cs ws i"
  by (auto simp: unknown_def checkIfBCExists_iff)

lemma int_id: "i < 2 ^ 31 \<Longrightarrow> nat (int i mod int SIZE_MOD) = i"
proof -
  assume "i < 2 ^ 31"
  then have "i < SIZE_MOD" by (simp add: SIZE_MOD_def)
  then show ?thesis by (metis mod_less nat_int zmod_int)
qed

lemma coins_loop_text:
  assumes "drop p f = ids_text is @ CHR 0x0A # r" "is \<noteq> []" "\<forall>i \<in> set is. i < 2 ^ 31" "unknown (set is) ws cs"
  shows "\<exists>t'. coins_loop (length is) f value ws w p t cs = got_it
    (w\<lparr>bcl := bcl w @ map (\<lambda>k. \<lparr> amountOf = value, thisBC = k \<rparr>) [length cs..<length cs + length is]\<rparr>,
     length f - length (skip_ws r), t', cs @ map (\<lambda>i. bitCoinInitialization (int i) (length ws) value) is)"
  using assms
proof (induction "is" arbitrary: p w t cs rule: ids_text.induct)
  case 1
  then show ?case by simp
next
  case (2 i)
  have "fscanf_d (CHR '' '') (drop p f) t = (int i, skip_ws r)"
    unfolding 2(1) ids_text.simps using 2(3) by (intro dec_text) (simp_all add: is_space_def char_code_def)
  moreover have "\<not> checkIfBCExists cs ws i" using unknown_not [OF 2(4)] by simp
  ultimately show ?case using 2(3) by (simp add: int_id got_it_def)
next
  case (3 i j js)
  let ?r = "ids_text (j # js) @ CHR 0x0A # r"
  have d: "drop p f = (dec i @ '' '') @ ?r" using 3(2) by simp
  have "fscanf_d (CHR '' '') (drop p f) t = (int i, skip_ws ?r)"
    unfolding 3(2) ids_text.simps append_assoc append_Cons append_Nil using 3(4)
    by (intro dec_text) (simp_all add: is_space_def char_code_def)
  then have num: "fscanf_d (CHR '' '') (drop p f) t = (int i, ?r)" using ids_starts [of "j # js"] by simp
  have new: "\<not> checkIfBCExists cs ws i" using unknown_not [OF 3(5)] by simp
  let ?cs = "cs @ [bitCoinInitialization (int i) (length ws) value]"
  have "unknown (set (j # js)) ws ?cs"
    using 3(5) by (intro unknown_coin) (auto simp: unknown_def)
  from 3(1) [OF drop_to [OF d] _ _ this, of "w\<lparr>bcl := bcl w @ [\<lparr> amountOf = value, thisBC = length cs \<rparr>]\<rparr>" "int i"] 3(4)
  obtain t' where rest: "coins_loop (length (j # js)) f value ws (w\<lparr>bcl := bcl w @ [\<lparr> amountOf = value, thisBC = length cs \<rparr>]\<rparr>)
      (length f - length ?r) (int i) ?cs = got_it
    (w\<lparr>bcl := (bcl w @ [\<lparr> amountOf = value, thisBC = length cs \<rparr>])
         @ map (\<lambda>k. \<lparr> amountOf = value, thisBC = k \<rparr>) [length ?cs..<length ?cs + length (j # js)]\<rparr>,
     length f - length (skip_ws r), t', ?cs @ map (\<lambda>i. bitCoinInitialization (int i) (length ws) value) (j # js))"
    by auto
  have "coins_loop (Suc n) f value ws w p t cs = coins_loop n f value ws
      (w\<lparr>bcl := bcl w @ [\<lparr> amountOf = value, thisBC = length cs \<rparr>]\<rparr>) (length f - length ?r) (int i) ?cs" for n
    using num new 3(4) by (simp add: int_id Let_def)
  from this [of "length (j # js)"]
  have step: "coins_loop (length (i # j # js)) f value ws w p t cs = coins_loop (length (j # js)) f value ws
      (w\<lparr>bcl := bcl w @ [\<lparr> amountOf = value, thisBC = length cs \<rparr>]\<rparr>) (length f - length ?r) (int i) ?cs"
    unfolding list.size add_Suc_right add_0_right .
  have range: "[length cs..<length cs + length (i # j # js)] = length cs # [length ?cs..<length ?cs + length (j # js)]"
    by (simp add: upt_rec)
  show ?case unfolding step rest range by (auto simp: got_it_def)
qed

lemma line_starts: "ls \<noteq> [] \<Longrightarrow> line_ok (hd ls) \<Longrightarrow> skip_ws (balances_text ls) = balances_text ls"
proof (cases ls)
  case (Cons l ls')
  assume "line_ok (hd ls)"
  moreover obtain c cs where "fst l = c # cs"
    using \<open>line_ok (hd ls)\<close> Cons by (cases "fst l") (simp_all add: line_ok_def name_ok_def)
  ultimately show ?thesis using Cons by (simp add: balances_text_def line_text_def skip_ws_def line_ok_def name_ok_def)
qed simp

lemma wallets_loop_text:
  assumes "drop p f = balances_text ls" "\<forall>l \<in> set ls. line_ok l"
    and "distinct (map fst ls)" "\<forall>l \<in> set ls. fst l \<notin> walletID ` set ws"
    and "distinct (concat (map snd ls))" "unknown (set (concat (map snd ls))) ws cs"
  shows "wallets_loop (length ls) f value p t ws cs =
    got_it (ws @ line_wallets value (length cs) ls, cs @ line_coins value (length ws) ls)"
  using assms
proof (induction ls arbitrary: p t ws cs)
  case Nil
  then show ?case
    by (subst wallets_loop.simps) (simp add: balances_text_def fscanf_s_def skip_ws_def)
next
  case (Cons l ls)
  obtain name "is" where l: "l = (name, is)" by fastforce
  have ok: "name_ok name" "is \<noteq> []" "\<forall>i \<in> set is. i < 2 ^ 31" using Cons.prems(2) l by (simp_all add: line_ok_def)
  have lt: "drop p f = name @ CHR '' '' # ids_text is @ CHR 0x0A # balances_text ls"
    using Cons.prems(1) l by (simp add: balances_text_def line_text_def)
  have name: "fscanf_s 64 (drop p f) = ok (Some name, ids_text is @ CHR 0x0A # balances_text ls)"
    unfolding lt using name_text [OF ok(1)] ids_starts [OF ok(2)] by simp
  let ?r = "ids_text is @ CHR 0x0A # balances_text ls"
  let ?p = "length f - length ?r"
  have d: "drop ?p f = ?r" using drop_to [of p f "name @ '' ''" ?r] lt by simp
  have new: "\<not> checkIfWalletExists ws name" using Cons.prems(4) l by (simp add: checkIfWalletExists_iff)
  let ?w = "\<lparr> walletID = name, wamount = size_mul (length is) value,
       bcl = map (\<lambda>k. \<lparr> amountOf = value, thisBC = k \<rparr>) [length cs..<length cs + length is] \<rparr>"
  let ?cs = "cs @ map (\<lambda>i. bitCoinInitialization (int i) (length ws) value) is"
  let ?q = "length f - length (skip_ws (balances_text ls))"
  have known: "unknown (set is) ws cs" using Cons.prems(6) l by (auto simp: unknown_def)
  obtain t' where coins: "coins_loop (length is) f value ws \<lparr> walletID = name, wamount = size_mul (length is) value, bcl = [] \<rparr> ?p t cs
      = got_it (?w, ?q, t', ?cs)"
    using coins_loop_text [OF d ok(2,3) known, of "value" "\<lparr> walletID = name, wamount = size_mul (length is) value, bcl = [] \<rparr>" t]
    by auto
  have step: "wallets_loop (length (l # ls)) f value p t ws cs = wallets_loop (length ls) f value ?q t' (ws @ [?w]) ?cs"
    using name new count_of_line [OF d ok(2)] coins ok(2) by (subst wallets_loop.simps) simp
  have "drop ?q f = balances_text ls"
  proof (cases "ls = []")
    case True
    then show ?thesis by (simp add: balances_text_def skip_ws_def)
  next
    case False
    then have "skip_ws (balances_text ls) = balances_text ls" using Cons.prems(2) by (intro line_starts) (cases ls; simp)+
    then show ?thesis using drop_to [of ?p f "ids_text is @ nl" "balances_text ls"] d by simp
  qed
  moreover have "unknown (set (concat (map snd ls))) (ws @ [?w]) ?cs"
  proof -
    have "ID (?cs ! k) \<in> set is" if "k \<in> set [length cs..<length cs + length is]" for k
    proof -
      have "k - length cs < length is" "k \<ge> length cs" using that by auto
      then show ?thesis using ok(3) by (auto simp: nth_append bitCoinInitialization_def int_id)
    qed
    moreover have "set is \<inter> set (concat (map snd ls)) = {}" using Cons.prems(5) l by auto
    ultimately have "\<forall>e \<in> set (bcl ?w). thisBC e < length ?cs \<and> ID (?cs ! thisBC e) \<notin> set (concat (map snd ls))"
      by fastforce
    moreover have "unknown (set (concat (map snd ls))) ws ?cs"
      using Cons.prems(6) by (intro unknown_coin) (auto simp: unknown_def)
    ultimately show ?thesis by (simp add: unknown_def)
  qed
  ultimately have "wallets_loop (length ls) f value ?q t' (ws @ [?w]) ?cs =
      got_it ((ws @ [?w]) @ line_wallets value (length ?cs) ls, ?cs @ line_coins value (length (ws @ [?w])) ls)"
    using Cons.prems(2-5) l by (intro Cons.IH) auto
  with step l show ?case by simp
qed

lemma ids_no_newline: "c \<in> set (ids_text is) \<Longrightarrow> c \<noteq> CHR 0x0A \<and> c \<noteq> EOF_CHAR"
  using ids_chars [of c "is"] space_or_digit by (auto simp: EOF_CHAR_def)

lemma line_chars: "line_ok l \<Longrightarrow> c \<in> set (fst l @ '' '' @ ids_text (snd l)) \<Longrightarrow> c \<noteq> CHR 0x0A \<and> c \<noteq> EOF_CHAR"
  using ids_no_newline by (auto simp: line_ok_def name_ok_def is_space_def char_code_def EOF_CHAR_def)

lemma count_lines_text: "\<forall>l \<in> set ls. line_ok l \<Longrightarrow> findNumOfWallets (balances_text ls) = length ls"
proof -
  assume ok: "\<forall>l \<in> set ls. line_ok l"
  have "c \<noteq> EOF_CHAR" if c: "c \<in> set (balances_text ls)" for c
  proof -
    obtain l where l: "l \<in> set ls" "c \<in> set (line_text l)"
      using c by (simp only: balances_text_def set_concat set_map) blast
    then consider "c \<in> set (fst l @ '' '' @ ids_text (snd l))" | "c = CHR 0x0A" by (auto simp: line_text_def)
    then show ?thesis
    proof cases
      case 1
      have "line_ok l" using ok l(1) by (rule bspec)
      with 1 line_chars show ?thesis by simp
    next
      case 2
      then show ?thesis by (simp add: EOF_CHAR_def)
    qed
  qed
  then have "takeWhile (\<lambda>c. c \<noteq> EOF_CHAR) (balances_text ls) = balances_text ls" by simp
  moreover have "length (filter (\<lambda>c. c = CHR 0x0A) (balances_text ls)) = length ls" using ok
  proof (induction ls)
    case (Cons l ls)
    then have "filter (\<lambda>c. c = CHR 0x0A) (fst l @ '' '' @ ids_text (snd l)) = []"
      using line_chars [of l] by (fastforce simp: filter_empty_conv)
    then have "filter (\<lambda>c. c = CHR 0x0A) (line_text l) = nl" by (simp add: line_text_def)
    with Cons show ?case by (simp add: balances_text_def)
  qed (simp add: balances_text_def)
  ultimately show ?thesis by (simp only: findNumOfWallets_def)
qed

lemma line_wallets_length: "length (line_wallets v c ls) = length ls"
  by (induction v c ls rule: line_wallets.induct) simp_all

lemma line_coins_ids: "\<forall>l \<in> set ls. line_ok l \<Longrightarrow> map ID (line_coins v p ls) = concat (map snd ls)"
proof (induction v p ls rule: line_coins.induct)
  case (2 v p name "is" ls)
  then have "map (\<lambda>i. ID (bitCoinInitialization (int i) p v)) is = is"
    by (intro map_idI) (simp add: bitCoinInitialization_def int_id line_ok_def)
  with 2 show ?case by (simp add: comp_def)
qed simp

definition file_bank :: "nat \<Rightarrow> balance_line list \<Rightarrow> bank" where
  "file_bank value ls = \<lparr> wallets = line_wallets value 0 ls, coins = line_coins value 0 ls \<rparr>"

definition lines_ok :: "balance_line list \<Rightarrow> bool" where
  "lines_ok ls \<longleftrightarrow> ls \<noteq> [] \<and> (\<forall>l \<in> set ls. line_ok l) \<and> distinct (map fst ls) \<and> distinct (concat (map snd ls))"

lemma balances_text_read:
  assumes "lines_ok ls" "length ls < SIZE_MOD"
  shows "\<exists>ordered. walletsInitialization name (Some (balances_text ls)) value = ok (Inr (file_bank value ls, ordered))
    \<and> sorted_by (wid (file_bank value ls)) ordered \<and> mset ordered = mset [0..<length ls]"
proof -
  have loop: "wallets_loop (length ls) (balances_text ls) value 0 0 [] [] =
      got_it (line_wallets value 0 ls, line_coins value 0 ls)"
    using wallets_loop_text [of 0 "balances_text ls" ls "[]" "[]" "value" 0] assms(1) by (simp add: lines_ok_def unknown_def)
  obtain ordered where "sortWallets (wid (file_bank value ls)) (length ls) (replicate (length ls) 0) = ok ordered"
      "sorted_by (wid (file_bank value ls)) ordered" "mset ordered = mset [0..<length ls]"
    using sortWallets_sorts [of "length ls" "replicate (length ls) 0" "wid (file_bank value ls)"] assms
    by (auto simp: lines_ok_def)
  then show ?thesis using loop assms(1) count_lines_text [of ls]
    by (simp add: walletsInitialization_def lines_ok_def line_wallets_length file_bank_def got_it_def)
qed

text \<open>
  C18: A file with a line for every wallet, its name and at least one coin, all names and coins
  different, is read back exactly: every wallet gets its coins with their full value, and the
  array returned is the wallets in the order of their names.
\<close>

theorem balances_read_back:
  assumes "lines_ok ls" "length ls < SIZE_MOD"
  shows "\<exists>ordered. walletsInitialization name (Some (balances_text ls)) value = ok (Inr (file_bank value ls, ordered))
    \<and> sorted_by (wid (file_bank value ls)) ordered \<and> mset ordered = mset [0..<length ls]"
  using balances_text_read [OF assms] .

theorem balances_read_back_witness:
  "\<exists>ordered. walletsInitialization ''f'' (Some (''Bob 4 15'' @ nl @ ''Al 7'' @ nl)) 10 = ok (Inr (
      \<lparr> wallets = [\<lparr> walletID = ''Bob'', wamount = 20, bcl = [\<lparr> amountOf = 10, thisBC = 0 \<rparr>, \<lparr> amountOf = 10, thisBC = 1 \<rparr>] \<rparr>,
                   \<lparr> walletID = ''Al'', wamount = 10, bcl = [\<lparr> amountOf = 10, thisBC = 2 \<rparr>] \<rparr>],
        coins = map (\<lambda>(i, p). bitCoinInitialization i p 10) [(4, 0), (15, 0), (7, 1)] \<rparr>, ordered))"
proof -
  have "balances_text [(''Bob'', [4, 15]), (''Al'', [7])] = ''Bob 4 15'' @ nl @ ''Al 7'' @ nl"
    by code_simp
  moreover have "lines_ok [(''Bob'', [4, 15]), (''Al'', [7])]"
    by (simp add: lines_ok_def line_ok_def name_ok_def is_space_def char_code_def EOF_CHAR_def)
  moreover have "file_bank 10 [(''Bob'', [4, 15]), (''Al'', [7])] =
      \<lparr> wallets = [\<lparr> walletID = ''Bob'', wamount = 20, bcl = [\<lparr> amountOf = 10, thisBC = 0 \<rparr>, \<lparr> amountOf = 10, thisBC = 1 \<rparr>] \<rparr>,
                   \<lparr> walletID = ''Al'', wamount = 10, bcl = [\<lparr> amountOf = 10, thisBC = 2 \<rparr>] \<rparr>],
        coins = map (\<lambda>(i, p). bitCoinInitialization i p 10) [(4, 0), (15, 0), (7, 1)] \<rparr>"
    by (simp add: file_bank_def size_mul_def SIZE_MOD_def upt_rec)
  moreover obtain ordered where
      "walletsInitialization ''f'' (Some (balances_text [(''Bob'', [4, 15]), (''Al'', [7])])) 10 =
         ok (Inr (file_bank 10 [(''Bob'', [4, 15]), (''Al'', [7])], ordered))"
    using balances_read_back [of "[(''Bob'', [4, 15]), (''Al'', [7])]" "''f''" 10] calculation(2)
    by (auto simp: SIZE_MOD_def)
  ultimately show ?thesis by (intro exI [of _ ordered]) simp
qed

lemma initial_bank_ok:
  assumes "walletsInitialization name file value = ok (Inr (b, ordered))"
    and "distinct (map ID (coins b))" "length (coins b) * value < SIZE_MOD" "length (wallets b) < SIZE_MOD"
  shows "bank_ok b \<and> sorted_by (wid b) ordered \<and> mset ordered = mset [0..<length (wallets b)] \<and> ordered \<noteq> []
    \<and> worths b = replicate (length (coins b)) value"
proof -
  obtain f where f: "file = Some f" "fresh value (wallets b) (coins b)" "paid value (wallets b)"
      "length (wallets b) = findNumOfWallets f" "0 < length (wallets b)"
      "sortWallets (wid b) (length (wallets b)) (replicate (length (wallets b)) 0) = ok ordered"
    using assms(1) by (rule walletsInitialization_cases)
  have bank: "bank_ok b" using fresh_bank_ok [OF f(2,3) assms(2,3)] by (cases b) simp
  have sorted: "sorted_by (wid b) ordered" "mset ordered = mset [0..<length (wallets b)]"
    using sortWallets_sorts [OF f(5) assms(4), of "replicate (length (wallets b)) 0" "wid b"] f(6) by auto
  have "\<forall>BC \<in> set (coins b). amt (root BC) = value"
    using f(2) by (fastforce simp: fresh_def in_set_conv_nth)
  then have "worths b = map (\<lambda>BC. value) (coins b)" by (simp add: worths_def)
  then have "worths b = replicate (length (coins b)) value" by (simp add: map_replicate_const)
  moreover have "size (mset ordered) = length (wallets b)" using sorted(2) by simp
  then have "ordered \<noteq> []" using f(5) by auto
  ultimately show ?thesis using bank sorted by blast
qed

section \<open>Errors in the file\<close>

lemma free_with_coins: "\<exists>w \<in> set ws. bcl w \<noteq> [] \<Longrightarrow> \<exists>e. freeWalletsInitial (map Some ws @ rest) = crash e"
  by (induction ws) auto

lemma free_unwritten: "\<exists>e. freeWalletsInitial (map Some ws @ [None]) = crash e"
  by (induction ws) auto

lemma coins_loop_no_message: "coins_loop n f value ws w p i cs \<noteq> ok (Inl msg)"
proof (induction n f "value" ws w p i cs rule: coins_loop.induct)
  case (1 f v ws w p i cs)
  then show ?case by (simp add: got_it_def)
next
  case (2 n f v ws w p i cs)
  obtain i1 rest where d: "fscanf_d (CHR '' '') (drop p f) i = (i1, rest)" by fastforce
  show ?case
  proof (cases "checkIfBCExists cs ws (nat (i1 mod int SIZE_MOD))")
    case True
    then have "\<exists>w \<in> set ws. bcl w \<noteq> []" unfolding checkIfBCExists_iff by (metis empty_iff list.set(1))
    with free_with_coins obtain e where "freeWalletsInitial (map Some ws @ [Some w]) = crash e" by blast
    with True d show ?thesis by simp
  next
    case False
    with 2 d show ?thesis by (simp add: Let_def)
  qed
qed

lemma wallets_loop_no_message: "wallets_loop room f value p i ws cs \<noteq> ok (Inl msg)"
proof (induction room arbitrary: p i ws cs)
  case 0
  then show ?case
    by (subst wallets_loop.simps)
      (use free_unwritten [of ws] in \<open>auto simp: and_then_ok_iff got_it_def split: option.split\<close>)
next
  case (Suc room)
  have "attempt (coins_loop n f value ws w p i cs)
      (\<lambda>(w, p, tmpID, cs). wallets_loop room f value p tmpID (ws @ [w]) cs) \<noteq> ok (Inl msg)" for n w p i
    using coins_loop_no_message [of n f "value" ws w p i cs] Suc
    by (auto simp: attempt_def and_then_ok_iff split: sum.split)
  with Suc show ?case
    by (subst wallets_loop.simps)
      (use free_unwritten [of ws] in \<open>auto simp: and_then_ok_iff got_it_def split: option.split prod.split\<close>)
qed

text \<open>
  A wallet or a coin that is in the file twice never leads to the message meant for it: the
  clean-up before it frees a wallet that was not written yet or reads a list node after freeing it.
  The only message about a readable file is that it has no wallets.
\<close>

theorem duplicates_fault:
  assumes "findNumOfWallets f \<noteq> 0"
  shows "walletsInitialization name (Some f) value \<noteq> ok (Inl msg)"
  using assms wallets_loop_no_message [of "findNumOfWallets f" f "value" 0 0 "[]" "[]"]
  by (auto simp: walletsInitialization_def Let_def attempt_def and_then_ok_iff got_it_def split: sum.split)

theorem duplicates_fault_witness:
  "\<forall>msg. walletsInitialization ''f'' (Some (''A 1'' @ nl @ ''A 2'' @ nl)) 10 \<noteq> ok (Inl msg)"
  by (intro allI duplicates_fault) (simp add: findNumOfWallets_def EOF_CHAR_def)

end
