(* ===== verification/Cleanup.thy ===== *)
theory Cleanup
  imports WalletsInit
begin

text \<open>
  How the bitcoin program gives its memory back: freeTree, freeBitCoin and freeBitCoins of
  SysPro_Project1/src/bitCoin.c, freeWallets of wallet.c, freeSenderHashTable and
  freeReceiverHashTable of hashTable.c.  The functions return what they freed, in order.
\<close>

section \<open>Coins\<close>

text \<open>
  The walk of freeTree; a node is the turns from it up to the root, as in BitCoin.  A freed leaf is
  replaced by NULL in its parent.  tmpParent is always the parent of the node.
\<close>

partial_function (option) free_tree_loop :: "ttree \<Rightarrow> turn list \<Rightarrow> turn list list \<Rightarrow> (fault + turn list list) option" where
  "free_tree_loop t node freed =
     (case subtree t (rev node) of
        NullT \<Rightarrow> Some (ok freed)
      | TNode w a x l r \<Rightarrow>
          if l \<noteq> NullT then free_tree_loop t (L # node) freed
          else if r \<noteq> NullT then free_tree_loop t (R # node) freed
          else
            (case node of
               [] \<Rightarrow> Some (ok (freed @ [node]))
             | d # tmpParent \<Rightarrow> free_tree_loop (replace t (rev node) NullT) tmpParent (freed @ [node])))"

definition freeTree :: "ttree \<Rightarrow> (fault + turn list list) option" where
  "freeTree t = free_tree_loop t [] []"

definition freeBitCoin :: "bitcoin \<Rightarrow> (fault + turn list list) option" where
  "freeBitCoin BC = freeTree (root BC)"

text \<open>The list of all coins from its first one on, which is NULL when there is none.\<close>

fun freeBitCoins :: "bitcoin list \<Rightarrow> (fault + turn list list list) option" where
  "freeBitCoins [] = Some (crash NullDeref)"
| "freeBitCoins [BC] = run_then (freeBitCoin BC) (\<lambda>f. Some (ok [f]))"
| "freeBitCoins (BC # cs) = run_then (freeBitCoin BC) (\<lambda>f. run_then (freeBitCoins cs) (\<lambda>fs. Some (ok (f # fs))))"

section \<open>Wallets\<close>

text \<open>currBCL->next is read before currBCL is compared with NULL.\<close>

fun freeWallets :: "wallet list \<Rightarrow> fault + bclist list list" where
  "freeWallets [] = ok []"
| "freeWallets (w # ws) =
     (if bcl w = [] then crash NullDeref else and_then (freeWallets ws) (\<lambda>fs. ok (bcl w # fs)))"

section \<open>Hash tables\<close>

text \<open>The items of a chain from currItem on; the sender's table frees their transactions, too.\<close>

fun free_items :: "hashed_item list \<Rightarrow> fault + trans_list list list" where
  "free_items [] = crash NullDeref"
| "free_items [item] = ok [item_trans item]"
| "free_items (item # rest) = and_then (free_items rest) (\<lambda>fs. ok (item_trans item # fs))"

text \<open>The buckets of a chain: the next one begins at the nextItem of the last record.\<close>

function free_buckets :: "nat \<Rightarrow> hashed_item list \<Rightarrow> fault + nat" where
  "free_buckets n chain =
     (if n = 0 \<or> length chain < n then crash BadIndex
      else if drop n chain = [] then ok 1
      else and_then (free_buckets n (drop n chain)) (\<lambda>k. ok (k + 1)))"
  by pat_completeness auto
termination by (relation "measure (\<lambda>(n, chain). length chain)") auto

declare free_buckets.simps [simp del]

fun free_entries :: "nat \<Rightarrow> nat \<Rightarrow> hashed_item list list \<Rightarrow> fault + (trans_list list list \<times> nat)" where
  "free_entries 0 numOfRecords table = ok ([], 0)"
| "free_entries (Suc i) numOfRecords [] = crash BadIndex"
| "free_entries (Suc i) numOfRecords (chain # table) =
     and_then (if numOfRecords = 0 \<or> length chain < numOfRecords then crash BadIndex else free_items chain) (\<lambda>fs.
     and_then (free_buckets numOfRecords chain) (\<lambda>b.
     and_then (free_entries i numOfRecords table) (\<lambda>(fs', b'). ok (fs @ fs', b + b'))))"

definition freeSenderHashTable :: "hash_table \<Rightarrow> fault + (trans_list list list \<times> nat)" where
  "freeSenderHashTable HT = free_entries (numOfEntries HT) (bucketSize HT div sizeof_HashedItem) (Table HT)"

definition freeReceiverHashTable :: "hash_table \<Rightarrow> fault + (trans_list list list \<times> nat)" where
  "freeReceiverHashTable HT = free_entries (numOfEntries HT) (bucketSize HT div sizeof_HashedItem) (Table HT)"

section \<open>Facts\<close>

text \<open>The nodes below a node, children first.\<close>

fun post_order :: "ttree \<Rightarrow> turn list \<Rightarrow> turn list list" where
  "post_order NullT p = []"
| "post_order (TNode w a x l r) p = post_order l (L # p) @ post_order r (R # p) @ [p]"

lemma free_subtree:
  "subtree t (rev (d # p)) = u \<Longrightarrow> u \<noteq> NullT \<Longrightarrow>
   free_tree_loop t (d # p) freed = free_tree_loop (replace t (rev (d # p)) NullT) p (freed @ post_order u (d # p))"
proof (induction u arbitrary: t d p freed)
  case NullT
  then show ?case by simp
next
  case (TNode w a x l r)
  let ?p = "rev (d # p)"
  have sub: "subtree t ?p = TNode w a x l r" using TNode.prems by simp
  define t1 where "t1 = replace t ?p (TNode w a x NullT r)"
  have s1: "subtree t1 ?p = TNode w a x NullT r" unfolding t1_def using sub by (intro subtree_replace_same) simp
  have left: "free_tree_loop t (d # p) freed = free_tree_loop t1 (d # p) (freed @ post_order l (L # d # p))"
  proof (cases "l = NullT")
    case True
    then have "t1 = t" unfolding t1_def using sub by (metis replace_subtree)
    with True show ?thesis by simp
  next
    case False
    have "subtree t (rev (L # d # p)) = l" using sub subtree_append [of t ?p "[L]"] by simp
    from TNode.IH(1) [OF this False]
    have "free_tree_loop t (L # d # p) freed
        = free_tree_loop (replace t (rev (L # d # p)) NullT) (d # p) (freed @ post_order l (L # d # p))" .
    moreover have "replace t (rev (L # d # p)) NullT = t1"
      using sub by (simp add: t1_def replace_append [of t "rev p @ [d]" "[L]", simplified])
    moreover have "free_tree_loop t (d # p) freed = free_tree_loop t (L # d # p) freed"
      using sub False by (subst free_tree_loop.simps) simp
    ultimately show ?thesis by simp
  qed
  define t2 where "t2 = replace t1 ?p (TNode w a x NullT NullT)"
  have s2: "subtree t2 ?p = TNode w a x NullT NullT" unfolding t2_def using s1 by (intro subtree_replace_same) simp
  have right: "free_tree_loop t1 (d # p) f = free_tree_loop t2 (d # p) (f @ post_order r (R # d # p))" for f
  proof (cases "r = NullT")
    case True
    then have "t2 = t1" unfolding t2_def using s1 by (metis replace_subtree)
    with True show ?thesis by simp
  next
    case False
    have "subtree t1 (rev (R # d # p)) = r" using s1 subtree_append [of t1 ?p "[R]"] by simp
    from TNode.IH(2) [OF this False]
    have "free_tree_loop t1 (R # d # p) f
        = free_tree_loop (replace t1 (rev (R # d # p)) NullT) (d # p) (f @ post_order r (R # d # p))" .
    moreover have "replace t1 (rev (R # d # p)) NullT = t2"
      using s1 by (simp add: t2_def replace_append [of t1 "rev p @ [d]" "[R]", simplified])
    moreover have "free_tree_loop t1 (d # p) f = free_tree_loop t1 (R # d # p) f"
      using s1 False by (subst free_tree_loop.simps) simp
    ultimately show ?thesis by simp
  qed
  have "free_tree_loop t2 (d # p) f = free_tree_loop (replace t2 ?p NullT) p (f @ [d # p])" for f
    using s2 by (subst free_tree_loop.simps) simp
  moreover have "replace t2 ?p NullT = replace t ?p NullT"
    using sub s1 by (simp add: t1_def t2_def)
  ultimately show ?case using left right by simp
qed

lemma freeTree_frees: "freeTree t = Some (ok (post_order t []))"
proof (cases t)
  case NullT
  then show ?thesis by (simp add: freeTree_def free_tree_loop.simps)
next
  case (TNode w a x l r)
  have left: "free_tree_loop t [] [] = free_tree_loop (TNode w a x NullT r) [] (post_order l [L])"
  proof (cases "l = NullT")
    case True
    with TNode show ?thesis by simp
  next
    case False
    then have "free_tree_loop t [] [] = free_tree_loop t [L] []"
      using TNode by (subst free_tree_loop.simps) simp
    also have "\<dots> = free_tree_loop (replace t (rev [L]) NullT) [] ([] @ post_order l [L])"
      by (rule free_subtree) (use False TNode in simp_all)
    finally show ?thesis by (simp add: TNode)
  qed
  let ?t = "TNode w a x NullT r"
  have "free_tree_loop ?t [] f = free_tree_loop (TNode w a x NullT NullT) [] (f @ post_order r [R])" for f
  proof (cases "r = NullT")
    case True
    then show ?thesis by simp
  next
    case False
    then have "free_tree_loop ?t [] f = free_tree_loop ?t [R] f" by (subst free_tree_loop.simps) simp
    also have "\<dots> = free_tree_loop (replace ?t (rev [R]) NullT) [] (f @ post_order r [R])"
      by (rule free_subtree) (use False in simp_all)
    finally show ?thesis by simp
  qed
  moreover have "free_tree_loop (TNode w a x NullT NullT) [] f = Some (ok (f @ [[]]))" for f
    by (subst free_tree_loop.simps) simp
  ultimately show ?thesis using left TNode by (simp add: freeTree_def)
qed

lemma post_order_paths: "set (post_order t p) = {q @ p | q. subtree t (rev q) \<noteq> NullT}"
proof (induction t arbitrary: p)
  case NullT
  have "subtree NullT q = NullT" for q by (cases q) auto
  then show ?case by simp
next
  case (TNode w a x l r)
  have "subtree (TNode w a x l r) (rev q) \<noteq> NullT \<longleftrightarrow>
      q = [] \<or> (\<exists>q'. q = q' @ [L] \<and> subtree l (rev q') \<noteq> NullT) \<or> (\<exists>q'. q = q' @ [R] \<and> subtree r (rev q') \<noteq> NullT)" for q
  proof (cases q rule: rev_cases)
    case (snoc q' d)
    then show ?thesis by (cases d) auto
  qed simp
  then show ?case unfolding post_order.simps set_append TNode.IH by auto
qed

lemma post_order_distinct: "distinct (post_order t p)"
proof (induction t arbitrary: p)
  case (TNode w a x l r)
  have "q @ L # p \<noteq> q' @ R # p" for q q' :: "turn list"
  proof
    assume eq: "q @ L # p = q' @ R # p"
    then have "(q @ [L]) @ p = (q' @ [R]) @ p" by simp
    then have "q @ [L] = q' @ [R]" by (rule append_same_eq [THEN iffD1])
    then show False by simp
  qed
  then have "set (post_order l (L # p)) \<inter> set (post_order r (R # p)) = {}"
    unfolding post_order_paths by blast
  moreover have "p \<notin> set (post_order l (L # p))" "p \<notin> set (post_order r (R # p))"
    unfolding post_order_paths by auto
  ultimately show ?case using TNode.IH by auto
qed simp

text \<open>FreeTree ends and frees every node of the tree exactly once, children before their parent.\<close>

theorem freeTree_all_once:
  "\<exists>freed. freeTree t = Some (ok freed) \<and> distinct freed \<and> set freed = {p. subtree t (rev p) \<noteq> NullT}
     \<and> (\<forall>d p. d # p \<in> set freed \<longrightarrow> (\<exists>us vs. freed = us @ (d # p) # vs \<and> p \<in> set vs))"
proof -
  have before: "\<exists>us vs. post_order t q = us @ (d # p) # vs \<and> p \<in> set vs"
    if "d # p \<in> set (post_order t q)" "d # p \<noteq> q" for d p q and t :: ttree
    using that
  proof (induction t arbitrary: q)
    case (TNode w a x l r)
    consider "d # p \<in> set (post_order l (L # q))" | "d # p \<in> set (post_order r (R # q))"
      using TNode.prems by auto
    then show ?case
    proof cases
      case 1
      show ?thesis
      proof (cases "d # p = L # q")
        case True
        then obtain us vs where "post_order l (L # q) = us @ (d # p) # vs" using 1 split_list by force
        with True show ?thesis by (intro exI [of _ us] exI [of _ "vs @ post_order r (R # q) @ [q]"]) simp
      next
        case False
        with TNode.IH(1) [OF 1] obtain us vs where "post_order l (L # q) = us @ (d # p) # vs" "p \<in> set vs" by auto
        then show ?thesis by (intro exI [of _ us] exI [of _ "vs @ post_order r (R # q) @ [q]"]) simp
      qed
    next
      case 2
      show ?thesis
      proof (cases "d # p = R # q")
        case True
        then obtain us vs where "post_order r (R # q) = us @ (d # p) # vs" using 2 split_list by force
        with True show ?thesis by (intro exI [of _ "post_order l (L # q) @ us"] exI [of _ "vs @ [q]"]) simp
      next
        case False
        with TNode.IH(2) [OF 2] obtain us vs where "post_order r (R # q) = us @ (d # p) # vs" "p \<in> set vs" by auto
        then show ?thesis by (intro exI [of _ "post_order l (L # q) @ us"] exI [of _ "vs @ [q]"]) simp
      qed
    qed
  qed simp
  have "set (post_order t []) = {p. subtree t (rev p) \<noteq> NullT}" by (simp add: post_order_paths)
  with before [of _ _ t "[]"] post_order_distinct [of t "[]"] freeTree_frees [of t]
  show ?thesis by blast
qed

section \<open>What the tables give back\<close>

lemma free_items_ok: "chain \<noteq> [] \<Longrightarrow> free_items chain = ok (map item_trans chain)"
  by (induction chain rule: free_items.induct) auto

lemma free_buckets_ok: "0 < n \<Longrightarrow> n dvd length chain \<Longrightarrow> chain \<noteq> [] \<Longrightarrow> free_buckets n chain = ok (length chain div n)"
proof (induction n chain rule: free_buckets.induct)
  case (1 n chain)
  then have len: "n \<le> length chain" by (simp add: dvd_imp_le)
  show ?case
  proof (cases "drop n chain = []")
    case True
    with len have "length chain = n" by simp
    with 1(2) True show ?thesis by (subst free_buckets.simps) simp
  next
    case False
    have "n dvd length (drop n chain)" using 1(3) len by (simp add: dvd_diff_nat)
    with 1 len False have "free_buckets n (drop n chain) = ok (length (drop n chain) div n)" by simp
    moreover have "length chain div n = length (drop n chain) div n + 1"
      using 1(2) len by (simp add: le_div_geq)
    ultimately show ?thesis using 1(2) len False by (subst free_buckets.simps) simp
  qed
qed

lemma free_entries_ok:
  "0 < n \<Longrightarrow> \<forall>chain \<in> set table. chain \<noteq> [] \<and> n dvd length chain \<Longrightarrow>
   free_entries (length table) n table =
     ok (concat (map (map item_trans) table), sum_list (map (\<lambda>chain. length chain div n) table))"
proof (induction table)
  case (Cons chain table)
  then have "n \<le> length chain" by (simp add: dvd_imp_le)
  with Cons show ?case by (simp add: free_items_ok free_buckets_ok)
qed simp

lemma table_freed:
  assumes "table_ok HT"
  shows "\<exists>b. free_entries (numOfEntries HT) (bucketSize HT div sizeof_HashedItem) (Table HT) =
    ok (concat (map (map item_trans) (Table HT)), b)"
proof -
  have "0 < bucketSize HT div sizeof_HashedItem"
    using assms by (simp add: table_ok_def div_greater_zero_iff sizeof_HashedItem_def)
  moreover have "\<forall>chain \<in> set (Table HT). chain \<noteq> [] \<and> bucketSize HT div sizeof_HashedItem dvd length chain"
    using assms by (fastforce simp: table_ok_def chain_ok_def in_set_conv_nth)
  moreover have "length (Table HT) = numOfEntries HT" using assms by (simp add: table_ok_def)
  ultimately show ?thesis using free_entries_ok by metis
qed

lemma freeBitCoins_ok: "cs \<noteq> [] \<Longrightarrow> freeBitCoins cs = Some (ok (map (\<lambda>BC. post_order (root BC) []) cs))"
  by (induction cs rule: freeBitCoins.induct) (simp_all add: freeBitCoin_def freeTree_frees)

lemma freeWallets_ok: "freeWallets ws = (if \<exists>w \<in> set ws. bcl w = [] then crash NullDeref else ok (map bcl ws))"
  by (induction ws) auto

theorem freeTree_all_once_witness:
  "\<exists>freed us vs. freeTree (TNode 0 5 None (TNode 1 2 None NullT NullT) (TNode 0 3 None NullT NullT)) = Some (ok freed)
     \<and> freed = us @ [L] # vs \<and> [] \<in> set vs"
proof -
  let ?t = "TNode 0 5 None (TNode 1 2 None NullT NullT) (TNode 0 3 None NullT NullT)"
  obtain freed where f: "freeTree ?t = Some (ok freed)" "set freed = {p. subtree ?t (rev p) \<noteq> NullT}"
      "\<forall>d p. d # p \<in> set freed \<longrightarrow> (\<exists>us vs. freed = us @ (d # p) # vs \<and> p \<in> set vs)"
    using freeTree_all_once [of ?t] by blast
  moreover have "[L] \<in> set freed" using f(2) by simp
  ultimately show ?thesis by blast
qed

end
