(* ===== verification/Program.thy ===== *)
theory Program
  imports Options Commands Cleanup
begin

text \<open>
  The bitcoin program as a whole (SysPro_Project1/src/main.c): the parameters, the balances file, the
  hash tables, the transactions file, the session of commands, and the clean-up.
\<close>

section \<open>main\<close>

definition bitcoin_usage :: string where
  "bitcoin_usage = ''Wrong use of ./bitcoin. Proper use:'' @ nl
     @ ''./bitcoin -a bitCoinBalancesFile -t transactionsFile -v bitCoinValue -h1 senderHashTableNumOfEntries -h2 receiverHastTableNumOfEntries -b bucketSize'' @ nl"

text \<open>atoi on a parameter that may be NULL, as a size_t\<close>

definition size_param :: "string option \<Rightarrow> fault + nat" where
  "size_param s = (case s of None \<Rightarrow> crash NullDeref | Some s \<Rightarrow> ok (nat (atoi s mod int SIZE_MOD)))"

definition file_param :: "string option \<Rightarrow> fault + string" where
  "file_param s = (case s of None \<Rightarrow> crash NullDeref | Some s \<Rightarrow> ok s)"

text \<open>freeEverything with all structures there; the parameters have no further effect.\<close>

definition freeEverything :: "sys \<Rightarrow> (fault + unit) option" where
  "freeEverything w =
     run_then (Some (freeSenderHashTable (senderHT w))) (\<lambda>_.
     run_then (Some (freeReceiverHashTable (receiverHT w))) (\<lambda>_.
     run_then (Some (freeWallets (wallets (the_bank w)))) (\<lambda>_.
     run_then (freeBitCoins (coins (the_bank w))) (\<lambda>_. Some (ok ())))))"

text \<open>
  The result of main with the text it printed and the state before the clean-up.  When
  walletsInitialization returns NULL there are no coins yet.
\<close>

definition bitcoin_main :: "surround \<Rightarrow> string list \<Rightarrow> string list \<Rightarrow> (fault + nat \<times> sys option \<times> string) option" where
  "bitcoin_main env input argv =
     run_then (Some (use_bitcoin argv)) (\<lambda>arguments. case arguments of
       None \<Rightarrow> Some (ok (1, None, bitcoin_usage))
     | Some params \<Rightarrow>
         run_then (Some (size_param (params ! 2))) (\<lambda>bitCoinValue.
         run_then (Some (size_param (params ! 3))) (\<lambda>senderHTEntries.
         run_then (Some (size_param (params ! 4))) (\<lambda>receiverHTEntries.
         run_then (Some (size_param (params ! 5))) (\<lambda>bsz.
         run_then (Some (file_param (params ! 0))) (\<lambda>balancesFile.
         run_then (Some (walletsInitialization balancesFile (fopen env balancesFile) bitCoinValue)) (\<lambda>init.
         case init of
           Inl msg \<Rightarrow> run_then (freeBitCoins []) (\<lambda>_. Some (ok (1, None, msg)))
         | Inr (b, ordered) \<Rightarrow>
             run_then (Some (initializeHashTable senderHTEntries bsz)) (\<lambda>sHT.
             run_then (Some (initializeHashTable receiverHTEntries bsz)) (\<lambda>rHT.
             run_then (Some (file_param (params ! 1))) (\<lambda>transFile.
             run_then (transactionsInitialization transFile (fopen env transFile)
                 \<lparr> the_bank = b, sorted_wallets = ordered, senderHT = sHT, receiverHT = rHT, maxID = [], lastDateTime = 0 \<rparr>)
               (\<lambda>(failed, w, out).
             if failed \<noteq> 0 then run_then (freeEverything w) (\<lambda>_. Some (ok (1, Some w, out)))
             else
               run_then (takeCommands env \<lparr> world = w, stdin = input, ticks = 0, printed = out \<rparr>) (\<lambda>sh.
               run_then (freeEverything (world sh)) (\<lambda>_. Some (ok (0, Some (world sh), printed sh)))))))))))))))"

section \<open>From the files to the first state\<close>

definition first_state :: "bank \<Rightarrow> nat list \<Rightarrow> hash_table \<Rightarrow> hash_table \<Rightarrow> sys" where
  "first_state b ordered sHT rHT =
     \<lparr> the_bank = b, sorted_wallets = ordered, senderHT = sHT, receiverHT = rHT, maxID = [], lastDateTime = 0 \<rparr>"

definition coins_in :: "balance_line list \<Rightarrow> nat" where
  "coins_in ls = length (concat (map snd ls))"

lemma line_wallets_nth:
  "p < length ls \<Longrightarrow> wamount (line_wallets v c ls ! p) = size_mul (length (snd (ls ! p))) v
     \<and> length (bcl (line_wallets v c ls ! p)) = length (snd (ls ! p))"
proof (induction v c ls arbitrary: p rule: line_wallets.induct)
  case (2 v c name "is" ls)
  then show ?case by (cases p) auto
qed simp

lemma line_le_coins: "p < length ls \<Longrightarrow> length (snd (ls ! p)) \<le> coins_in ls"
  unfolding coins_in_def length_concat using member_le_sum_list [of "length (snd (ls ! p))" "map length (map snd ls)"] by simp

lemma file_balances:
  assumes "coins_in ls * v < SIZE_MOD"
  shows "balances (file_bank v ls) = map (\<lambda>l. length (snd l) * v) ls"
proof (rule nth_equalityI)
  show "length (balances (file_bank v ls)) = length (map (\<lambda>l. length (snd l) * v) ls)"
    by (simp add: balances_def file_bank_def line_wallets_length)
  fix p assume "p < length (balances (file_bank v ls))"
  then have p: "p < length ls" by (simp add: balances_def file_bank_def line_wallets_length)
  have "length (snd (ls ! p)) * v \<le> coins_in ls * v" using line_le_coins [OF p] by simp
  with assms have "length (snd (ls ! p)) * v < SIZE_MOD" by linarith
  with p show "balances (file_bank v ls) ! p = map (\<lambda>l. length (snd l) * v) ls ! p"
    by (simp add: balances_def file_bank_def line_wallets_length line_wallets_nth size_mul_exact)
qed

lemma sum_lines: "sum_list (map (\<lambda>l. length (snd l) * v) ls) = coins_in ls * v"
  by (induction ls) (simp_all add: coins_in_def algebra_simps)

lemma first_state_ok:
  assumes "lines_ok ls" "length ls \<le> 2 ^ 30" "coins_in ls * v < SIZE_MOD"
    and init: "walletsInitialization name (Some (balances_text ls)) v = ok (Inr (file_bank v ls, ordered))"
    and tables: "table_ok sHT" "\<forall>key. table_lookup sHT key = []" "table_ok rHT" "\<forall>key. table_lookup rHT key = []"
  shows "sys_ok (first_state (file_bank v ls) ordered sHT rHT)"
    and "explained (\<lambda>p. length (snd (ls ! p)) * v) (first_state (file_bank v ls) ordered sHT rHT)"
    and "ids_below (first_state (file_bank v ls) ordered sHT rHT)"
proof -
  let ?b = "file_bank v ls"
  have ids: "map ID (coins ?b) = concat (map snd ls)"
    using assms(1) by (simp add: file_bank_def line_coins_ids lines_ok_def)
  have lens: "length (wallets ?b) = length ls" "length (coins ?b) = coins_in ls"
    using arg_cong [OF ids, of length] by (simp_all add: file_bank_def line_wallets_length coins_in_def)
  have "(2 :: nat) ^ 30 < SIZE_MOD" by (simp add: SIZE_MOD_def)
  then have "length (wallets ?b) < SIZE_MOD" using assms(2) lens(1) by linarith
  then have "bank_ok ?b \<and> sorted_by (wid ?b) ordered \<and> mset ordered = mset [0..<length (wallets ?b)]"
    using initial_bank_ok [OF init] ids lens assms(1,3) by (simp add: lines_ok_def)
  then show "sys_ok (first_state ?b ordered sHT rHT)"
    using tables assms(1,2) lens(1) by (simp add: sys_ok_def first_state_def lines_ok_def)
  show "explained (\<lambda>p. length (snd (ls ! p)) * v) (first_state ?b ordered sHT rHT)"
    using tables lens(1) file_balances [OF assms(3)]
    by (simp add: explained_def first_state_def sent_def received_def total_of_def)
  show "ids_below (first_state ?b ordered sHT rHT)"
    using tables by (simp add: ids_below_def first_state_def)
qed

lemma freeEverything_ok:
  assumes "sys_ok w" "coins (the_bank w) \<noteq> []"
  shows "freeEverything w =
    (if \<exists>x \<in> set (wallets (the_bank w)). bcl x = [] then Some (crash NullDeref) else Some (ok ()))"
proof -
  obtain a b where "freeSenderHashTable (senderHT w) = ok a" "freeReceiverHashTable (receiverHT w) = ok b"
    using table_freed assms(1) unfolding sys_ok_def freeSenderHashTable_def freeReceiverHashTable_def by metis
  then show ?thesis by (simp add: freeEverything_def freeWallets_ok freeBitCoins_ok [OF assms(2)])
qed

section \<open>The whole program\<close>

lemma to_int32_bounds: "- (2 ^ 31) \<le> to_int32 x \<and> to_int32 x < 2 ^ 31"
  by (simp add: to_int32_def)

lemma size_param_nat: "atoi s = int n \<Longrightarrow> size_param (Some s) = ok n"
proof -
  assume n: "atoi s = int n"
  have "int n < 2 ^ 31" using to_int32_bounds [of "fst (strtol s)"] n by (simp add: atoi_def)
  then have "int n mod int SIZE_MOD = int n" by (simp add: SIZE_MOD_def)
  with n show ?thesis by (simp add: size_param_def)
qed

definition final_state_ok :: "balance_line list \<Rightarrow> nat \<Rightarrow> sys \<Rightarrow> bool" where
  "final_state_ok ls v w \<longleftrightarrow> sys_ok w \<and> explained (\<lambda>p. length (snd (ls ! p)) * v) w
     \<and> sum_list (balances (the_bank w)) = coins_in ls * v \<and> worths (the_bank w) = replicate (coins_in ls) v"

lemma evolves_final:
  assumes "evolves s w" "final_state_ok ls v s"
  shows "final_state_ok ls v w"
  using assms by (auto simp: evolves_def final_state_ok_def)

lemma final_freed:
  assumes "final_state_ok ls v w" "0 < coins_in ls"
  shows "freeEverything w =
    (if \<exists>x \<in> set (wallets (the_bank w)). bcl x = [] then Some (crash NullDeref) else Some (ok ()))"
proof (rule freeEverything_ok)
  show "sys_ok w" using assms(1) by (simp add: final_state_ok_def)
  have "length (worths (the_bank w)) = coins_in ls" using assms(1) by (simp add: final_state_ok_def)
  with assms(2) show "coins (the_bank w) \<noteq> []" by (auto simp: worths_def)
qed

definition clean_end :: "balance_line list \<Rightarrow> nat \<Rightarrow> nat \<times> sys option \<times> string \<Rightarrow> bool" where
  "clean_end ls v res \<longleftrightarrow> (case res of (code, w, out) \<Rightarrow> \<exists>w'. w = Some w' \<and> final_state_ok ls v w'
     \<and> (\<forall>x \<in> set (wallets (the_bank w')). bcl x \<noteq> []))"

lemma end_of_run:
  "final_state_ok ls v w \<Longrightarrow> 0 < coins_in ls \<Longrightarrow>
   ends_in (run_then (freeEverything w) (\<lambda>_. Some (ok (c, Some w, out)))) (clean_end ls v)"
  by (auto simp: final_freed clean_end_def)

lemma session_end:
  assumes "final_state_ok ls v (world sh)" "0 < coins_in ls"
  shows "ends_in (run_then (takeCommands env sh) (\<lambda>sh.
    run_then (freeEverything (world sh)) (\<lambda>_. Some (ok (0, Some (world sh), printed sh))))) (clean_end ls v)"
proof (rule ends_in_run_then [OF takeCommands_returns])
  show "sys_ok (world sh)" using assms(1) by (simp add: final_state_ok_def)
  fix sh'
  assume "leads_to sh sh' \<and> (\<exists>ln p. comes_from ln p sh \<and> cstr_at (mem ln) p = ok ''exit'')"
  then have "final_state_ok ls v (world sh')" using evolves_final assms(1) by (auto simp: leads_to_def)
  then show "ends_in (run_then (freeEverything (world sh')) (\<lambda>_. Some (ok (0, Some (world sh'), printed sh')))) (clean_end ls v)"
    using assms(2) by (rule end_of_run)
qed

lemma start_of_run:
  assumes "lines_ok ls" "length ls \<le> 2 ^ 30" "coins_in ls * v < SIZE_MOD"
    and init: "walletsInitialization name (Some (balances_text ls)) v = ok (Inr (file_bank v ls, ordered))"
    and tables: "table_ok sHT" "\<forall>key. table_lookup sHT key = []" "table_ok rHT" "\<forall>key. table_lookup rHT key = []"
  shows "final_state_ok ls v (first_state (file_bank v ls) ordered sHT rHT)"
proof -
  have ids: "map ID (coins (file_bank v ls)) = concat (map snd ls)"
    using assms(1) by (simp add: file_bank_def line_coins_ids lines_ok_def)
  then have len: "length (coins (file_bank v ls)) = coins_in ls" by (metis coins_in_def length_map)
  have "length (wallets (file_bank v ls)) < SIZE_MOD"
    using assms(2) by (simp add: file_bank_def line_wallets_length SIZE_MOD_def)
  then have "worths (file_bank v ls) = replicate (coins_in ls) v"
    using initial_bank_ok [OF init] ids len assms(1,3) by (simp add: lines_ok_def)
  then show ?thesis
    using first_state_ok [OF assms] file_balances [OF assms(3)] sum_lines [of v ls]
    by (simp add: final_state_ok_def first_state_def)
qed

text \<open>
  C4: Started with a complete set of options and a well-formed balances file, the program
  always ends, whatever the transactions file and the commands are.  When it ends without a fault,
  the final state is valid, every balance is what the recorded transactions make of the coins on the
  line of the wallet, the money in the system is the number of coins times their value, every coin
  has its full worth, and no wallet was left without a coin (freeWallets dereferences NULL for one).
\<close>

theorem program_keeps_money:
  assumes opts: "use_bitcoin argv = ok (Some [Some a, Some t, Some vs, Some h1, Some h2, Some bs])"
    and "fopen env a = Some (balances_text ls)" "lines_ok ls" "length ls \<le> 2 ^ 30"
    and nums: "atoi vs = int v" "atoi h1 = int n1" "atoi h2 = int n2" "atoi bs = int sz"
    and "coins_in ls * v < SIZE_MOD" "0 < n1" "0 < n2" "sizeof_HashedItem \<le> sz"
  shows "\<exists>res. bitcoin_main env input argv = Some res \<and>
    (case res of
       Inl e \<Rightarrow> True
     | Inr (code, w, out) \<Rightarrow> \<exists>w'. w = Some w' \<and> sys_ok w'
         \<and> explained (\<lambda>p. length (snd (ls ! p)) * v) w'
         \<and> sum_list (balances (the_bank w')) = coins_in ls * v
         \<and> worths (the_bank w') = replicate (coins_in ls) v
         \<and> (\<forall>x \<in> set (wallets (the_bank w')). bcl x \<noteq> []))"
proof -
  have "length ls < SIZE_MOD" using assms(4) by (simp add: SIZE_MOD_def)
  with assms(3) obtain ordered where init: "walletsInitialization a (Some (balances_text ls)) v = ok (Inr (file_bank v ls, ordered))"
    using balances_text_read by blast
  obtain sHT where s: "initializeHashTable n1 sz = ok sHT" "table_ok sHT" "\<forall>key. table_lookup sHT key = []"
    using initializeHashTable_ok assms(10,12) by blast
  obtain rHT where r: "initializeHashTable n2 sz = ok rHT" "table_ok rHT" "\<forall>key. table_lookup rHT key = []"
    using initializeHashTable_ok assms(11,12) by blast
  define s0 where "s0 = first_state (file_bank v ls) ordered sHT rHT"
  have s0: "final_state_ok ls v s0"
    unfolding s0_def using start_of_run [OF assms(3,4,9) init s(2,3) r(2,3)] .
  then have "sys_ok s0" by (simp add: final_state_ok_def)
  have pos: "0 < coins_in ls"
    using assms(3) by (cases ls) (auto simp: lines_ok_def line_ok_def coins_in_def)
  have main: "bitcoin_main env input argv = run_then (transactionsInitialization t (fopen env t) s0) (\<lambda>(failed, w, out).
      if failed \<noteq> 0 then run_then (freeEverything w) (\<lambda>_. Some (ok (1, Some w, out)))
      else
        run_then (takeCommands env \<lparr> world = w, stdin = input, ticks = 0, printed = out \<rparr>) (\<lambda>sh.
        run_then (freeEverything (world sh)) (\<lambda>_. Some (ok (0, Some (world sh), printed sh)))))"
    using opts assms(2) init s(1) r(1) nums
    by (simp add: bitcoin_main_def size_param_nat file_param_def got_it_def first_state_def s0_def)
  have "ends_in (transactionsInitialization t (fopen env t) s0) (\<lambda>(failed, w, out). final_state_ok ls v w)"
  proof -
    obtain res where "transactionsInitialization t (fopen env t) s0 = Some res"
        "case res of Inr (ret, s', out) \<Rightarrow> evolves s0 s' \<and> (ids_below s0 \<longrightarrow> ids_below s') | Inl e \<Rightarrow> True"
      using transactionsInitialization_grows [OF \<open>sys_ok s0\<close>] by blast
    then show ?thesis using evolves_final [OF _ s0] by (cases res) auto
  qed
  then have "ends_in (bitcoin_main env input argv) (clean_end ls v)"
    unfolding main by (rule ends_in_run_then) (auto simp: end_of_run [OF _ pos] session_end pos)
  then show ?thesis by (fastforce simp: ends_in_def clean_end_def final_state_ok_def)
qed

definition demo_files :: surround where
  "demo_files = \<lparr> clock = \<lambda>n. 0, fopen = \<lambda>name. if name = ''w'' then Some (balances_text [(''Bob'', [4, 15]), (''Al'', [7])]) else Some ''1 Bob Al 5 01-02-2018 10:30'',
     tmp_files = \<lambda>n. (True, True) \<rparr>"

theorem program_keeps_money_witness:
  "\<exists>res. bitcoin_main demo_files [''exit'' @ nl]
      (''bitcoin'' # argv_of [(''-b'', ''64''), (''-a'', ''w''), (''-t'', ''t''), (''-v'', ''10''), (''-h1'', ''3''), (''-h2'', ''5'')]) = Some res \<and>
    (case res of
       Inl e \<Rightarrow> True
     | Inr (code, w, out) \<Rightarrow> \<exists>w'. w = Some w' \<and> sys_ok w'
         \<and> explained (\<lambda>p. length (snd ([(''Bob'', [4, 15 :: nat]), (''Al'', [7])] ! p)) * 10) w'
         \<and> sum_list (balances (the_bank w')) = 30
         \<and> worths (the_bank w') = [10, 10, 10]
         \<and> (\<forall>x \<in> set (wallets (the_bank w')). bcl x \<noteq> []))"
proof -
  let ?argv = "''bitcoin'' # argv_of [(''-b'', ''64''), (''-a'', ''w''), (''-t'', ''t''), (''-v'', ''10''), (''-h1'', ''3''), (''-h2'', ''5'')]"
  let ?ls = "[(''Bob'', [4, 15]), (''Al'', [7])]"
  have opts: "use_bitcoin ?argv = ok (Some [Some ''w'', Some ''t'', Some ''10'', Some ''3'', Some ''5'', Some ''64''])"
    by (simp add: use_bitcoin_def bitcoin_options_def numeral_eq_Suc)
  have ls: "lines_ok ?ls"
    by (simp add: lines_ok_def line_ok_def name_ok_def is_space_def char_code_def EOF_CHAR_def)
  have atoi: "atoi ''10'' = int 10" "atoi ''3'' = int 3" "atoi ''5'' = int 5" "atoi ''64'' = int 64" by code_simp+
  have files: "fopen demo_files ''w'' = Some (balances_text ?ls)" by (simp add: demo_files_def)
  have sums: "coins_in ?ls * 10 = 30" "replicate (coins_in ?ls) 10 = [10, 10, 10]"
    by (simp_all add: coins_in_def numeral_eq_Suc)
  have "length ?ls \<le> 2 ^ 30" "coins_in ?ls * 10 < SIZE_MOD" "sizeof_HashedItem \<le> 64"
    by (simp_all add: coins_in_def SIZE_MOD_def sizeof_HashedItem_def)
  from program_keeps_money [OF opts files ls this(1) atoi this(2) _ _ this(3), of "[''exit'' @ nl]"]
  show ?thesis unfolding sums by simp
qed

end
