(* ===== verification/DList.thy ===== *)
theory DList
  imports Interfaces
begin

text \<open>
  Doubly linked lists in a heap of nodes, the shape of the list of clients
  (SysPro_Project3/src/client\_list.c), of the list of files of a directory
  (SysPro_Project3/src/dirControl.c) and of the children of a mirror client
  (SysPro_Project2/src/mirror\_client/clientSync.c).  A pointer is an address or NULL, malloc hands
  out addresses in order, free removes the node, and a read of a freed node is a fault.
\<close>

section \<open>Nodes\<close>

record 'e dnode =
  item :: 'e
  next_cl :: "nat option"
  previous :: "nat option"

type_synonym 'e cells = "nat \<Rightarrow> 'e dnode option"

record 'e heap =
  cells :: "'e cells"
  brk :: nat

text \<open>The walk to the last node\<close>

partial_function (option) last_node :: "'e cells \<Rightarrow> nat \<Rightarrow> (fault + nat) option" where
  "last_node h cur =
     (case h cur of
        None \<Rightarrow> Some (crash UseAfterFree)
      | Some n \<Rightarrow> (case next_cl n of None \<Rightarrow> Some (ok cur) | Some nxt \<Rightarrow> last_node h nxt))"

text \<open>The body both matching branches of delete_from_client_list share: unlink the node and free it.\<close>

definition set_previous :: "'e cells \<Rightarrow> nat option \<Rightarrow> nat option \<Rightarrow> fault + 'e cells" where
  "set_previous h p v =
     (case p of None \<Rightarrow> ok h
      | Some a \<Rightarrow> (case h a of None \<Rightarrow> crash UseAfterFree | Some n \<Rightarrow> ok (h(a \<mapsto> n\<lparr>previous := v\<rparr>))))"

definition set_next :: "'e cells \<Rightarrow> nat option \<Rightarrow> nat option \<Rightarrow> fault + 'e cells" where
  "set_next h p v =
     (case p of None \<Rightarrow> ok h
      | Some a \<Rightarrow> (case h a of None \<Rightarrow> crash UseAfterFree | Some n \<Rightarrow> ok (h(a \<mapsto> n\<lparr>next_cl := v\<rparr>))))"

definition unlink :: "'e cells \<Rightarrow> nat option \<Rightarrow> nat \<Rightarrow> 'e dnode \<Rightarrow> fault + 'e cells \<times> nat option" where
  "unlink h list cur n =
     and_then (set_previous h (next_cl n) (previous n)) (\<lambda>h.
     and_then (set_next h (previous n) (next_cl n)) (\<lambda>h.
       ok (h(cur := None), if list = Some cur then next_cl n else list)))"

text \<open>The walk that frees every node after it has left it\<close>

partial_function (option) free_loop :: "'e cells \<Rightarrow> nat \<Rightarrow> (fault + 'e cells) option" where
  "free_loop h cur =
     (case h cur of
        None \<Rightarrow> Some (crash UseAfterFree)
      | Some n \<Rightarrow>
          (case next_cl n of
             None \<Rightarrow> Some (ok (h(cur := None)))
           | Some nxt \<Rightarrow>
               (case h nxt of
                  None \<Rightarrow> Some (crash UseAfterFree)
                | Some m \<Rightarrow>
                    (case previous m of
                       None \<Rightarrow> Some (crash NullDeref)
                     | Some p \<Rightarrow> if h p = None then Some (crash UseAfterFree) else free_loop (h(p := None)) nxt))))"

section \<open>The list a heap represents\<close>

fun dseg :: "'e cells \<Rightarrow> nat option \<Rightarrow> nat option \<Rightarrow> nat list \<Rightarrow> 'e list \<Rightarrow> nat option \<Rightarrow> bool" where
  "dseg h prev p [] [] q \<longleftrightarrow> p = q"
| "dseg h prev p (a # as) (t # ts) q \<longleftrightarrow>
     (\<exists>nx. p = Some a \<and> h a = Some \<lparr> item = t, next_cl = nx, previous = prev \<rparr> \<and> dseg h (Some a) nx as ts q)"
| "dseg h prev p _ _ q \<longleftrightarrow> False"

definition last_of :: "nat option \<Rightarrow> nat list \<Rightarrow> nat option" where
  "last_of prev as = (if as = [] then prev else Some (last as))"

text \<open>The heap holds the nodes of the list and nothing else.\<close>

definition represents :: "'e heap \<Rightarrow> nat option \<Rightarrow> 'e list \<Rightarrow> bool" where
  "represents h p ts \<longleftrightarrow> (\<exists>as. dseg (cells h) None p as ts None \<and> distinct as \<and> dom (cells h) = set as
     \<and> (\<forall>a \<in> set as. a < brk h))"

lemma last_of_Cons [simp]: "last_of prev (a # as) = last_of (Some a) as"
  by (simp add: last_of_def)

lemma dseg_length: "dseg h prev p as ts q \<Longrightarrow> length as = length ts"
  by (induction h prev p as ts q rule: dseg.induct) auto

lemma dseg_append:
  "length as = length ts \<Longrightarrow> dseg h prev p (as @ bs) (ts @ us) q \<longleftrightarrow>
     (\<exists>m. dseg h prev p as ts m \<and> dseg h (last_of prev as) m bs us q)"
proof (induction as ts arbitrary: prev p rule: list_induct2)
  case Nil
  then show ?case by (simp add: last_of_def)
next
  case (Cons a as t ts)
  then show ?case by auto
qed

lemma dseg_frame: "a \<notin> set as \<Longrightarrow> dseg (h(a := v)) prev p as ts q = dseg h prev p as ts q"
  by (induction h prev p as ts q rule: dseg.induct) auto

lemma dseg_dom: "dseg h prev p as ts q \<Longrightarrow> a \<in> set as \<Longrightarrow> h a \<noteq> None"
  by (induction h prev p as ts q rule: dseg.induct) auto

text \<open>Redirecting the last next pointer and the first previous pointer of a segment\<close>

lemma dseg_redirect_last:
  assumes "dseg h prev p (as @ [b]) (ts @ [t]) q" "distinct (as @ [b])"
  shows "\<exists>n. h b = Some n \<and> next_cl n = q \<and> previous n = last_of prev as
    \<and> dseg (h(b \<mapsto> n\<lparr>next_cl := q'\<rparr>)) prev p (as @ [b]) (ts @ [t]) q'"
proof -
  have len: "length as = length ts" using dseg_length [OF assms(1)] by simp
  from assms(1) obtain m where m: "dseg h prev p as ts m" "m = Some b"
      "h b = Some \<lparr> item = t, next_cl = q, previous = last_of prev as \<rparr>"
    by (auto simp: dseg_append [OF len])
  have "dseg (h(b \<mapsto> \<lparr> item = t, next_cl = q', previous = last_of prev as \<rparr>)) prev p as ts m"
    using m(1) assms(2) by (simp add: dseg_frame)
  with m show ?thesis by (simp add: dseg_append [OF len])
qed

lemma dseg_redirect_first:
  assumes "dseg h prev p (a # as) ts q" "a \<notin> set as"
  shows "\<exists>n. h a = Some n \<and> previous n = prev \<and> dseg (h(a \<mapsto> n\<lparr>previous := prev'\<rparr>)) prev' p (a # as) ts q"
  using assms by (cases ts) (auto simp: dseg_frame)

section \<open>The operations on a segment\<close>

lemma last_node_correct:
  "dseg h prev (Some a) as ts None \<Longrightarrow> last_node h a = Some (ok (last as)) \<and> as \<noteq> []"
proof (induction as arbitrary: ts prev a)
  case Nil
  then show ?case by (cases ts) auto
next
  case (Cons b as)
  then obtain t us nx where ts: "ts = t # us" "a = b" "h b = Some \<lparr> item = t, next_cl = nx, previous = prev \<rparr>"
      "dseg h (Some b) nx as us None"
    by (cases ts) auto
  show ?case
  proof (cases nx)
    case None
    with ts have "as = []" by (cases as; cases us) auto
    with ts None show ?thesis by (simp add: last_node.simps)
  next
    case (Some c)
    with Cons.IH [of "Some b" c us] ts show ?thesis by (simp add: last_node.simps [of h b])
  qed
qed

lemma set_previous_segment:
  assumes "dseg h pr nx ys vs None" "distinct ys"
  shows "\<exists>h'. set_previous h nx pr' = ok h' \<and> dseg h' pr' nx ys vs None \<and> dom h' = dom h
    \<and> (\<forall>a. a \<notin> set ys \<longrightarrow> h' a = h a)"
proof (cases ys)
  case Nil
  with assms have "nx = None" "vs = []" by (cases vs; auto)+
  with Nil show ?thesis by (auto simp: set_previous_def)
next
  case (Cons y zs)
  with assms(1) have nx: "nx = Some y" by (cases vs) auto
  obtain n where n: "h y = Some n" "dseg (h(y \<mapsto> n\<lparr>previous := pr'\<rparr>)) pr' nx ys vs None"
    using dseg_redirect_first [of h pr nx y zs vs None] assms Cons by auto
  then show ?thesis using nx Cons by (auto simp: set_previous_def)
qed

lemma set_next_segment:
  assumes "dseg h None p xs us q" "distinct xs"
  shows "\<exists>h'. set_next h (last_of None xs) q' = ok h' \<and> dom h' = dom h \<and> (\<forall>a. a \<notin> set xs \<longrightarrow> h' a = h a)
    \<and> dseg h' None (if xs = [] then q' else p) xs us q'"
proof (cases xs rule: rev_cases)
  case Nil
  with assms have "us = []" by (cases us) auto
  with Nil show ?thesis by (simp add: set_next_def last_of_def)
next
  case (snoc zs z)
  obtain ws w where ws: "us = ws @ [w]" using dseg_length [OF assms(1)] snoc by (cases us rule: rev_cases) auto
  obtain n where n: "h z = Some n" "dseg (h(z \<mapsto> n\<lparr>next_cl := q'\<rparr>)) None p xs us q'"
    using dseg_redirect_last [of h None p zs z ws w q] assms snoc ws by auto
  then show ?thesis using snoc by (auto simp: set_next_def last_of_def)
qed

lemma dseg_cong: "(\<forall>a \<in> set as. h' a = h a) \<Longrightarrow> dseg h' prev p as ts q = dseg h prev p as ts q"
  by (induction h prev p as ts q rule: dseg.induct) auto

lemma unlink_correct:
  assumes d: "dseg h None p (xs @ b # ys) (us @ t # vs) None" "distinct (xs @ b # ys)" "length xs = length us"
    and n: "h b = Some n"
  shows "\<exists>h' p'. unlink h p b n = ok (h', p') \<and> dseg h' None p' (xs @ ys) (us @ vs) None \<and> dom h' = dom h - {b}"
proof -
  from d(1) obtain m where m: "dseg h None p xs us m" "m = Some b" "dseg h (Some b) (next_cl n) ys vs None"
      "previous n = last_of None xs"
    using n by (auto simp: dseg_append [OF d(3)])
  have p: "p = Some b \<longleftrightarrow> xs = []" using m(1,2) d(2) by (cases xs; cases us) auto
  obtain h1 where h1: "set_previous h (next_cl n) (previous n) = ok h1" "dseg h1 (previous n) (next_cl n) ys vs None"
      "dom h1 = dom h" "\<forall>a. a \<notin> set ys \<longrightarrow> h1 a = h a"
    using set_previous_segment [OF m(3), of "previous n"] d(2) by auto
  have "dseg h1 None p xs us m" using m(1) h1(4) d(2) by (subst dseg_cong [of xs h1 h]) auto
  from set_next_segment [OF this, of "next_cl n"] d(2)
  obtain h2 where h2: "set_next h1 (previous n) (next_cl n) = ok h2" "dom h2 = dom h1" "\<forall>a. a \<notin> set xs \<longrightarrow> h2 a = h1 a"
      "dseg h2 None (if xs = [] then next_cl n else p) xs us (next_cl n)"
    using m(4) by auto
  have "dseg h2 (last_of None xs) (next_cl n) ys vs None"
    using h1(2) h2(3) d(2) m(4) by (subst dseg_cong [of ys h2 h1]) auto
  with h2(4) have "dseg h2 None (if xs = [] then next_cl n else p) (xs @ ys) (us @ vs) None"
    by (auto simp: dseg_append [OF d(3)])
  then have "dseg (h2(b := None)) None (if xs = [] then next_cl n else p) (xs @ ys) (us @ vs) None"
    using d(2) by (subst dseg_frame) auto
  moreover have "dom (h2(b := None)) = dom h - {b}" using h1(3) h2(2) by auto
  ultimately show ?thesis using h1(1) h2(1) p by (auto simp: unlink_def)
qed

lemma free_loop_correct:
  "dseg h prev (Some a) as ts None \<Longrightarrow> distinct as \<Longrightarrow>
   \<exists>h'. free_loop h a = Some (ok h') \<and> (\<forall>x. h' x = (if x \<in> set as then None else h x))"
proof (induction as arbitrary: h ts prev a)
  case Nil
  then show ?case by (cases ts) auto
next
  case (Cons b as)
  then obtain t us nx where ts: "ts = t # us" "a = b" "h b = Some \<lparr> item = t, next_cl = nx, previous = prev \<rparr>"
      "dseg h (Some b) nx as us None"
    by (cases ts) auto
  show ?case
  proof (cases nx)
    case None
    with ts have "as = []" by (cases as; cases us) auto
    with ts None show ?thesis by (auto simp: free_loop.simps)
  next
    case (Some c)
    with ts(4) obtain m where m: "h c = Some m" "previous m = Some b" "c \<in> set as" by (cases as; cases us) auto
    then have "c \<noteq> b" using Cons.prems(2) by auto
    have "dseg (h(b := None)) (Some b) (Some c) as us None" using ts(4) Some Cons.prems(2) by (simp add: dseg_frame)
    moreover have "distinct as" using Cons.prems(2) by simp
    ultimately obtain h' where
      "free_loop (h(b := None)) c = Some (ok h')" "\<forall>x. h' x = (if x \<in> set as then None else (h(b := None)) x)"
      using Cons.IH by blast
    with ts Some m \<open>c \<noteq> b\<close> show ?thesis by (auto simp: free_loop.simps [of h b])
  qed
qed

section \<open>Representations\<close>

lemma represents_cases:
  assumes "represents h p ts"
  obtains (empty) "p = None" "ts = []"
  | (nonempty) a where "p = Some a" "ts \<noteq> []"
proof (cases p)
  case None
  from assms obtain as where "dseg (cells h) None p as ts None" by (auto simp: represents_def)
  with None have "ts = []" by (cases as; cases ts) auto
  with None empty show thesis by blast
next
  case (Some a)
  from assms obtain as where "dseg (cells h) None p as ts None" by (auto simp: represents_def)
  with Some have "ts \<noteq> []" by (cases as; cases ts) auto
  with Some nonempty show thesis by blast
qed

text \<open>A new node becomes the list, or goes behind its last one.\<close>

definition new_node :: "'e \<Rightarrow> nat option \<Rightarrow> 'e dnode" where
  "new_node x prev = \<lparr> item = x, next_cl = None, previous = prev \<rparr>"

definition put_first :: "'e heap \<Rightarrow> 'e \<Rightarrow> 'e heap" where
  "put_first h x = \<lparr> cells = (cells h)(brk h \<mapsto> new_node x None), brk = Suc (brk h) \<rparr>"

definition put_behind :: "'e heap \<Rightarrow> nat \<Rightarrow> 'e dnode \<Rightarrow> 'e \<Rightarrow> 'e heap" where
  "put_behind h b n x =
     \<lparr> cells = (cells h)(b \<mapsto> n\<lparr>next_cl := Some (brk h)\<rparr>, brk h \<mapsto> new_node x (Some b)), brk = Suc (brk h) \<rparr>"

lemma represents_first:
  assumes "represents h None ts"
  shows "ts = [] \<and> represents (put_first h x) (Some (brk h)) [x]"
proof -
  obtain as where as: "dseg (cells h) None None as ts None" "dom (cells h) = set as"
    using assms by (auto simp: represents_def)
  then have "as = []" "ts = []" by (cases as; cases ts; auto)+
  with as(2) show ?thesis by (auto simp: represents_def put_first_def new_node_def intro!: exI [of _ "[brk h]"])
qed

lemma represents_behind:
  assumes "represents h (Some a) ts"
  shows "\<exists>b n. last_node (cells h) a = Some (ok b) \<and> cells h b = Some n \<and> next_cl n = None
    \<and> represents (put_behind h b n x) (Some a) (ts @ [x])"
proof -
  obtain as where as: "dseg (cells h) None (Some a) as ts None" "distinct as" "dom (cells h) = set as" "\<forall>a \<in> set as. a < brk h"
    using assms by (auto simp: represents_def)
  have new: "brk h \<notin> set as" using as(4) by auto
  have last: "last_node (cells h) a = Some (ok (last as))" and ne: "as \<noteq> []"
    using last_node_correct [of "cells h" None a as ts] as(1) by auto
  obtain bs b where bs: "as = bs @ [b]" using ne by (cases as rule: rev_cases) auto
  obtain us t where us: "ts = us @ [t]" using dseg_length [OF as(1)] ne by (cases ts rule: rev_cases) auto
  obtain n where n: "cells h b = Some n" "next_cl n = None"
      "dseg ((cells h)(b \<mapsto> n\<lparr>next_cl := Some (brk h)\<rparr>)) None (Some a) as ts (Some (brk h))"
    using dseg_redirect_last [of "cells h" None "Some a" bs b us t None] as(1,2) bs us by auto
  define cs where "cs = (cells h)(b \<mapsto> n\<lparr>next_cl := Some (brk h)\<rparr>, brk h \<mapsto> new_node x (Some b))"
  have "dseg cs None (Some a) as ts (Some (brk h))" using n(3) new by (simp add: dseg_frame cs_def)
  then have "dseg cs None (Some a) (as @ [brk h]) (ts @ [x]) None"
    unfolding dseg_append [OF dseg_length [OF as(1)]] using bs
    by (intro exI [of _ "Some (brk h)"]) (simp add: last_of_def cs_def new_node_def)
  moreover have "dom cs = set (as @ [brk h])" using as(3) bs by (auto simp: cs_def)
  ultimately have "represents \<lparr> cells = cs, brk = Suc (brk h) \<rparr> (Some a) (ts @ [x])"
    unfolding represents_def using as(2,4) new by (intro exI [of _ "as @ [brk h]"]) (auto simp: less_Suc_eq)
  then show ?thesis using last bs n by (auto simp: put_behind_def cs_def)
qed

text \<open>The node of an element in the middle\<close>

definition at_node :: "'e heap \<Rightarrow> nat option \<Rightarrow> 'e list \<Rightarrow> 'e \<Rightarrow> 'e list \<Rightarrow> nat \<Rightarrow> 'e dnode \<Rightarrow> bool" where
  "at_node h p us t vs b n \<longleftrightarrow>
     (\<exists>xs ys. dseg (cells h) None p (xs @ b # ys) (us @ t # vs) None \<and> distinct (xs @ b # ys) \<and> length xs = length us
        \<and> dom (cells h) = set (xs @ b # ys) \<and> (\<forall>a \<in> set (xs @ b # ys). a < brk h)) \<and> cells h b = Some n"

lemma at_node_fields:
  assumes "at_node h p us t vs b n"
  shows "item n = t \<and> (next_cl n = None \<longleftrightarrow> vs = []) \<and> (previous n = None \<longleftrightarrow> us = []) \<and> (us = [] \<longrightarrow> p = Some b)"
proof -
  obtain xs ys where xs: "dseg (cells h) None p (xs @ b # ys) (us @ t # vs) None" "length xs = length us" "cells h b = Some n"
    using assms by (auto simp: at_node_def)
  obtain nx where nx: "dseg (cells h) None p xs us (Some b)" "n = \<lparr> item = t, next_cl = nx, previous = last_of None xs \<rparr>"
      "dseg (cells h) (Some b) nx ys vs None"
    using xs by (auto simp: dseg_append [OF xs(2)])
  have "nx = None \<longleftrightarrow> vs = []" using nx(3) by (cases ys; cases vs) auto
  moreover have "us = [] \<longrightarrow> p = Some b" using nx(1) xs(2) by (cases xs) auto
  ultimately show ?thesis using nx(2) xs(2) by (auto simp: last_of_def)
qed

lemma at_node_next:
  assumes "at_node h p us t (v # vs) b n"
  obtains c m where "next_cl n = Some c" "at_node h p (us @ [t]) v vs c m"
proof -
  obtain xs ys where xs: "dseg (cells h) None p (xs @ b # ys) (us @ t # v # vs) None" "length xs = length us" "cells h b = Some n"
      "distinct (xs @ b # ys)" "dom (cells h) = set (xs @ b # ys)" "\<forall>a \<in> set (xs @ b # ys). a < brk h"
    using assms by (auto simp: at_node_def)
  obtain nx where nx: "n = \<lparr> item = t, next_cl = nx, previous = last_of None xs \<rparr>"
      "dseg (cells h) (Some b) nx ys (v # vs) None"
    using xs(1,3) unfolding dseg_append [OF xs(2)] by auto
  obtain c zs m where c: "ys = c # zs" "nx = Some c" "cells h c = Some m"
    using nx(2) by (cases ys) auto
  have eq: "(xs @ [b]) @ c # zs = xs @ b # ys" "(us @ [t]) @ v # vs = us @ t # v # vs" using c(1) by simp_all
  have "at_node h p (us @ [t]) v vs c m"
    unfolding at_node_def
  proof (intro conjI exI)
    show "dseg (cells h) None p ((xs @ [b]) @ c # zs) ((us @ [t]) @ v # vs) None" unfolding eq by (rule xs(1))
    show "distinct ((xs @ [b]) @ c # zs)" unfolding eq by (rule xs(4))
    show "length (xs @ [b]) = length (us @ [t])" using xs(2) by simp
    show "dom (cells h) = set ((xs @ [b]) @ c # zs)" unfolding eq by (rule xs(5))
    show "\<forall>a \<in> set ((xs @ [b]) @ c # zs). a < brk h" unfolding eq by (rule xs(6))
    show "cells h c = Some m" by (rule c(3))
  qed
  with nx(1) c(2) that show thesis by simp
qed

lemma at_node_first:
  assumes "represents h (Some a) (t # ts)"
  obtains n where "at_node h (Some a) [] t ts a n"
proof -
  obtain as where as: "dseg (cells h) None (Some a) as (t # ts) None" "distinct as" "dom (cells h) = set as" "\<forall>a \<in> set as. a < brk h"
    using assms by (auto simp: represents_def)
  then obtain bs n where "as = a # bs" "cells h a = Some n" by (cases as) auto
  with as have "at_node h (Some a) [] t ts a n"
    unfolding at_node_def by (intro conjI exI [of _ "[]"] exI [of _ bs]) auto
  with that show thesis .
qed

lemma at_node_update:
  assumes "at_node h p us t vs b n"
  shows "represents (h\<lparr>cells := (cells h)(b \<mapsto> n\<lparr>item := x\<rparr>)\<rparr>) p (us @ x # vs)"
proof -
  obtain xs ys where xs: "dseg (cells h) None p (xs @ b # ys) (us @ t # vs) None" "length xs = length us" "cells h b = Some n"
      "distinct (xs @ b # ys)" "dom (cells h) = set (xs @ b # ys)" "\<forall>a \<in> set (xs @ b # ys). a < brk h"
    using assms by (auto simp: at_node_def)
  have "dseg ((cells h)(b \<mapsto> n\<lparr>item := x\<rparr>)) None p (xs @ b # ys) (us @ x # vs) None"
    using xs(1,3,4) by (auto simp: dseg_append [OF xs(2)] dseg_frame)
  moreover have "dom ((cells h)(b \<mapsto> n\<lparr>item := x\<rparr>)) = set (xs @ b # ys)" using xs(5) by auto
  ultimately show ?thesis unfolding represents_def using xs(4,6) by (intro exI [of _ "xs @ b # ys"]) simp
qed

lemma at_node_unlink:
  assumes "at_node h p us t vs b n"
  shows "\<exists>h' p'. unlink (cells h) p b n = ok (h', p') \<and> represents (h\<lparr>cells := h'\<rparr>) p' (us @ vs)"
proof -
  obtain xs ys where xs: "dseg (cells h) None p (xs @ b # ys) (us @ t # vs) None" "length xs = length us" "cells h b = Some n"
      "distinct (xs @ b # ys)" "dom (cells h) = set (xs @ b # ys)" "\<forall>a \<in> set (xs @ b # ys). a < brk h"
    using assms by (auto simp: at_node_def)
  obtain h' p' where h': "unlink (cells h) p b n = ok (h', p')" "dseg h' None p' (xs @ ys) (us @ vs) None"
      "dom h' = dom (cells h) - {b}"
    using unlink_correct [OF xs(1,4,2,3)] by blast
  have "represents (h\<lparr>cells := h'\<rparr>) p' (us @ vs)"
    unfolding represents_def using h'(2,3) xs(4-6) by (intro exI [of _ "xs @ ys"]) auto
  with h'(1) show ?thesis by blast
qed

text \<open>A freed list leaves no node.\<close>

lemma free_loop_all:
  assumes "represents h (Some a) ts"
  shows "free_loop (cells h) a = Some (ok Map.empty)"
proof -
  obtain as where as: "dseg (cells h) None (Some a) as ts None" "distinct as" "dom (cells h) = set as"
    using assms by (auto simp: represents_def)
  obtain h' where "free_loop (cells h) a = Some (ok h')" "\<forall>x. h' x = (if x \<in> set as then None else cells h x)"
    using free_loop_correct [OF as(1,2)] by blast
  moreover from this(2) as(3) have "h' = Map.empty" by (auto simp: fun_eq_iff)
  ultimately show ?thesis by simp
qed

end
