(* ===== verification/ClientList.thy ===== *)
theory ClientList
  imports DList
begin

text \<open>
  The list of logged-on clients of SysPro_Project3/src/client\_list.c: a doubly linked list in a
  heap of nodes.  A pointer is an address or NULL, malloc hands out addresses in order, free
  removes the node, and a read of a freed node is a fault.
\<close>

section \<open>State\<close>

record client_tuple =
  IP_Address :: "32 word"
  portNum :: int

type_synonym client_list = "client_tuple dnode"

definition same_client :: "client_tuple \<Rightarrow> client_tuple \<Rightarrow> bool" where
  "same_client ct t \<longleftrightarrow> IP_Address ct = IP_Address t \<and> portNum ct = portNum t"

section \<open>Operations\<close>

partial_function (option) in_loop :: "client_tuple cells \<Rightarrow> client_tuple \<Rightarrow> nat \<Rightarrow> (fault + bool) option" where
  "in_loop h ct cur =
     (case h cur of
        None \<Rightarrow> Some (crash UseAfterFree)
      | Some n \<Rightarrow>
          (case next_cl n of
             None \<Rightarrow> Some (ok (same_client ct (item n)))
           | Some nxt \<Rightarrow> if same_client ct (item n) then Some (ok True) else in_loop h ct nxt))"

definition in_client_list :: "client_tuple heap \<Rightarrow> nat option \<Rightarrow> client_tuple \<Rightarrow> (fault + bool) option" where
  "in_client_list h list ct = (case list of None \<Rightarrow> Some (ok False) | Some cur \<Rightarrow> in_loop (cells h) ct cur)"

definition client_list_add :: "client_tuple heap \<Rightarrow> nat option \<Rightarrow> client_tuple \<Rightarrow> (fault + client_tuple heap \<times> nat option) option" where
  "client_list_add h list ct =
     (case list of
        None \<Rightarrow>
          Some (ok (\<lparr> cells = (cells h)(brk h \<mapsto> \<lparr> item = ct, next_cl = None, previous = None \<rparr>), brk = Suc (brk h) \<rparr>,
                    Some (brk h)))
      | Some cur \<Rightarrow>
          run_then (last_node (cells h) cur) (\<lambda>cur.
            case cells h cur of
              None \<Rightarrow> Some (crash UseAfterFree)
            | Some n \<Rightarrow>
                Some (ok (\<lparr> cells = (cells h)(cur \<mapsto> n\<lparr>next_cl := Some (brk h)\<rparr>,
                             brk h \<mapsto> \<lparr> item = ct, next_cl = None, previous = Some cur \<rparr>),
                           brk = Suc (brk h) \<rparr>, list))))"

partial_function (option) delete_loop ::
    "client_tuple cells \<Rightarrow> nat option \<Rightarrow> client_tuple \<Rightarrow> nat \<Rightarrow> (fault + client_tuple cells \<times> nat option) option" where
  "delete_loop h list ct cur =
     (case h cur of
        None \<Rightarrow> Some (crash UseAfterFree)
      | Some n \<Rightarrow>
          if same_client (item n) ct then Some (unlink h list cur n)
          else (case next_cl n of None \<Rightarrow> Some (ok (h, list)) | Some nxt \<Rightarrow> delete_loop h list ct nxt))"

definition delete_from_client_list ::
    "client_tuple heap \<Rightarrow> nat option \<Rightarrow> client_tuple \<Rightarrow> (fault + client_tuple heap \<times> nat option) option" where
  "delete_from_client_list h list ct =
     (case list of
        None \<Rightarrow> Some (ok (h, list))
      | Some cur \<Rightarrow>
          run_then (delete_loop (cells h) list ct cur) (\<lambda>(cs, list). Some (ok (h\<lparr>cells := cs\<rparr>, list))))"

text \<open>free_list walks to the end, freeing the node it has left.\<close>

definition free_list :: "client_tuple heap \<Rightarrow> nat option \<Rightarrow> (fault + client_tuple heap) option" where
  "free_list h list =
     (case list of
        None \<Rightarrow> Some (ok h)
      | Some cur \<Rightarrow> run_then (free_loop (cells h) cur) (\<lambda>cs. Some (ok (h\<lparr>cells := cs\<rparr>))))"

section \<open>The operations on the list\<close>

lemma in_loop_correct:
  "dseg h prev p as ts None \<Longrightarrow> p = Some a \<Longrightarrow> in_loop h ct a = Some (ok (\<exists>t \<in> set ts. same_client ct t))"
proof (induction as arbitrary: ts prev p a)
  case Nil
  then show ?case by (cases ts) auto
next
  case (Cons b as)
  then obtain t us nx where ts: "ts = t # us" "a = b" "h b = Some \<lparr> item = t, next_cl = nx, previous = prev \<rparr>"
      "dseg h (Some b) nx as us None"
    by (cases ts) auto
  show ?case
  proof (cases nx)
    case None
    with ts have "us = []" by (cases as; cases us) auto
    with ts None show ?thesis by (simp add: in_loop.simps)
  next
    case (Some c)
    with Cons.IH [OF ts(4) Some] ts show ?thesis by (simp add: in_loop.simps [of h ct b])
  qed
qed

lemma in_client_list_correct:
  assumes "represents h p ts"
  shows "in_client_list h p ct = Some (ok (\<exists>t \<in> set ts. same_client ct t))"
proof (cases p)
  case None
  from assms obtain as where "dseg (cells h) None p as ts None" by (auto simp: represents_def)
  with None have "ts = []" by (cases as; cases ts) auto
  with None show ?thesis by (simp add: in_client_list_def)
next
  case (Some a)
  with assms show ?thesis by (auto simp: in_client_list_def represents_def dest: in_loop_correct)
qed

lemma client_list_add_correct:
  assumes "represents h p ts"
  shows "\<exists>h' p'. client_list_add h p ct = Some (ok (h', p')) \<and> represents h' p' (ts @ [ct])"
proof (cases p)
  case None
  with represents_first [of h ts ct] assms show ?thesis by (simp add: client_list_add_def put_first_def new_node_def)
next
  case (Some a)
  then obtain b n where "last_node (cells h) a = Some (ok b)" "cells h b = Some n" "represents (put_behind h b n ct) p (ts @ [ct])"
    using represents_behind [of h a ts ct] assms by blast
  with Some show ?thesis by (simp add: client_list_add_def put_behind_def new_node_def)
qed

text \<open>delete_from_client_list removes the first node that matches.\<close>

lemma delete_loop_none:
  "dseg h prev (Some a) as ts None \<Longrightarrow> \<forall>t \<in> set ts. \<not> same_client t ct \<Longrightarrow>
   delete_loop h list ct a = Some (ok (h, list))"
proof (induction as arbitrary: ts prev a)
  case Nil
  then show ?case by (cases ts) auto
next
  case (Cons b as)
  then obtain t us nx where ts: "ts = t # us" "a = b" "h b = Some \<lparr> item = t, next_cl = nx, previous = prev \<rparr>"
      "dseg h (Some b) nx as us None"
    by (cases ts) auto
  show ?case
  proof (cases nx)
    case None
    with ts Cons.prems(2) show ?thesis by (simp add: delete_loop.simps)
  next
    case (Some c)
    with Cons.IH [of "Some b" c us] ts Cons.prems(2) show ?thesis by (simp add: delete_loop.simps [of h list ct b])
  qed
qed

lemma delete_loop_finds:
  "length xs = length us \<Longrightarrow> dseg h prev (Some a) (xs @ b # ys) (us @ t # vs) None \<Longrightarrow>
   \<forall>u \<in> set us. \<not> same_client u ct \<Longrightarrow> same_client t ct \<Longrightarrow>
   \<exists>n. h b = Some n \<and> item n = t \<and> previous n = last_of prev xs
     \<and> delete_loop h list ct a = Some (unlink h list b n)"
proof (induction xs us arbitrary: prev a rule: list_induct2)
  case Nil
  then show ?case by (auto simp: delete_loop.simps last_of_def)
next
  case (Cons x xs u us)
  then obtain nx where nx: "a = x" "h x = Some \<lparr> item = u, next_cl = nx, previous = prev \<rparr>"
      "dseg h (Some x) nx (xs @ b # ys) (us @ t # vs) None" by auto
  then obtain c where "nx = Some c" by (cases xs; cases us) auto
  with Cons.IH [of "Some x" c] Cons.prems nx show ?case by (auto simp: delete_loop.simps [of h list ct x])
qed

definition without :: "client_tuple \<Rightarrow> client_tuple list \<Rightarrow> client_tuple list" where
  "without ct ts = takeWhile (\<lambda>t. \<not> same_client t ct) ts @ drop 1 (dropWhile (\<lambda>t. \<not> same_client t ct) ts)"

lemma delete_from_client_list_correct:
  assumes "represents h p ts"
  shows "\<exists>h' p'. delete_from_client_list h p ct = Some (ok (h', p')) \<and> represents h' p' (without ct ts)"
proof -
  obtain as where as: "dseg (cells h) None p as ts None" "distinct as" "dom (cells h) = set as" "\<forall>a \<in> set as. a < brk h"
    using assms by (auto simp: represents_def)
  show ?thesis
  proof (cases "\<exists>t \<in> set ts. same_client t ct")
    case False
    then have "takeWhile (\<lambda>t. \<not> same_client t ct) ts = ts" "dropWhile (\<lambda>t. \<not> same_client t ct) ts = []"
      by (auto simp: takeWhile_eq_all_conv dropWhile_eq_Nil_conv)
    then have wo: "without ct ts = ts" by (simp only: without_def drop_Nil append_Nil2)
    have "delete_from_client_list h p ct = Some (ok (h, p))"
      using delete_loop_none [of "cells h" None _ as ts ct p] as(1) False
      by (auto simp: delete_from_client_list_def split: option.splits)
    with assms wo show ?thesis by auto
  next
    case True
    then obtain us t vs where ts: "ts = us @ t # vs" "same_client t ct" "\<forall>u \<in> set us. \<not> same_client u ct"
      using split_list_first_prop [of ts "\<lambda>t. same_client t ct"] by blast
    have "takeWhile (\<lambda>t. \<not> same_client t ct) (us @ t # vs) = us" "dropWhile (\<lambda>t. \<not> same_client t ct) (us @ t # vs) = t # vs"
      using ts(2,3) by (simp_all add: takeWhile_append2 dropWhile_append2)
    then have wo: "without ct ts = us @ vs" unfolding without_def ts(1) by simp
    define xs where "xs = take (length us) as"
    have len: "length us < length as" using dseg_length [OF as(1)] ts(1) by simp
    obtain b ys where ab: "as = xs @ b # ys" using id_take_nth_drop [OF len] xs_def by blast
    have lxs: "length xs = length us" using len by (simp add: xs_def)
    obtain a where a: "p = Some a" using as(1) len by (cases p; cases as; cases ts) auto
    obtain n where n: "cells h b = Some n" "delete_loop (cells h) p ct a = Some (unlink (cells h) p b n)"
      using delete_loop_finds [OF lxs, of "cells h" None a b ys t vs ct p] as(1) a ab ts by auto
    obtain h' p' where h': "unlink (cells h) p b n = ok (h', p')" "dseg h' None p' (xs @ ys) (us @ vs) None"
        "dom h' = dom (cells h) - {b}"
      using unlink_correct [of "cells h" p xs b ys us t vs n] as(1,2) lxs n(1) ab ts by auto
    have "represents (h\<lparr>cells := h'\<rparr>) p' (us @ vs)"
      unfolding represents_def using h' as ab by (intro exI [of _ "xs @ ys"]) auto
    then show ?thesis using a n h'(1) wo by (simp add: delete_from_client_list_def)
  qed
qed

text \<open>free_list frees every node.\<close>

lemma free_list_correct:
  assumes "represents h p ts"
  shows "\<exists>h'. free_list h p = Some (ok h') \<and> cells h' = Map.empty"
  using assms
proof (cases rule: represents_cases)
  case empty
  with assms have "cells h = Map.empty" by (auto simp: represents_def elim: dseg.elims)
  with empty show ?thesis by (simp add: free_list_def)
next
  case (nonempty a)
  with free_loop_all [of h a ts] assms show ?thesis by (simp add: free_list_def)
qed

section \<open>The list as a registry of clients\<close>

lemma same_client_eq [simp]: "same_client a b \<longleftrightarrow> a = (b :: client_tuple)"
  by (auto simp: same_client_def)

lemma without_remove1: "without ct ts = remove1 ct ts"
  by (induction ts) (auto simp: without_def)

interpretation clients: registry represents in_client_list client_list_add delete_from_client_list
proof
  show "in_client_list h p c = Some (ok (c \<in> set ts))" if "represents h p ts" for h p ts c
    using in_client_list_correct [OF that, of c] by (simp add: Bex_def)
  show "\<exists>h' p'. client_list_add h p c = Some (ok (h', p')) \<and> represents h' p' (ts @ [c])"
    if "represents h p ts" for h p ts c
    using client_list_add_correct [OF that] .
  show "\<exists>h' p'. delete_from_client_list h p c = Some (ok (h', p')) \<and> represents h' p' (remove1 c ts)"
    if "represents h p ts" for h p ts c
    using delete_from_client_list_correct [OF that, of c] by (simp add: without_remove1)
qed

section \<open>Properties\<close>

definition no_clients :: "client_tuple heap" where "no_clients = \<lparr> cells = Map.empty, brk = 0 \<rparr>"

lemma no_clients_ok: "represents no_clients None []"
  by (auto simp: represents_def no_clients_def intro!: exI [of _ "[]"])

definition client_at :: "int \<Rightarrow> client_tuple" where
  "client_at n = \<lparr> IP_Address = 0x0100007F, portNum = n \<rparr>"

text \<open>
  On a heap that holds a doubly linked list of clients and nothing else, membership, insertion
  at the end, removal of the first match and freeing end without a fault and do on the nodes what
  the names say on the list; removal leaves no dead node behind and freeing leaves no node at all.
\<close>

theorem client_list_refines:
  assumes "represents h p ts"
  shows "in_client_list h p ct = Some (ok (ct \<in> set ts))
    \<and> (\<exists>h' p'. client_list_add h p ct = Some (ok (h', p')) \<and> represents h' p' (ts @ [ct]))
    \<and> (\<exists>h' p'. delete_from_client_list h p ct = Some (ok (h', p')) \<and> represents h' p' (remove1 ct ts))
    \<and> (\<exists>h'. free_list h p = Some (ok h') \<and> cells h' = Map.empty)"
  using clients.member_law [OF assms] clients.add_law [OF assms] clients.remove_law [OF assms] free_list_correct [OF assms]
  by blast

theorem client_list_refines_witness:
  "in_client_list no_clients None (client_at 9) = Some (ok (client_at 9 \<in> set []))
    \<and> (\<exists>h' p'. client_list_add no_clients None (client_at 9) = Some (ok (h', p')) \<and> represents h' p' ([] @ [client_at 9]))
    \<and> (\<exists>h' p'. delete_from_client_list no_clients None (client_at 9) = Some (ok (h', p'))
         \<and> represents h' p' (remove1 (client_at 9) []))
    \<and> (\<exists>h'. free_list no_clients None = Some (ok h') \<and> cells h' = Map.empty)"
  by (rule client_list_refines [OF no_clients_ok])

text \<open>
  Any sequence of log-ons and log-offs, each guarded by the membership test as the programs do,
  keeps the list free of duplicates, and a client is listed at the end exactly when its last
  request was a log-on.
\<close>

theorem session_members:
  "\<exists>h' p' ts. clients.session no_clients None rs = Some (ok (h', p')) \<and> represents h' p' ts \<and> distinct ts
    \<and> (\<forall>c. c \<in> set ts \<longleftrightarrow> (\<exists>as bs. rs = as @ (True, c) # bs \<and> (\<forall>x. (x, c) \<notin> set bs)))"
proof -
  obtain h' p' where "clients.session no_clients None rs = Some (ok (h', p'))" "represents h' p' (logged [] rs)"
    using clients.session_refines [OF no_clients_ok] by blast
  moreover have "distinct (logged [] rs)" by (rule distinct_logged) simp
  ultimately show ?thesis using logged_member [of "[]" _ rs] by auto
qed

end
