(* ===== verification/Server.thy ===== *)
theory Server
  imports ClientList
begin

text \<open>
  The dropbox server (SysPro_Project3/src/dropbox\_server.c): its client list, the requests it
  answers and the notifications it sends.  Sockets and signals come from outside: how far the
  exchange with a notified client gets, whether the k-th write to the requester succeeds, and
  whether SIGINT has set term\_flag.  What the server writes is its output; the lines it logs to
  stdout and stderr are left out.
\<close>

section \<open>State and messages\<close>

datatype packet = Msg int | Tuple client_tuple | Count int

datatype dest = Requester | Client client_tuple

definition OK :: int where "OK = 0"
definition LOG_ON :: int where "LOG_ON = 1"
definition LOG_OFF :: int where "LOG_OFF = 2"
definition GET_CLIENTS :: int where "GET_CLIENTS = 3"
definition GET_FILE_LIST :: int where "GET_FILE_LIST = 4"
definition GET_FILE :: int where "GET_FILE = 5"
definition USER_OFF :: int where "USER_OFF = 6"
definition USER_ON :: int where "USER_ON = 7"
definition FILE_LIST :: int where "FILE_LIST = 8"
definition FILE_NOT_FOUND :: int where "FILE_NOT_FOUND = 9"
definition FILE_UP_TO_DATE :: int where "FILE_UP_TO_DATE = 10"
definition CLIENT_LIST :: int where "CLIENT_LIST = 11"
definition FILE_SIZE :: int where "FILE_SIZE = 12"
definition IP_PORT_NOT_FOUND :: int where "IP_PORT_NOT_FOUND = 13"
definition SUCC_LOG_OFF :: int where "SUCC_LOG_OFF = 14"

lemmas message_codes = OK_def LOG_ON_def LOG_OFF_def GET_CLIENTS_def GET_FILE_LIST_def GET_FILE_def
  USER_OFF_def USER_ON_def FILE_LIST_def FILE_NOT_FOUND_def FILE_UP_TO_DATE_def CLIENT_LIST_def
  FILE_SIZE_def IP_PORT_NOT_FOUND_def SUCC_LOG_OFF_def

record server =
  s_heap :: "client_tuple heap"
  c_list :: "nat option"
  clients_logged_on :: int
  term_flag :: bool

section \<open>Notifying the clients\<close>

text \<open>How far the exchange with one client gets.\<close>

datatype exchange =
    NoConnect        \<comment> \<open>connect fails\<close>
  | Interrupted1     \<comment> \<open>SIGINT before the message is written\<close>
  | MsgFails         \<comment> \<open>writing the message fails\<close>
  | ServerFails      \<comment> \<open>writing the server's tuple fails\<close>
  | Interrupted2     \<comment> \<open>SIGINT while waiting for the approval\<close>
  | NoApproval       \<comment> \<open>reading the approval fails, or it is not OK\<close>
  | Interrupted3     \<comment> \<open>SIGINT before the client's tuple is written\<close>
  | TupleFails       \<comment> \<open>writing the client's tuple fails\<close>
  | Completed

definition exchange_sends :: "exchange \<Rightarrow> int \<Rightarrow> client_tuple \<Rightarrow> client_tuple \<Rightarrow> packet list" where
  "exchange_sends x msg server_tuple ct =
     (case x of
        NoConnect \<Rightarrow> [] | Interrupted1 \<Rightarrow> [] | MsgFails \<Rightarrow> []
      | ServerFails \<Rightarrow> [Msg msg]
      | Completed \<Rightarrow> [Msg msg, Tuple server_tuple, Tuple ct]
      | _ \<Rightarrow> [Msg msg, Tuple server_tuple])"

text \<open>Whether the loop continues with the next client; a return ends the notification.\<close>

definition goes_on :: "exchange \<Rightarrow> bool" where
  "goes_on x \<longleftrightarrow> x \<in> {NoConnect, MsgFails, ServerFails, TupleFails, Completed}"

definition interrupted :: "exchange \<Rightarrow> bool" where
  "interrupted x \<longleftrightarrow> x \<in> {Interrupted1, Interrupted2, Interrupted3}"

type_synonym sent = "(dest \<times> packet) list"

definition visit :: "exchange \<Rightarrow> int \<Rightarrow> client_tuple \<Rightarrow> client_tuple \<Rightarrow> client_tuple \<Rightarrow> sent" where
  "visit x msg server_tuple ct t = map (Pair (Client t)) (exchange_sends x msg server_tuple ct)"

text \<open>The while loop over all nodes but the last.  The result says where it stopped.\<close>

partial_function (option) notify_loop ::
    "(client_tuple \<Rightarrow> exchange) \<Rightarrow> int \<Rightarrow> client_tuple \<Rightarrow> client_tuple \<Rightarrow> client_tuple cells \<Rightarrow> nat \<Rightarrow> sent
     \<Rightarrow> (fault + sent \<times> bool \<times> client_list option) option" where
  "notify_loop peer msg server_tuple ct h cur out =
     (case h cur of
        None \<Rightarrow> Some (crash UseAfterFree)
      | Some n \<Rightarrow>
          (case next_cl n of
             None \<Rightarrow> Some (ok (out, False, Some n))
           | Some nxt \<Rightarrow>
               let x = peer (item n); out = out @ visit x msg server_tuple ct (item n) in
               if goes_on x then notify_loop peer msg server_tuple ct h nxt out
               else Some (ok (out, interrupted x, None))))"

text \<open>The result is what was written and whether term_flag was set meanwhile.\<close>

definition notify_clients_USER_ON ::
    "(client_tuple \<Rightarrow> exchange) \<Rightarrow> client_tuple \<Rightarrow> client_tuple \<Rightarrow> client_tuple heap \<Rightarrow> nat option \<Rightarrow> (fault + sent \<times> bool) option" where
  "notify_clients_USER_ON peer server_tuple ct h list =
     (case list of
        None \<Rightarrow> Some (ok ([], False))
      | Some cur \<Rightarrow>
          run_then (notify_loop peer USER_ON server_tuple ct (cells h) cur []) (\<lambda>(out, sig, rest). Some (ok (out, sig))))"

definition notify_clients_USER_OFF ::
    "(client_tuple \<Rightarrow> exchange) \<Rightarrow> client_tuple \<Rightarrow> client_tuple \<Rightarrow> client_tuple heap \<Rightarrow> nat option \<Rightarrow> (fault + sent \<times> bool) option" where
  "notify_clients_USER_OFF peer server_tuple ct h list =
     (case list of
        None \<Rightarrow> Some (ok ([], False))
      | Some cur \<Rightarrow>
          run_then (notify_loop peer USER_OFF server_tuple ct (cells h) cur []) (\<lambda>(out, sig, rest).
            case rest of
              None \<Rightarrow> Some (ok (out, sig))
            | Some n \<Rightarrow>
                let x = peer (item n)
                in Some (ok (out @ visit x USER_OFF server_tuple ct (item n), interrupted x))))"

section \<open>One request\<close>

text \<open>
  GET_CLIENTS: the nodes from the first on; w says whether the k-th write succeeds.  A failed write
  ends the loop, and the node it failed on is tried once more.
\<close>

partial_function (option) send_clients ::
    "(nat \<Rightarrow> bool) \<Rightarrow> client_tuple cells \<Rightarrow> nat \<Rightarrow> nat \<Rightarrow> sent \<Rightarrow> (fault + sent) option" where
  "send_clients w h k cur out =
     (case h cur of
        None \<Rightarrow> Some (crash UseAfterFree)
      | Some n \<Rightarrow>
          (case next_cl n of
             None \<Rightarrow> Some (ok (if w k then out @ [(Requester, Tuple (item n))] else out))
           | Some nxt \<Rightarrow>
               if w k then send_clients w h (k + 1) nxt (out @ [(Requester, Tuple (item n))])
               else Some (ok (if w (k + 1) then out @ [(Requester, Tuple (item n))] else out))))"

text \<open>What happens outside while one request is served.\<close>

record surroundings =
  peers :: "client_tuple \<Rightarrow> exchange"
  writes :: "nat \<Rightarrow> bool"
  signalled :: bool

definition handle_request ::
    "client_tuple \<Rightarrow> surroundings \<Rightarrow> int \<Rightarrow> client_tuple \<Rightarrow> server \<Rightarrow> (fault + server \<times> sent) option" where
  "handle_request server_tuple env msg ct s =
     (let put = (\<lambda>k p. if writes env k then [(Requester, p)] else []) in
      if msg = LOG_ON then
        run_then (in_client_list (s_heap s) (c_list s) ct) (\<lambda>known.
          if \<not> known then
            run_then (client_list_add (s_heap s) (c_list s) ct) (\<lambda>(h, l).
            run_then (notify_clients_USER_ON (peers env) server_tuple ct h l) (\<lambda>(out, sig).
              let s = s\<lparr>s_heap := h, c_list := l, clients_logged_on := clients_logged_on s + 1,
                        term_flag := term_flag s \<or> sig \<or> signalled env\<rparr>
              in Some (ok (s, if term_flag s then out else out @ put 0 (Tuple server_tuple)))))
          else Some (ok (s, [])))
      else if msg = GET_CLIENTS then
        run_then (in_client_list (s_heap s) (c_list s) ct) (\<lambda>known.
          if \<not> known then Some (ok (s, put 0 (Msg IP_PORT_NOT_FOUND)))
          else if \<not> writes env 0 then Some (ok (s, []))
          else if \<not> writes env 1 then Some (ok (s, [(Requester, Msg CLIENT_LIST)]))
          else
            (case c_list s of
               None \<Rightarrow> Some (crash NullDeref)
             | Some cur \<Rightarrow>
                 run_then (send_clients (writes env) (cells (s_heap s)) 2 cur
                    [(Requester, Msg CLIENT_LIST), (Requester, Count (clients_logged_on s))]) (\<lambda>out. Some (ok (s, out)))))
      else if msg = LOG_OFF then
        run_then (in_client_list (s_heap s) (c_list s) ct) (\<lambda>known.
          if \<not> known then Some (ok (s, put 0 (Msg IP_PORT_NOT_FOUND)))
          else
            run_then (delete_from_client_list (s_heap s) (c_list s) ct) (\<lambda>(h, l).
              let s = s\<lparr>s_heap := h, c_list := l, clients_logged_on := clients_logged_on s - 1\<rparr> in
              run_then (notify_clients_USER_OFF (peers env) server_tuple ct h l) (\<lambda>(out, sig).
                Some (ok (s\<lparr>term_flag := term_flag s \<or> sig\<rparr>, put 0 (Msg SUCC_LOG_OFF) @ out)))))
      else Some (ok (s, [])))"

section \<open>The main loop\<close>

text \<open>
  A connection that sends no message is skipped; one that sends a message and no tuple ends the
  loop, as SIGINT does.  At the end the list is freed.
\<close>

datatype connection = NoMessage | NoTuple int | Request int client_tuple surroundings

fun main_loop :: "client_tuple \<Rightarrow> connection list \<Rightarrow> server \<Rightarrow> (fault + server \<times> sent) option" where
  "main_loop server_tuple [] s = Some (ok (s, []))"
| "main_loop server_tuple (c # cs) s =
     (if term_flag s then Some (ok (s, []))
      else
        (case c of
           NoMessage \<Rightarrow> main_loop server_tuple cs s
         | NoTuple msg \<Rightarrow> Some (ok (s, []))
         | Request msg ct env \<Rightarrow>
             run_then (handle_request server_tuple env msg ct s) (\<lambda>(s, out).
             run_then (main_loop server_tuple cs s) (\<lambda>(s, out'). Some (ok (s, out @ out'))))))"

definition server_main :: "client_tuple \<Rightarrow> connection list \<Rightarrow> (fault + client_tuple heap \<times> sent) option" where
  "server_main server_tuple cs =
     run_then (main_loop server_tuple cs
        \<lparr> s_heap = no_clients, c_list = None, clients_logged_on = 0, term_flag = False \<rparr>) (\<lambda>(s, out).
     run_then (free_list (s_heap s) (c_list s)) (\<lambda>h. Some (ok (h, out))))"

section \<open>The notification as a walk over the list\<close>

text \<open>What is written, whether a signal came, and whether the walk reached its end.\<close>

fun told :: "(client_tuple \<Rightarrow> exchange) \<Rightarrow> int \<Rightarrow> client_tuple \<Rightarrow> client_tuple \<Rightarrow> client_tuple list \<Rightarrow> sent \<times> bool \<times> bool" where
  "told peer msg server_tuple ct [] = ([], False, True)"
| "told peer msg server_tuple ct (t # ts) =
     (if goes_on (peer t)
      then (case told peer msg server_tuple ct ts of (out, sig, e) \<Rightarrow>
              (visit (peer t) msg server_tuple ct t @ out, sig, e))
      else (visit (peer t) msg server_tuple ct t, interrupted (peer t), False))"

lemma not_interrupted: "goes_on x \<Longrightarrow> \<not> interrupted x"
  by (cases x) (auto simp: goes_on_def interrupted_def)

lemma told_snoc:
  "told peer msg server_tuple ct (ts @ [t]) =
     (case told peer msg server_tuple ct ts of (out, sig, e) \<Rightarrow>
        if e then (out @ visit (peer t) msg server_tuple ct t, interrupted (peer t), goes_on (peer t)) else (out, sig, False))"
  by (induction ts) (auto simp: not_interrupted split: prod.splits)

lemma notify_loop_told:
  "dseg h prev (Some a) as ts None \<Longrightarrow> told peer msg server_tuple ct (butlast ts) = (out', sig, e) \<Longrightarrow>
   \<exists>rest. notify_loop peer msg server_tuple ct h a out = Some (ok (out @ out', sig, rest))
     \<and> (if e then rest \<noteq> None \<and> item (the rest) = last ts \<and> ts \<noteq> [] \<and> \<not> sig else rest = None)"
proof (induction as arbitrary: ts prev a out out')
  case Nil
  then show ?case by (cases ts) auto
next
  case (Cons b as)
  then obtain t us nx where ts: "ts = t # us" "a = b" "h b = Some \<lparr> item = t, next_cl = nx, previous = prev \<rparr>"
      "dseg h (Some b) nx as us None"
    by (cases ts) auto
  show ?case
  proof (cases nx)
    case None
    with ts have "us = []" by (cases as; cases us) auto
    with Cons.prems(2) ts None show ?thesis by (simp add: notify_loop.simps)
  next
    case (Some c)
    with ts have us: "us \<noteq> []" by (cases as; cases us) auto
    show ?thesis
    proof (cases "goes_on (peer t)")
      case False
      with Cons.prems(2) ts us Some show ?thesis by (simp add: notify_loop.simps Let_def)
    next
      case True
      obtain o1 s1 e1 where rec: "told peer msg server_tuple ct (butlast us) = (o1, s1, e1)" by (rule prod_cases3)
      with True Cons.prems(2) ts us
      have eq: "out' = visit (peer t) msg server_tuple ct t @ o1" "sig = s1" "e = e1" by auto
      from Cons.IH [of "Some b" c us o1 "out @ visit (peer t) msg server_tuple ct t"] rec ts Some eq us True
      show ?thesis by (subst notify_loop.simps) (auto simp: Let_def)
    qed
  qed
qed

lemma notify_USER_ON_told:
  assumes "represents h l ts"
  shows "\<exists>e. told peer USER_ON server_tuple ct (butlast ts) = (out, sig, e) \<Longrightarrow>
    notify_clients_USER_ON peer server_tuple ct h l = Some (ok (out, sig))"
proof -
  assume "\<exists>e. told peer USER_ON server_tuple ct (butlast ts) = (out, sig, e)"
  then obtain e where e: "told peer USER_ON server_tuple ct (butlast ts) = (out, sig, e)" by blast
  obtain as where as: "dseg (cells h) None l as ts None" using assms by (auto simp: represents_def)
  show ?thesis
  proof (cases l)
    case None
    with as have "ts = []" by (cases as; cases ts) auto
    with e None show ?thesis by (simp add: notify_clients_USER_ON_def)
  next
    case (Some a)
    with notify_loop_told [of "cells h" None a as ts peer USER_ON server_tuple ct out sig e "[]"] as e
    show ?thesis by (auto simp: notify_clients_USER_ON_def)
  qed
qed

lemma notify_USER_OFF_told:
  assumes "represents h l ts" "told peer USER_OFF server_tuple ct ts = (out, sig, e)"
  shows "notify_clients_USER_OFF peer server_tuple ct h l = Some (ok (out, sig))"
proof -
  obtain as where as: "dseg (cells h) None l as ts None" using assms by (auto simp: represents_def)
  show ?thesis
  proof (cases l)
    case None
    with as have "ts = []" by (cases as; cases ts) auto
    with assms(2) None show ?thesis by (simp add: notify_clients_USER_OFF_def)
  next
    case (Some a)
    with as have "ts \<noteq> []" by (cases as; cases ts) auto
    then have ts: "ts = butlast ts @ [last ts]" by simp
    obtain o1 s1 e1 where o1: "told peer USER_OFF server_tuple ct (butlast ts) = (o1, s1, e1)" by (rule prod_cases3)
    have all: "told peer USER_OFF server_tuple ct ts =
        (if e1 then (o1 @ visit (peer (last ts)) USER_OFF server_tuple ct (last ts), interrupted (peer (last ts)), goes_on (peer (last ts)))
         else (o1, s1, False))"
      by (subst ts, subst told_snoc) (simp add: o1)
    obtain rest where rest: "notify_loop peer USER_OFF server_tuple ct (cells h) a [] = Some (ok ([] @ o1, s1, rest))"
        "if e1 then rest \<noteq> None \<and> item (the rest) = last ts \<and> ts \<noteq> [] \<and> \<not> s1 else rest = None"
      using notify_loop_told [of "cells h" None a as ts peer USER_OFF server_tuple ct o1 s1 e1 "[]"] as Some o1 by auto
    show ?thesis
    proof (cases e1)
      case True
      with rest obtain n where "rest = Some n" "item n = last ts" by auto
      with True rest(1) all assms(2) Some show ?thesis by (simp add: notify_clients_USER_OFF_def Let_def)
    next
      case False
      with rest all assms(2) Some show ?thesis by (simp add: notify_clients_USER_OFF_def)
    qed
  qed
qed

section \<open>The server keeps its registry\<close>

definition server_ok :: "server \<Rightarrow> client_tuple list \<Rightarrow> bool" where
  "server_ok s ts \<longleftrightarrow> represents (s_heap s) (c_list s) ts \<and> distinct ts \<and> clients_logged_on s = int (length ts)"

definition registry_after :: "int \<Rightarrow> client_tuple \<Rightarrow> client_tuple list \<Rightarrow> client_tuple list" where
  "registry_after msg ct ts =
     (if msg = LOG_ON \<and> ct \<notin> set ts then ts @ [ct] else if msg = LOG_OFF then remove1 ct ts else ts)"

lemma send_clients_ok:
  "dseg h prev (Some a) as ts None \<Longrightarrow> \<exists>out'. send_clients w h k a out = Some (ok out')"
proof (induction as arbitrary: ts prev a k out)
  case Nil
  then show ?case by (cases ts) auto
next
  case (Cons b as)
  then obtain t us nx where ts: "ts = t # us" "a = b" "h b = Some \<lparr> item = t, next_cl = nx, previous = prev \<rparr>"
      "dseg h (Some b) nx as us None"
    by (cases ts) auto
  show ?case
  proof (cases nx)
    case None
    with ts show ?thesis by (simp add: send_clients.simps)
  next
    case (Some c)
    with Cons.IH [of "Some b" c us "k + 1" "out @ [(Requester, Tuple t)]"] ts show ?thesis
      by (simp add: send_clients.simps [of w h k b])
  qed
qed

lemma send_clients_all:
  "dseg h prev (Some a) as ts None \<Longrightarrow>
   send_clients (\<lambda>k. True) h k a out = Some (ok (out @ map (\<lambda>t. (Requester, Tuple t)) ts))"
proof (induction as arbitrary: ts prev a k out)
  case Nil
  then show ?case by (cases ts) auto
next
  case (Cons b as)
  then obtain t us nx where ts: "ts = t # us" "a = b" "h b = Some \<lparr> item = t, next_cl = nx, previous = prev \<rparr>"
      "dseg h (Some b) nx as us None"
    by (cases ts) auto
  show ?case
  proof (cases nx)
    case None
    with ts have "us = []" by (cases as; cases us) auto
    with None ts show ?thesis by (simp add: send_clients.simps)
  next
    case (Some c)
    with Cons.IH [of "Some b" c us] ts show ?thesis by (subst send_clients.simps) simp
  qed
qed

lemma represents_head: "represents h None ts \<Longrightarrow> ts = []"
proof -
  assume "represents h None ts"
  then obtain as where "dseg (cells h) None None as ts None" by (auto simp: represents_def)
  then show "ts = []" by (cases as; cases ts) auto
qed

lemma handle_request_ok:
  assumes "server_ok s ts"
  shows "\<exists>s' out. handle_request server_tuple env msg ct s = Some (ok (s', out))
    \<and> server_ok s' (registry_after msg ct ts)"
proof -
  note rep = assms [unfolded server_ok_def, THEN conjunct1]
  have dist: "distinct ts" and cnt: "clients_logged_on s = int (length ts)" using assms by (simp_all add: server_ok_def)
  note known = clients.member_law [OF rep, of ct]
  consider (on) "msg = LOG_ON" | (get) "msg = GET_CLIENTS" | (off) "msg = LOG_OFF"
    | (other) "msg \<noteq> LOG_ON" "msg \<noteq> GET_CLIENTS" "msg \<noteq> LOG_OFF" by blast
  then show ?thesis
  proof cases
    case on
    obtain h l where add: "client_list_add (s_heap s) (c_list s) ct = Some (ok (h, l))" "represents h l (ts @ [ct])"
      using clients.add_law [OF rep] by blast
    obtain out sig e where told: "told (peers env) USER_ON server_tuple ct (butlast (ts @ [ct])) = (out, sig, e)"
      by (rule prod_cases3)
    have "notify_clients_USER_ON (peers env) server_tuple ct h l = Some (ok (out, sig))"
      by (rule notify_USER_ON_told [OF add(2)]) (use told in blast)
    with on add known show ?thesis
      using assms dist cnt by (auto simp: handle_request_def server_ok_def registry_after_def message_codes Let_def)
  next
    case get
    show ?thesis
    proof (cases "ct \<in> set ts \<and> writes env 0 \<and> writes env 1")
      case True
      then obtain a where a: "c_list s = Some a" using rep represents_head by (cases "c_list s") fastforce+
      obtain as where "dseg (cells (s_heap s)) None (Some a) as ts None" using rep a by (auto simp: represents_def)
      from send_clients_ok [OF this, of "writes env" 2] obtain out where
        "send_clients (writes env) (cells (s_heap s)) 2 a
           [(Requester, Msg CLIENT_LIST), (Requester, Count (clients_logged_on s))] = Some (ok out)" by blast
      with get True a known assms show ?thesis
        by (simp add: handle_request_def registry_after_def message_codes Let_def)
    next
      case False
      with get known assms show ?thesis by (auto simp: handle_request_def registry_after_def message_codes Let_def)
    qed
  next
    case off
    obtain h l where del: "delete_from_client_list (s_heap s) (c_list s) ct = Some (ok (h, l))" "represents h l (remove1 ct ts)"
      using clients.remove_law [OF rep] by blast
    obtain out sig e where told: "told (peers env) USER_OFF server_tuple ct (remove1 ct ts) = (out, sig, e)"
      by (rule prod_cases3)
    have "notify_clients_USER_OFF (peers env) server_tuple ct h l = Some (ok (out, sig))"
      by (rule notify_USER_OFF_told [OF del(2) told])
    moreover have "ct \<in> set ts \<Longrightarrow> int (length (remove1 ct ts)) = int (length ts) - 1"
      using length_pos_if_in_set [of ct ts] length_remove1 [of ct ts] by presburger
    ultimately show ?thesis
      using off del known assms dist cnt
      by (auto simp: handle_request_def server_ok_def registry_after_def message_codes Let_def remove1_idem)
  next
    case other
    with assms show ?thesis by (simp add: handle_request_def registry_after_def Let_def)
  qed
qed

lemma main_loop_ok:
  "server_ok s ts \<Longrightarrow> \<exists>s' ts' out. main_loop server_tuple cs s = Some (ok (s', out)) \<and> server_ok s' ts'"
proof (induction cs arbitrary: s ts)
  case Nil
  then show ?case by auto
next
  case (Cons c cs)
  show ?case
  proof (cases "term_flag s")
    case True
    with Cons.prems show ?thesis by auto
  next
    case False
    show ?thesis
    proof (cases c)
      case NoMessage
      with False Cons show ?thesis by simp
    next
      case (NoTuple msg)
      with False Cons.prems show ?thesis by auto
    next
      case (Request msg ct env)
      obtain s1 out1 where s1: "handle_request server_tuple env msg ct s = Some (ok (s1, out1))"
          "server_ok s1 (registry_after msg ct ts)"
        using handle_request_ok [OF Cons.prems] by blast
      obtain s2 ts2 out2 where "main_loop server_tuple cs s1 = Some (ok (s2, out2))" "server_ok s2 ts2"
        using Cons.IH [OF s1(2)] by blast
      with s1 Request False show ?thesis by auto
    qed
  qed
qed

section \<open>Properties\<close>

definition two_clients :: server where
  "two_clients = \<lparr> s_heap = \<lparr> cells = [0 \<mapsto> \<lparr> item = client_at 1, next_cl = Some 1, previous = None \<rparr>,
                                       1 \<mapsto> \<lparr> item = client_at 2, next_cl = None, previous = Some 0 \<rparr>], brk = 2 \<rparr>,
                   c_list = Some 0, clients_logged_on = 2, term_flag = False \<rparr>"

lemma two_clients_ok: "server_ok two_clients [client_at 1, client_at 2]"
  unfolding server_ok_def represents_def two_clients_def
  by (auto simp: client_at_def intro!: exI [of _ "[0, 1]"])

definition fine :: surroundings where
  "fine = \<lparr> peers = \<lambda>t. Completed, writes = \<lambda>k. True, signalled = False \<rparr>"



text \<open>
  The answer to GET_CLIENTS announces as many clients as tuples follow: to a logged-on client
  whose socket takes all writes the server sends the code, the number of clients and then exactly
  the listed tuples in order; to any other it sends the code IP_PORT_NOT_FOUND only.
\<close>

theorem client_list_answer:
  assumes "server_ok s ts" "\<forall>k. writes env k"
  shows "handle_request server_tuple env GET_CLIENTS ct s = Some (ok (s,
    if ct \<in> set ts
    then (Requester, Msg CLIENT_LIST) # (Requester, Count (int (length ts))) # map (\<lambda>t. (Requester, Tuple t)) ts
    else [(Requester, Msg IP_PORT_NOT_FOUND)]))"
proof -
  have rep: "represents (s_heap s) (c_list s) ts" and cnt: "clients_logged_on s = int (length ts)"
    using assms(1) by (simp_all add: server_ok_def)
  note known = clients.member_law [OF rep, of ct]
  show ?thesis
  proof (cases "ct \<in> set ts")
    case True
    then obtain a where a: "c_list s = Some a" using rep represents_head by (cases "c_list s") fastforce+
    obtain as where "dseg (cells (s_heap s)) None (Some a) as ts None" using rep a by (auto simp: represents_def)
    moreover have "writes env = (\<lambda>k. True)" using assms(2) by auto
    ultimately show ?thesis using send_clients_all [of "cells (s_heap s)" None a as ts 2] True a known cnt
      by (simp add: handle_request_def message_codes Let_def)
  next
    case False
    with known assms(2) show ?thesis by (simp add: handle_request_def message_codes Let_def)
  qed
qed

theorem client_list_answer_witness:
  "handle_request (client_at 0) fine GET_CLIENTS (client_at 2) two_clients = Some (ok (two_clients,
    [(Requester, Msg CLIENT_LIST), (Requester, Count 2), (Requester, Tuple (client_at 1)), (Requester, Tuple (client_at 2))]))"
  using client_list_answer [OF two_clients_ok, of fine "client_at 0" "client_at 2"] by (simp add: fine_def)

text \<open>
  When a new client logs on and no exchange fails, every client that was listed before gets the
  code USER_ON, the server's tuple and the new client's tuple, in the order of the list, the new
  client is not notified of itself, and then it gets the server's tuple.
\<close>

theorem log_on_notifies_all:
  assumes "server_ok s ts" "ct \<notin> set ts" "\<forall>t. peers env t = Completed" "writes env 0" "\<not> term_flag s" "\<not> signalled env"
  shows "\<exists>s'. handle_request server_tuple env LOG_ON ct s = Some (ok (s',
    concat (map (\<lambda>t. [(Client t, Msg USER_ON), (Client t, Tuple server_tuple), (Client t, Tuple ct)]) ts)
      @ [(Requester, Tuple server_tuple)]))"
proof -
  have rep: "represents (s_heap s) (c_list s) ts" using assms(1) by (simp add: server_ok_def)
  obtain h l where add: "client_list_add (s_heap s) (c_list s) ct = Some (ok (h, l))" "represents h l (ts @ [ct])"
    using clients.add_law [OF rep] by blast
  have all: "told (peers env) USER_ON server_tuple ct us
      = (concat (map (\<lambda>t. [(Client t, Msg USER_ON), (Client t, Tuple server_tuple), (Client t, Tuple ct)]) us), False, True)" for us
    using assms(3) by (induction us) (simp_all add: goes_on_def visit_def exchange_sends_def)
  have "notify_clients_USER_ON (peers env) server_tuple ct h l = Some (ok (concat (map (\<lambda>t.
      [(Client t, Msg USER_ON), (Client t, Tuple server_tuple), (Client t, Tuple ct)]) ts), False))"
    by (rule notify_USER_ON_told [OF add(2)]) (intro exI [of _ True], simp add: all)
  then show ?thesis
    using add(1) clients.member_law [OF rep, of ct] assms(2,4-6) by (simp add: handle_request_def Let_def)
qed

theorem log_on_notifies_all_witness:
  "\<exists>s'. handle_request (client_at 0) fine LOG_ON (client_at 3) two_clients = Some (ok (s',
    [(Client (client_at 1), Msg USER_ON), (Client (client_at 1), Tuple (client_at 0)), (Client (client_at 1), Tuple (client_at 3)),
     (Client (client_at 2), Msg USER_ON), (Client (client_at 2), Tuple (client_at 0)), (Client (client_at 2), Tuple (client_at 3)),
     (Requester, Tuple (client_at 0))]))"
  using log_on_notifies_all [OF two_clients_ok, of "client_at 3" fine "client_at 0"]
  by (simp add: fine_def two_clients_def client_at_def)

lemma told_completed:
  assumes "\<forall>t. peer t = Completed"
  shows "told peer msg server_tuple ct us = (concat (map (visit Completed msg server_tuple ct) us), False, True)"
  using assms by (induction us) (simp_all add: goes_on_def)

text \<open>When a client logs off and no exchange fails, all that stay are told, after it has got its answer.\<close>

lemma log_off_notifies_all:
  assumes "server_ok s ts" "ct \<in> set ts" "\<forall>t. peers env t = Completed" "writes env 0"
  shows "\<exists>s'. handle_request server_tuple env LOG_OFF ct s = Some (ok (s',
    (Requester, Msg SUCC_LOG_OFF) # concat (map (visit Completed USER_OFF server_tuple ct) (remove1 ct ts))))"
proof -
  have rep: "represents (s_heap s) (c_list s) ts" using assms(1) by (simp add: server_ok_def)
  obtain h l where del: "delete_from_client_list (s_heap s) (c_list s) ct = Some (ok (h, l))" "represents h l (remove1 ct ts)"
    using clients.remove_law [OF rep] by blast
  have "notify_clients_USER_OFF (peers env) server_tuple ct h l
      = Some (ok (concat (map (visit Completed USER_OFF server_tuple ct) (remove1 ct ts)), False))"
    by (rule notify_USER_OFF_told [OF del(2) told_completed [OF assms(3)]])
  then show ?thesis
    using del(1) clients.member_law [OF rep, of ct] assms(2,4) by (simp add: handle_request_def Let_def message_codes)
qed

text \<open>
  The server as a whole never faults, for any sequence of connections, and when its loop ends
  it has freed every node of its client list.
\<close>

theorem server_frees_all:
  "\<exists>h out. server_main server_tuple cs = Some (ok (h, out)) \<and> cells h = Map.empty"
proof -
  let ?s = "\<lparr> s_heap = no_clients, c_list = None, clients_logged_on = 0, term_flag = False \<rparr>"
  have "server_ok ?s []" by (simp add: server_ok_def no_clients_ok)
  then obtain s' ts' out where s': "main_loop server_tuple cs ?s = Some (ok (s', out))" "server_ok s' ts'"
    using main_loop_ok by blast
  then obtain h where "free_list (s_heap s') (c_list s') = Some (ok h)" "cells h = Map.empty"
    using free_list_correct unfolding server_ok_def by blast
  with s'(1) show ?thesis by (simp add: server_main_def)
qed

text \<open>
  A connection that sends a message without a tuple ends the server: nothing that arrives later
  is answered.
\<close>

theorem short_message_stops_server:
  "server_main server_tuple (NoTuple msg # cs) = Some (ok (no_clients, []))"
  by (simp add: server_main_def free_list_def)

end
