(* ===== verification/CircBuffer.thy ===== *)
theory CircBuffer
  imports Interfaces
begin

text \<open>
  The circular buffer of the dropbox client (SysPro_Project3/src/buffer.c): a ring of size slots,
  one of which always stays free so that equal indices mean empty.  A slot that was never written
  holds None; the programs push only below the size (write < size is part of the invariant).  Popping hands out the address of the slot, not a copy of the element.
\<close>

section \<open>State and operations\<close>

record 'e buffer_t =
  circ_buffer :: "'e option list"
  bsize :: nat
  bread :: nat
  bwrite :: nat

definition buffer_init :: "nat \<Rightarrow> 'e buffer_t" where
  "buffer_init n = \<lparr> circ_buffer = replicate n None, bsize = n, bread = 0, bwrite = 0 \<rparr>"

definition buffer_is_empty :: "'e buffer_t \<Rightarrow> bool" where
  "buffer_is_empty b \<longleftrightarrow> bread b = bwrite b"

definition buffer_is_full :: "'e buffer_t \<Rightarrow> bool" where
  "buffer_is_full b =
     (let next_write = bwrite b + 1;
          next_write = (if next_write \<ge> bsize b then 0 else next_write)
      in bread b = next_write)"

definition buffer_push :: "'e buffer_t \<Rightarrow> 'e \<Rightarrow> 'e buffer_t" where
  "buffer_push b e =
     (let b = b\<lparr>circ_buffer := (circ_buffer b)[bwrite b := Some e]\<rparr>;
          b = b\<lparr>bwrite := bwrite b + 1\<rparr>
      in if bwrite b \<ge> bsize b then b\<lparr>bwrite := 0\<rparr> else b)"

text \<open>The first component is the index of the slot whose address the function returns.\<close>

definition buffer_pop :: "'e buffer_t \<Rightarrow> nat \<times> 'e buffer_t" where
  "buffer_pop b =
     (let ret = bread b;
          b = b\<lparr>bread := bread b + 1\<rparr>
      in (ret, if bread b \<ge> bsize b then b\<lparr>bread := 0\<rparr> else b))"

text \<open>Reading an element through such an address.\<close>

definition slot_read :: "'e buffer_t \<Rightarrow> nat \<Rightarrow> fault + 'e" where
  "slot_read b i =
     (if i < length (circ_buffer b)
      then (case circ_buffer b ! i of None \<Rightarrow> crash Uninitialised | Some e \<Rightarrow> ok e)
      else crash BadIndex)"

section \<open>Invariant and contents\<close>

definition buffer_count :: "'e buffer_t \<Rightarrow> nat" where
  "buffer_count b = (if bread b \<le> bwrite b then bwrite b - bread b else bwrite b + bsize b - bread b)"

definition slot_of :: "'e buffer_t \<Rightarrow> nat \<Rightarrow> nat" where
  "slot_of b i = (if bread b + i < bsize b then bread b + i else bread b + i - bsize b)"

definition buffer_contents :: "'e buffer_t \<Rightarrow> 'e list" where
  "buffer_contents b = map (\<lambda>i. the (circ_buffer b ! slot_of b i)) [0..<buffer_count b]"

definition buffer_ok :: "'e buffer_t \<Rightarrow> bool" where
  "buffer_ok b \<longleftrightarrow> 0 < bsize b \<and> length (circ_buffer b) = bsize b \<and> bread b < bsize b \<and> bwrite b < bsize b
     \<and> (\<forall>i < buffer_count b. circ_buffer b ! slot_of b i \<noteq> None)"

lemma buffer_init_ok: "0 < n \<Longrightarrow> buffer_ok (buffer_init n) \<and> buffer_contents (buffer_init n) = []"
  by (simp add: buffer_init_def buffer_ok_def buffer_contents_def buffer_count_def)

lemma length_buffer_contents [simp]: "length (buffer_contents b) = buffer_count b"
  by (simp add: buffer_contents_def)

lemma buffer_count_bound: "buffer_ok b \<Longrightarrow> buffer_count b \<le> bsize b - Suc 0"
  by (auto simp: buffer_ok_def buffer_count_def)

lemma buffer_full_iff: "buffer_ok b \<Longrightarrow> buffer_is_full b \<longleftrightarrow> buffer_count b = bsize b - 1"
  by (auto simp: buffer_ok_def buffer_count_def buffer_is_full_def Let_def)

lemma buffer_empty_iff: "buffer_ok b \<Longrightarrow> buffer_is_empty b \<longleftrightarrow> buffer_count b = 0"
  by (auto simp: buffer_ok_def buffer_count_def buffer_is_empty_def)

lemma slot_of_count: "buffer_ok b \<Longrightarrow> slot_of b (buffer_count b) = bwrite b"
  by (auto simp: buffer_ok_def buffer_count_def slot_of_def)

lemma slot_of_other: "buffer_ok b \<Longrightarrow> i < buffer_count b \<Longrightarrow> slot_of b i \<noteq> bwrite b"
  by (auto simp: buffer_ok_def buffer_count_def slot_of_def split: if_splits)

lemma push_fields [simp]:
  "circ_buffer (buffer_push b e) = (circ_buffer b)[bwrite b := Some e]"
  "bsize (buffer_push b e) = bsize b"
  "bread (buffer_push b e) = bread b"
  "bwrite (buffer_push b e) = (if bwrite b + 1 \<ge> bsize b then 0 else bwrite b + 1)"
  by (simp_all add: buffer_push_def Let_def)

lemma slot_of_push [simp]: "slot_of (buffer_push b e) = slot_of b"
  by (simp add: slot_of_def fun_eq_iff)

lemma buffer_count_push:
  "buffer_ok b \<Longrightarrow> \<not> buffer_is_full b \<Longrightarrow> buffer_count (buffer_push b e) = Suc (buffer_count b)"
  by (auto simp: buffer_ok_def buffer_count_def buffer_is_full_def Let_def split: if_splits)

lemma buffer_push_contents:
  assumes "buffer_ok b" "\<not> buffer_is_full b"
  shows "buffer_contents (buffer_push b e) = buffer_contents b @ [e]"
proof -
  have len: "bwrite b < length (circ_buffer b)" using assms(1) by (simp add: buffer_ok_def)
  have old: "(circ_buffer b)[bwrite b := Some e] ! slot_of b i = circ_buffer b ! slot_of b i"
    if "i < buffer_count b" for i
    using slot_of_other [OF assms(1) that] by simp
  show ?thesis
    using len old by (simp add: buffer_contents_def buffer_count_push [OF assms] slot_of_count [OF assms(1)])
qed

lemma buffer_push_ok:
  assumes "buffer_ok b" "\<not> buffer_is_full b"
  shows "buffer_ok (buffer_push b e)"
proof -
  have "circ_buffer (buffer_push b e) ! slot_of (buffer_push b e) i \<noteq> None"
    if "i < buffer_count (buffer_push b e)" for i
    using that assms slot_of_count [OF assms(1)] slot_of_other [OF assms(1)]
    by (cases "i = buffer_count b")
      (auto simp: buffer_count_push nth_list_update buffer_ok_def)
  then show ?thesis using assms(1) by (auto simp: buffer_ok_def)
qed

lemma pop_fields [simp]:
  "circ_buffer (snd (buffer_pop b)) = circ_buffer b"
  "bsize (snd (buffer_pop b)) = bsize b"
  "bwrite (snd (buffer_pop b)) = bwrite b"
  "bread (snd (buffer_pop b)) = (if bread b + 1 \<ge> bsize b then 0 else bread b + 1)"
  "fst (buffer_pop b) = bread b"
  by (simp_all add: buffer_pop_def Let_def)

lemma buffer_count_pop:
  "buffer_ok b \<Longrightarrow> \<not> buffer_is_empty b \<Longrightarrow> buffer_count b = Suc (buffer_count (snd (buffer_pop b)))"
  by (auto simp: buffer_ok_def buffer_count_def buffer_is_empty_def)

lemma slot_of_pop:
  "buffer_ok b \<Longrightarrow> \<not> buffer_is_empty b \<Longrightarrow> i < buffer_count (snd (buffer_pop b)) \<Longrightarrow>
   slot_of (snd (buffer_pop b)) i = slot_of b (Suc i)"
  by (auto simp: buffer_ok_def buffer_count_def buffer_is_empty_def slot_of_def split: if_splits)

lemma buffer_contents_unfold:
  assumes "buffer_ok b" "\<not> buffer_is_empty b"
  shows "buffer_contents b = the (circ_buffer b ! bread b) # buffer_contents (snd (buffer_pop b))"
proof -
  have "slot_of b 0 = bread b" using assms(1) by (simp add: slot_of_def buffer_ok_def)
  then show ?thesis
    using assms by (auto simp: buffer_contents_def buffer_count_pop slot_of_pop map_upt_Suc simp del: upt_Suc)
qed

lemma buffer_pop_ok:
  assumes "buffer_ok b" "\<not> buffer_is_empty b"
  shows "buffer_ok (snd (buffer_pop b))"
proof -
  have "circ_buffer b ! slot_of (snd (buffer_pop b)) i \<noteq> None"
    if "i < buffer_count (snd (buffer_pop b))" for i
    using that assms buffer_count_pop [OF assms] by (simp add: slot_of_pop buffer_ok_def)
  then show ?thesis using assms(1) by (auto simp: buffer_ok_def)
qed

section \<open>The buffer is a bounded FIFO\<close>

text \<open>The element a pop delivers, and the buffer it leaves.\<close>

definition front_elem :: "'e buffer_t \<Rightarrow> 'e" where
  "front_elem b = the (circ_buffer b ! fst (buffer_pop b))"

definition popped :: "'e buffer_t \<Rightarrow> 'e buffer_t" where
  "popped b = snd (buffer_pop b)"

interpretation ring: bounded_fifo buffer_ok buffer_contents "\<lambda>b. bsize b - 1" buffer_is_empty
  buffer_is_full buffer_push front_elem popped
  by unfold_locales
    (simp_all add: buffer_empty_iff buffer_full_iff buffer_count_bound buffer_push_contents
      buffer_push_ok buffer_pop_ok buffer_contents_unfold front_elem_def popped_def flip: length_0_conv)

section \<open>The address a pop hands out\<close>

text \<open>A push never writes the slot before the read index, so a popped slot survives pushes.\<close>

fun push_all :: "'e buffer_t \<Rightarrow> 'e list \<Rightarrow> 'e buffer_t" where
  "push_all b [] = b"
| "push_all b (e # es) = (if buffer_is_full b then push_all b es else push_all (buffer_push b e) es)"

definition before :: "'e buffer_t \<Rightarrow> nat" where
  "before b = (if bread b = 0 then bsize b - 1 else bread b - 1)"

lemma push_keeps_before:
  assumes "buffer_ok b" "\<not> buffer_is_full b"
  shows "before (buffer_push b e) = before b" "circ_buffer (buffer_push b e) ! before b = circ_buffer b ! before b"
proof -
  show "before (buffer_push b e) = before b" by (simp add: before_def)
  have "bwrite b \<noteq> before b"
    using assms by (auto simp: buffer_ok_def buffer_is_full_def before_def Let_def split: if_splits)
  then show "circ_buffer (buffer_push b e) ! before b = circ_buffer b ! before b" by simp
qed

lemma push_all_keeps_before:
  "buffer_ok b \<Longrightarrow> buffer_ok (push_all b es) \<and> before (push_all b es) = before b
     \<and> length (circ_buffer (push_all b es)) = length (circ_buffer b)
     \<and> circ_buffer (push_all b es) ! before b = circ_buffer b ! before b"
proof (induction b es rule: push_all.induct)
  case (2 b e es)
  then show ?case using push_keeps_before [of b e] buffer_push_ok [of b e] by auto
qed simp

lemma before_pop: "buffer_ok b \<Longrightarrow> before (snd (buffer_pop b)) = fst (buffer_pop b)"
  by (auto simp: before_def buffer_ok_def)

lemma buffer_ok_read: "buffer_ok b \<Longrightarrow> \<not> buffer_is_empty b \<Longrightarrow>
    bread b < length (circ_buffer b) \<and> circ_buffer b ! bread b = Some (hd (buffer_contents b))"
proof -
  assume b: "buffer_ok b" "\<not> buffer_is_empty b"
  then have "0 < buffer_count b" "slot_of b 0 = bread b" by (auto simp: buffer_empty_iff slot_of_def buffer_ok_def)
  with b have "circ_buffer b ! bread b \<noteq> None" by (metis buffer_ok_def)
  with b show ?thesis by (auto simp: buffer_contents_unfold buffer_ok_def)
qed

section \<open>Properties\<close>

text \<open>
  Under any schedule of requests to push and to pop, each carried out only when its guard holds,
  a buffer of n slots delivers the elements in the order they were accepted, loses and invents none,
  and never holds more than n - 1 of them.
\<close>

theorem buffer_is_fifo:
  assumes "0 < n" "ring.sched (buffer_init n) rs = (ins, outs, b)"
  shows "ins = outs @ buffer_contents b \<and> length (buffer_contents b) \<le> n - 1"
proof -
  have "buffer_ok (buffer_init n :: 'a buffer_t)" "buffer_contents (buffer_init n :: 'a buffer_t) = []"
    using buffer_init_ok [OF assms(1)] by blast+
  moreover have "bsize (buffer_init n :: 'a buffer_t) = n" by (simp add: buffer_init_def)
  ultimately show ?thesis
    using ring.sched_fifo [OF _ assms(2)] ring.sched_bounded [OF _ assms(2)] by fastforce
qed

theorem buffer_is_fifo_witness:
  "\<exists>ins outs b. ring.sched (buffer_init 3) [Some 1, Some 2, Some 3, None, Some (4 :: nat), None] = (ins, outs, b)
    \<and> ins = outs @ buffer_contents b \<and> length (buffer_contents b) \<le> 3 - 1"
proof -
  obtain ins outs b where r: "ring.sched (buffer_init 3) [Some 1, Some 2, Some 3, None, Some (4 :: nat), None] = (ins, outs, b)"
    by (rule prod_cases3)
  with buffer_is_fifo [OF _ r] show ?thesis by simp
qed

text \<open>
  A buffer of one slot is empty and full at once, so no schedule ever moves an element through
  it: every push and every pop waits for ever.
\<close>

theorem buffer_of_one_slot_is_stuck:
  "buffer_is_empty (buffer_init 1 :: 'e buffer_t) \<and> buffer_is_full (buffer_init 1 :: 'e buffer_t)
    \<and> ring.sched (buffer_init 1 :: 'e buffer_t) rs = ([], [], buffer_init 1)"
proof -
  have e: "buffer_is_empty (buffer_init 1 :: 'e buffer_t)" "buffer_is_full (buffer_init 1 :: 'e buffer_t)"
    by (simp_all add: buffer_init_def buffer_is_empty_def buffer_is_full_def)
  moreover have "ring.sched (buffer_init 1 :: 'e buffer_t) rs = ([], [], buffer_init 1)"
  proof (induction rs)
    case (Cons r rs)
    then show ?case using e by (cases r) simp_all
  qed simp
  ultimately show ?thesis by blast
qed

text \<open>
  The address buffer_pop returns can be read after the mutex is released as long as nobody pops
  again: no number of pushes overwrites the slot.
\<close>

theorem popped_slot_survives_pushes:
  assumes "buffer_ok b" "\<not> buffer_is_empty b" "buffer_pop b = (i, b')"
  shows "slot_read (push_all b' es) i = ok (hd (buffer_contents b))"
proof -
  have i: "i = bread b" and b': "b' = snd (buffer_pop b)" using assms(3) pop_fields(5) [of b] by auto
  have "buffer_ok b'" using buffer_pop_ok [OF assms(1,2)] b' by simp
  moreover have "before b' = i" using before_pop [OF assms(1)] b' i by simp
  ultimately show ?thesis
    using push_all_keeps_before [of b' es] buffer_ok_read [OF assms(1,2)] i b' by (simp add: slot_read_def)
qed

definition two_slots :: "nat buffer_t" where
  "two_slots = \<lparr> circ_buffer = [Some 5, None], bsize = 2, bread = 0, bwrite = 1 \<rparr>"

theorem popped_slot_survives_pushes_witness:
  "slot_read (push_all (snd (buffer_pop two_slots)) [6, 7, 8]) (fst (buffer_pop two_slots)) = ok 5"
proof -
  have "buffer_ok two_slots" "\<not> buffer_is_empty two_slots" "buffer_contents two_slots = [5]"
    by (simp_all add: two_slots_def buffer_ok_def buffer_count_def slot_of_def buffer_is_empty_def buffer_contents_def)
  with popped_slot_survives_pushes [of two_slots "fst (buffer_pop two_slots)" "snd (buffer_pop two_slots)" "[6, 7, 8]"]
  show ?thesis by (simp only: prod.collapse list.sel simp_thms)
qed

text \<open>
  A second pop is enough to lose the element: in every non-empty buffer the slot can be
  overwritten by the next pushes, and the first reader then sees another element.
\<close>

theorem second_pop_endangers_slot:
  "\<exists>b :: nat buffer_t. buffer_ok b \<and> buffer_contents b = [1, 2] \<and> fst (buffer_pop b) = 0 \<and>
     slot_read (push_all (snd (buffer_pop (snd (buffer_pop b)))) [3, 4]) 0 = ok 4"
proof -
  let ?b = "\<lparr> circ_buffer = [Some 1, Some 2, None], bsize = 3, bread = 0, bwrite = 2 \<rparr> :: nat buffer_t"
  have "buffer_ok ?b"
    by (simp add: buffer_ok_def buffer_count_def slot_of_def All_less_Suc numeral_2_eq_2)
  moreover have "buffer_contents ?b = [1, 2]"
    by (simp add: buffer_count_def slot_of_def buffer_contents_def upt_rec)
  moreover have "fst (buffer_pop ?b) = 0" by simp
  moreover have "slot_read (push_all (snd (buffer_pop (snd (buffer_pop ?b)))) [3, 4]) 0 = ok 4"
    by (simp add: buffer_push_def buffer_pop_def buffer_is_full_def slot_read_def)
  ultimately show ?thesis by (intro exI [of _ ?b]) simp
qed

end
