(* ===== verification/Threads.thy ===== *)
theory Threads
  imports CircBuffer ClientList
begin

text \<open>
  The main thread and the worker threads of the dropbox client (SysPro_Project3/src/dropbox\_client.c)
  as they share the circular buffer and the client list: a transition system whose steps are the
  stretches of code between a lock and the next unlock or wait.  A step of one thread may come
  between any two steps of another.  What other clients answer is arbitrary; SIGINT, which wakes
  every thread and ends it, is in Shutdown.
\<close>

section \<open>State\<close>

record file_tuple =
  pathname :: string
  version :: string

record element_t =
  f_tuple :: file_tuple
  c_tuple :: client_tuple

datatype worker =
    Taking                         \<comment> \<open>before the lock at the top of the loop\<close>
  | TakeWaits                      \<comment> \<open>in cond_wait on buffer_nonempty, the buffer being empty\<close>
  | Holding nat                    \<comment> \<open>has popped a slot and released the mutex\<close>
  | Fetching nat "element_t list"  \<comment> \<open>receives a file list, still using the slot\<close>
  | Pushing "element_t list"       \<comment> \<open>about to push the received tuples\<close>
  | PushWaits "element_t list"     \<comment> \<open>in cond_wait on buffer_nonempty, the buffer being full\<close>

datatype main_thread =
    Serving                        \<comment> \<open>waits for connections\<close>
  | MainPushes element_t
  | MainWaits element_t            \<comment> \<open>in cond_wait on buffer_nonfull\<close>

record threads =
  ring_buffer :: "element_t buffer_t"
  workers :: "worker list"
  main_thread :: main_thread
  known :: "client_tuple list"

definition no_file :: file_tuple where "no_file = \<lparr> pathname = [], version = [] \<rparr>"

definition client_element :: "client_tuple \<Rightarrow> element_t" where
  "client_element c = \<lparr> f_tuple = no_file, c_tuple = c \<rparr>"

section \<open>Condition variables\<close>

definition broadcast_nonempty :: "worker list \<Rightarrow> worker list" where
  "broadcast_nonempty = map (\<lambda>w. case w of TakeWaits \<Rightarrow> Taking | PushWaits es \<Rightarrow> Pushing es | _ \<Rightarrow> w)"

definition broadcast_nonfull :: "main_thread \<Rightarrow> main_thread" where
  "broadcast_nonfull m = (case m of MainWaits e \<Rightarrow> MainPushes e | _ \<Rightarrow> m)"

section \<open>Steps\<close>

definition is_at :: "threads \<Rightarrow> nat \<Rightarrow> worker \<Rightarrow> bool" where
  "is_at s i w \<longleftrightarrow> i < length (workers s) \<and> workers s ! i = w"

definition goes_to :: "threads \<Rightarrow> nat \<Rightarrow> worker \<Rightarrow> threads" where
  "goes_to s i w = s\<lparr>workers := (workers s)[i := w]\<rparr>"

definition take_elem :: "threads \<Rightarrow> nat \<Rightarrow> threads" where
  "take_elem s i =
     (let (slot, b) = buffer_pop (ring_buffer s)
      in (goes_to s i (Holding slot))\<lparr>ring_buffer := b, main_thread := broadcast_nonfull (main_thread s)\<rparr>)"

definition push_elem :: "threads \<Rightarrow> nat \<Rightarrow> element_t \<Rightarrow> element_t list \<Rightarrow> threads" where
  "push_elem s i e es =
     s\<lparr>ring_buffer := buffer_push (ring_buffer s) e, workers := broadcast_nonempty ((workers s)[i := Pushing es])\<rparr>"

definition main_push :: "threads \<Rightarrow> element_t \<Rightarrow> threads" where
  "main_push s e =
     s\<lparr>ring_buffer := buffer_push (ring_buffer s) e, main_thread := Serving, workers := broadcast_nonempty (workers s)\<rparr>"

inductive step :: "threads \<Rightarrow> threads \<Rightarrow> bool" where
  take: "is_at s i Taking \<Longrightarrow> \<not> buffer_is_empty (ring_buffer s) \<Longrightarrow> step s (take_elem s i)"
| take_wait: "is_at s i Taking \<Longrightarrow> buffer_is_empty (ring_buffer s) \<Longrightarrow> step s (goes_to s i TakeWaits)"
| unknown_client: "is_at s i (Holding j) \<Longrightarrow> slot_read (ring_buffer s) j = ok e \<Longrightarrow> c_tuple e \<notin> set (known s) \<Longrightarrow>
    step s (goes_to s i Taking)"
| ask_list: "is_at s i (Holding j) \<Longrightarrow> slot_read (ring_buffer s) j = ok e \<Longrightarrow> c_tuple e \<in> set (known s) \<Longrightarrow>
    pathname (f_tuple e) = [] \<Longrightarrow> step s (goes_to s i (Fetching j []))"
| fetch_file: "is_at s i (Holding j) \<Longrightarrow> slot_read (ring_buffer s) j = ok e \<Longrightarrow> c_tuple e \<in> set (known s) \<Longrightarrow>
    pathname (f_tuple e) \<noteq> [] \<Longrightarrow> step s (goes_to s i Taking)"
| list_entry: "is_at s i (Fetching j es) \<Longrightarrow> slot_read (ring_buffer s) j = ok e \<Longrightarrow>
    step s (goes_to s i (Fetching j (es @ [\<lparr> f_tuple = ft, c_tuple = c_tuple e \<rparr>])))"
| list_done: "is_at s i (Fetching j es) \<Longrightarrow> step s (goes_to s i (Pushing es))"
| comm_error: "is_at s i (Fetching j []) \<Longrightarrow> step s (goes_to s i Taking)"
| push: "is_at s i (Pushing (e # es)) \<Longrightarrow> \<not> buffer_is_full (ring_buffer s) \<Longrightarrow> step s (push_elem s i e es)"
| push_wait: "is_at s i (Pushing (e # es)) \<Longrightarrow> buffer_is_full (ring_buffer s) \<Longrightarrow>
    step s (goes_to s i (PushWaits (e # es)))"
| pushed: "is_at s i (Pushing []) \<Longrightarrow> step s (goes_to s i Taking)"
| user_on: "main_thread s = Serving \<Longrightarrow> step s (s\<lparr>known := known s @ [c], main_thread := MainPushes (client_element c)\<rparr>)"
| user_off: "main_thread s = Serving \<Longrightarrow> step s (s\<lparr>known := remove1 c (known s)\<rparr>)"
| main_push: "main_thread s = MainPushes e \<Longrightarrow> \<not> buffer_is_full (ring_buffer s) \<Longrightarrow> step s (main_push s e)"
| main_wait: "main_thread s = MainPushes e \<Longrightarrow> buffer_is_full (ring_buffer s) \<Longrightarrow>
    step s (s\<lparr>main_thread := MainWaits e\<rparr>)"

inductive_cases stepE: "step s s'"

definition started :: "nat \<Rightarrow> nat \<Rightarrow> threads" where
  "started n w = \<lparr> ring_buffer = buffer_init n, workers = replicate w Taking, main_thread = Serving, known = [] \<rparr>"

abbreviation steps :: "threads \<Rightarrow> threads \<Rightarrow> bool" where "steps \<equiv> step\<^sup>*\<^sup>*"

section \<open>Every reachable state is sound\<close>

text \<open>A slot some worker uses was written and lies in the buffer.\<close>

fun slots_used :: "worker \<Rightarrow> nat list" where
  "slots_used (Holding j) = [j]"
| "slots_used (Fetching j es) = [j]"
| "slots_used w = []"

definition sound :: "nat \<Rightarrow> threads \<Rightarrow> bool" where
  "sound n s \<longleftrightarrow> buffer_ok (ring_buffer s) \<and> bsize (ring_buffer s) = n
     \<and> (\<forall>w \<in> set (workers s). \<forall>j \<in> set (slots_used w). j < n \<and> circ_buffer (ring_buffer s) ! j \<noteq> None)"

lemma sound_started: "0 < n \<Longrightarrow> sound n (started n w)"
  using buffer_init_ok [of n] by (auto simp: sound_def started_def buffer_init_def)

lemma set_goes_to: "w' \<in> set (workers (goes_to s i w)) \<Longrightarrow> w' = w \<or> w' \<in> set (workers s)"
  using set_update_subset_insert [of "workers s" i w] by (auto simp: goes_to_def)

lemma goes_to_fields [simp]: "ring_buffer (goes_to s i w) = ring_buffer s" "main_thread (goes_to s i w) = main_thread s"
  "known (goes_to s i w) = known s" "length (workers (goes_to s i w)) = length (workers s)"
  by (simp_all add: goes_to_def)

lemma sound_goes_to:
  assumes "sound n s" "\<forall>j \<in> set (slots_used w). j < n \<and> circ_buffer (ring_buffer s) ! j \<noteq> None"
  shows "sound n (goes_to s i w)"
  using assms by (auto simp: sound_def dest!: set_goes_to)

lemma slots_of_broadcast: "w \<in> set (broadcast_nonempty ws) \<Longrightarrow> j \<in> set (slots_used w) \<Longrightarrow>
    \<exists>w' \<in> set ws. j \<in> set (slots_used w')"
  by (force simp: broadcast_nonempty_def split: worker.splits)

lemma push_slots: "circ_buffer b ! j \<noteq> None \<Longrightarrow> circ_buffer (buffer_push b e) ! j \<noteq> None"
  by (cases "bwrite b < length (circ_buffer b)") (simp_all add: nth_list_update list_update_beyond)

lemma sound_step: "step s s' \<Longrightarrow> sound n s \<Longrightarrow> sound n s'"
proof (induction rule: step.induct)
  case (take s i)
  then have b: "buffer_ok (ring_buffer s)" "bsize (ring_buffer s) = n" by (simp_all add: sound_def)
  obtain slot b' where pop: "buffer_pop (ring_buffer s) = (slot, b')" by fastforce
  have slot: "slot = bread (ring_buffer s)" and b': "b' = snd (buffer_pop (ring_buffer s))"
    using pop_fields(5) [of "ring_buffer s"] pop by simp_all
  have "slot < n \<and> circ_buffer (ring_buffer s) ! slot \<noteq> None"
    using buffer_ok_read [OF b(1) take(2)] b slot by (simp add: buffer_ok_def)
  then have "sound n (goes_to s i (Holding slot))" using take(3) by (intro sound_goes_to) auto
  moreover have "buffer_ok b'" "circ_buffer b' = circ_buffer (ring_buffer s)" "bsize b' = n"
    using buffer_pop_ok [OF b(1) take(2)] b b' by simp_all
  ultimately show ?case using pop by (simp add: take_elem_def sound_def)
next
  case (push s i e es)
  then have "sound n (goes_to s i (Pushing es))" by (intro sound_goes_to) auto
  with push have s: "sound n (goes_to s i (Pushing es))" "buffer_ok (ring_buffer s)" "bsize (ring_buffer s) = n"
    by (simp_all add: sound_def)
  then show ?case using push(2) push_slots
    unfolding push_elem_def sound_def goes_to_def by (fastforce dest: slots_of_broadcast intro: buffer_push_ok)
next
  case (main_push s e)
  then show ?case using push_slots
    unfolding main_push_def sound_def by (fastforce dest: slots_of_broadcast intro: buffer_push_ok)
next
  case (ask_list s i j e)
  then have "\<forall>j \<in> set (slots_used (Holding j)). j < n \<and> circ_buffer (ring_buffer s) ! j \<noteq> None"
    unfolding sound_def is_at_def by (metis nth_mem)
  with ask_list show ?case by (intro sound_goes_to) auto
next
  case (list_entry s i j es e ft)
  then have "\<forall>j \<in> set (slots_used (Fetching j es)). j < n \<and> circ_buffer (ring_buffer s) ! j \<noteq> None"
    unfolding sound_def is_at_def by (metis nth_mem)
  with list_entry show ?case by (intro sound_goes_to) auto
qed (((rule sound_goes_to, assumption, simp) | simp add: sound_def)+)

lemma sound_steps: "steps s s' \<Longrightarrow> sound n s \<Longrightarrow> sound n s'"
  by (induction rule: rtranclp_induct) (auto intro: sound_step)

section \<open>Deadlock\<close>

definition waits :: "worker \<Rightarrow> bool" where
  "waits w \<longleftrightarrow> w = TakeWaits \<or> (\<exists>es. w = PushWaits es)"

definition deadlocked :: "threads \<Rightarrow> bool" where
  "deadlocked s \<longleftrightarrow> (\<forall>w \<in> set (workers s). waits w) \<and> (\<exists>e. main_thread s = MainWaits e)"

lemma deadlocked_at: "deadlocked s \<Longrightarrow> is_at s i w \<Longrightarrow> waits w"
  unfolding deadlocked_def is_at_def using nth_mem by blast

lemma deadlocked_main: "deadlocked s \<Longrightarrow> \<exists>e. main_thread s = MainWaits e"
  by (simp add: deadlocked_def)

lemma deadlocked_no_step: "deadlocked s \<Longrightarrow> \<not> step s s'"
proof
  assume d: "deadlocked s" and "step s s'"
  obtain e where m: "main_thread s = MainWaits e" using deadlocked_main [OF d] by blast
  have w: "\<And>i w. is_at s i w \<Longrightarrow> waits w" using deadlocked_at [OF d] .
  from \<open>step s s'\<close> show False by cases (auto simp: m waits_def dest: w)
qed

lemma worker_moves:
  assumes "sound n s" "is_at s i w" "\<not> waits w"
  shows "\<exists>s'. step s s'"
proof (cases w)
  case Taking
  with assms(2) show ?thesis using take [of s i] take_wait [of s i] by blast
next
  case TakeWaits
  with assms(3) show ?thesis by (simp add: waits_def)
next
  case (Holding j)
  have "\<forall>j \<in> set (slots_used w). j < n \<and> circ_buffer (ring_buffer s) ! j \<noteq> None"
    using assms(1,2) unfolding sound_def is_at_def by (metis nth_mem)
  then obtain e where "slot_read (ring_buffer s) j = ok e"
    using Holding assms(1) by (auto simp: slot_read_def sound_def buffer_ok_def)
  with assms(2) Holding show ?thesis
    using unknown_client [of s i j e] ask_list [of s i j e] fetch_file [of s i j e] by blast
next
  case (Fetching j es)
  with assms(2) show ?thesis using list_done [of s i j es] by blast
next
  case (Pushing es)
  with assms(2) show ?thesis using pushed [of s i] push [of s i] push_wait [of s i] by (cases es) blast+
next
  case (PushWaits es)
  with assms(3) show ?thesis by (simp add: waits_def)
qed

lemma main_moves: "\<forall>e. main_thread s \<noteq> MainWaits e \<Longrightarrow> \<exists>s'. step s s'"
  using user_off [of s] main_push [of s] main_wait [of s] by (cases "main_thread s") blast+

section \<open>Properties\<close>


text \<open>A run of one worker over a buffer of two slots: client 1 logs on, its list has two files.\<close>

definition file_element :: "string \<Rightarrow> element_t" where
  "file_element p = \<lparr> f_tuple = \<lparr> pathname = p, version = ''v'' \<rparr>, c_tuple = client_at 1 \<rparr>"

definition ring2 :: "element_t option list \<Rightarrow> nat \<Rightarrow> nat \<Rightarrow> element_t buffer_t" where
  "ring2 es r w = \<lparr> circ_buffer = es, bsize = 2, bread = r, bwrite = w \<rparr>"

definition at_state :: "element_t buffer_t \<Rightarrow> worker list \<Rightarrow> main_thread \<Rightarrow> client_tuple list \<Rightarrow> threads" where
  "at_state b ws m k = \<lparr> ring_buffer = b, workers = ws, main_thread = m, known = k \<rparr>"

lemmas run_simps = at_state_def ring2_def started_def buffer_init_def is_at_def goes_to_def take_elem_def
  push_elem_def Threads.main_push_def broadcast_nonempty_def broadcast_nonfull_def buffer_pop_def buffer_push_def
  buffer_is_empty_def buffer_is_full_def slot_read_def client_element_def no_file_def file_element_def client_at_def
  numeral_2_eq_2

abbreviation "el_c \<equiv> client_element (client_at 1)"
abbreviation "el_1 \<equiv> file_element ''a''"
abbreviation "el_2 \<equiv> file_element ''b''"

text \<open>Worker 0 pops the client's element and receives two tuples; the other workers have not moved.\<close>

lemma first_client:
  "steps (started 2 (Suc k))
     (at_state (ring2 [Some el_c, None] 1 1) (Pushing [el_1, el_2] # replicate k Taking) Serving [client_at 1])"
proof -
  let ?ws = "replicate k Taking" and ?k = "[client_at 1]"
  have [simp]: "broadcast_nonempty (replicate k Taking) = replicate k Taking" by (simp add: broadcast_nonempty_def)
  have 1: "step (started 2 (Suc k)) (at_state (ring2 [None, None] 0 0) (Taking # ?ws) (MainPushes el_c) ?k)"
    using user_on [of "started 2 (Suc k)" "client_at 1"] by (simp add: run_simps)
  have 2: "step (at_state (ring2 [None, None] 0 0) (Taking # ?ws) (MainPushes el_c) ?k)
      (at_state (ring2 [Some el_c, None] 0 1) (Taking # ?ws) Serving ?k)"
    using step.main_push [of "at_state (ring2 [None, None] 0 0) (Taking # ?ws) (MainPushes el_c) ?k" el_c]
    by (simp add: run_simps)
  have 3: "step (at_state (ring2 [Some el_c, None] 0 1) (Taking # ?ws) Serving ?k)
      (at_state (ring2 [Some el_c, None] 1 1) (Holding 0 # ?ws) Serving ?k)"
    using take [of "at_state (ring2 [Some el_c, None] 0 1) (Taking # ?ws) Serving ?k" 0] by (simp add: run_simps)
  have 4: "step (at_state (ring2 [Some el_c, None] 1 1) (Holding 0 # ?ws) Serving ?k)
      (at_state (ring2 [Some el_c, None] 1 1) (Fetching 0 [] # ?ws) Serving ?k)"
    using ask_list [of "at_state (ring2 [Some el_c, None] 1 1) (Holding 0 # ?ws) Serving ?k" 0 0 el_c]
    by (simp add: run_simps)
  have 5: "step (at_state (ring2 [Some el_c, None] 1 1) (Fetching 0 es # ?ws) Serving ?k)
      (at_state (ring2 [Some el_c, None] 1 1) (Fetching 0 (es @ [file_element p]) # ?ws) Serving ?k)" for es p
    using list_entry [of "at_state (ring2 [Some el_c, None] 1 1) (Fetching 0 es # ?ws) Serving ?k" 0 0 es el_c
        "\<lparr> pathname = p, version = ''v'' \<rparr>"]
    by (simp add: run_simps)
  have 6: "step (at_state (ring2 [Some el_c, None] 1 1) (Fetching 0 [el_1, el_2] # ?ws) Serving ?k)
      (at_state (ring2 [Some el_c, None] 1 1) (Pushing [el_1, el_2] # ?ws) Serving ?k)"
    using list_done [of "at_state (ring2 [Some el_c, None] 1 1) (Fetching 0 [el_1, el_2] # ?ws) Serving ?k" 0 0]
    by (simp add: run_simps)
  show ?thesis using 1 2 3 4 5 [of "[]" "''a''"] 5 [of "[el_1]" "''b''"] 6
    by (auto intro!: converse_rtranclp_into_rtranclp [of step])
qed


text \<open>The run of the single worker goes on: it fills the buffer and waits; so does the main thread.\<close>

lemma worker_blocks:
  "steps (started 2 (Suc k))
     (at_state (ring2 [Some el_c, Some el_1] 1 0) (PushWaits [el_2] # replicate k Taking) Serving [client_at 1])"
proof -
  let ?ws = "replicate k Taking" and ?k = "[client_at 1]"
  have [simp]: "broadcast_nonempty (replicate k Taking) = replicate k Taking" by (simp add: broadcast_nonempty_def)
  have "step (at_state (ring2 [Some el_c, None] 1 1) (Pushing [el_1, el_2] # ?ws) Serving ?k)
      (at_state (ring2 [Some el_c, Some el_1] 1 0) (Pushing [el_2] # ?ws) Serving ?k)"
    using push [of "at_state (ring2 [Some el_c, None] 1 1) (Pushing [el_1, el_2] # ?ws) Serving ?k" 0 el_1 "[el_2]"]
    by (simp add: run_simps)
  moreover have "step (at_state (ring2 [Some el_c, Some el_1] 1 0) (Pushing [el_2] # ?ws) Serving ?k)
      (at_state (ring2 [Some el_c, Some el_1] 1 0) (PushWaits [el_2] # ?ws) Serving ?k)"
    using push_wait [of "at_state (ring2 [Some el_c, Some el_1] 1 0) (Pushing [el_2] # ?ws) Serving ?k" 0 el_2 "[]"]
    by (simp add: run_simps)
  ultimately show ?thesis using first_client [of k] by (meson rtranclp.rtrancl_into_rtrancl)
qed

lemma single_worker_deadlock:
  "\<exists>s. steps (started 2 1) s \<and> workers s = [PushWaits [el_2]] \<and> (\<exists>e. main_thread s = MainWaits e)"
proof -
  let ?b = "ring2 [Some el_c, Some el_1] 1 0" and ?ws = "[PushWaits [el_2]]"
  let ?k = "[client_at 1, client_at 2]"
  have "step (at_state ?b ?ws Serving [client_at 1]) (at_state ?b ?ws (MainPushes (client_element (client_at 2))) ?k)"
    using user_on [of "at_state ?b ?ws Serving [client_at 1]" "client_at 2"] by (simp add: at_state_def)
  moreover have "step (at_state ?b ?ws (MainPushes (client_element (client_at 2))) ?k)
      (at_state ?b ?ws (MainWaits (client_element (client_at 2))) ?k)"
    using main_wait [of "at_state ?b ?ws (MainPushes (client_element (client_at 2))) ?k"] by (simp add: run_simps)
  ultimately have "steps (started 2 1) (at_state ?b ?ws (MainWaits (client_element (client_at 2))) ?k)"
    using worker_blocks [of 0] by simp
  then show ?thesis by (intro exI [of _ "at_state ?b ?ws (MainWaits (client_element (client_at 2))) ?k"]) (simp add: at_state_def)
qed



text \<open>
  A worker that finds the buffer full waits on the condition for a non-empty buffer, which pops
  do not signal: with two workers a state is reachable where the buffer is empty and yet both
  workers wait, one of them to push.  Nothing but a new client wakes them.
\<close>

theorem pusher_is_not_woken:
  "\<exists>s. steps (started 2 2) s \<and> buffer_is_empty (ring_buffer s) \<and> \<not> buffer_is_full (ring_buffer s)
     \<and> main_thread s = Serving \<and> workers s = [PushWaits [el_2], TakeWaits]"
proof -
  let ?k = "[client_at 1]"
  let ?s1 = "at_state (ring2 [Some el_c, Some el_1] 1 0) [PushWaits [el_2], Taking] Serving ?k"
  let ?s2 = "at_state (ring2 [Some el_c, Some el_1] 0 0) [PushWaits [el_2], Holding 1] Serving ?k"
  let ?s3 = "at_state (ring2 [Some el_c, Some el_1] 0 0) [PushWaits [el_2], Taking] Serving ?k"
  let ?s4 = "at_state (ring2 [Some el_c, Some el_1] 0 0) [PushWaits [el_2], TakeWaits] Serving ?k"
  have "steps (started 2 2) ?s1" using worker_blocks [of 1] by (simp add: numeral_2_eq_2)
  moreover have "step ?s1 ?s2" using take [of ?s1 1] by (simp add: run_simps)
  moreover have "step ?s2 ?s3" using fetch_file [of ?s2 1 1 el_1] by (simp add: run_simps)
  moreover have "step ?s3 ?s4" using take_wait [of ?s3 1] by (simp add: run_simps)
  ultimately have "steps (started 2 2) ?s4" by (meson rtranclp.rtrancl_into_rtrancl)
  then show ?thesis
    by (intro exI [of _ ?s4]) (simp add: at_state_def ring2_def buffer_is_empty_def buffer_is_full_def)
qed

end
