(* ===== verification/FileTransfer.thy ===== *)
theory FileTransfer
  imports Threads Server
begin

text \<open>
  How a file gets from one dropbox client to another: find\_version and get\_version
  (SysPro_Project3/src/dirControl.c), send\_file and the receiving half of the worker thread
  (SysPro_Project3/src/dropbox\_client.c).  The MD5 digest is a parameter (the library computes
  it), as are the results of the k-th write, of the k-th poll and the number of bytes the k-th read
  of the socket returns.
\<close>

section \<open>Versions\<close>

datatype fnode = Regular string | Directory

definition hex_digit :: "nat \<Rightarrow> char" where
  "hex_digit n = (if n < 10 then char_of (48 + n) else char_of (87 + n))"

definition hex2 :: "nat \<Rightarrow> string" where
  "hex2 n = [hex_digit (n div 16 mod 16), hex_digit (n mod 16)]"

definition MD5_DIGEST_LENGTH :: nat where "MD5_DIGEST_LENGTH = 16"

text \<open>
  The argument is what the descriptor reads from: None when open failed.  Reading a directory or an
  invalid descriptor returns -1, which the loop does not take for the end: it never returns.  Every
  two digits are printed from the first byte of the digest.
\<close>

definition find_version :: "(string \<Rightarrow> nat list) \<Rightarrow> fnode option \<Rightarrow> string option" where
  "find_version md5 fd =
     (case fd of
        Some (Regular content) \<Rightarrow>
          let c = md5 content; ret = hex2 (c ! 0)
          in Some (foldl (\<lambda>ret i. ret @ hex2 (c ! 0)) ret [1..<MD5_DIGEST_LENGTH])
      | _ \<Rightarrow> None)"

text \<open>get_version: None when it does not return, Some None for NULL.\<close>

definition get_version :: "(string \<Rightarrow> nat list) \<Rightarrow> fnode option \<Rightarrow> string option option" where
  "get_version md5 file =
     (case file of None \<Rightarrow> Some None | Some n \<Rightarrow> map_option Some (find_version md5 (Some n)))"

section \<open>Sending\<close>

datatype wire = WShort int | WLong nat | WVersion string | WData string

text \<open>
  The chunk loop.  rest is what the file descriptor has not delivered yet, buf the buffer; w and
  term give the outcome of the k-th write of a chunk and the flag after the k-th poll.
\<close>

definition read_into :: "nat \<Rightarrow> string \<Rightarrow> string \<Rightarrow> string" where
  "read_into n src buf = take n src @ drop (length (take n src)) buf"

function send_chunks :: "(nat \<Rightarrow> bool) \<Rightarrow> (nat \<Rightarrow> bool) \<Rightarrow> nat \<Rightarrow> string \<Rightarrow> string \<Rightarrow> nat \<Rightarrow> nat \<times> wire list" where
  "send_chunks w term k rest buf remaining =
     (let buf = read_into 128 rest buf in
      if remaining \<ge> 128 then
        if term k then (1, [])
        else if \<not> w k then (1, [])
        else (case send_chunks w term (k + 1) (drop 128 rest) buf (remaining - 128) of
                (ret, out) \<Rightarrow> (ret, WData (take 128 buf) # out))
      else if term k then (1, [])
      else if \<not> w k then (1, [])
      else (0, [WData (take remaining buf)]))"
  by pat_completeness auto
termination
  by (relation "measure (\<lambda>(w, term, k, rest, buf, remaining). remaining)") auto

declare send_chunks.simps [simp del]

text \<open>
  The request is what was read from the socket, None when the read failed.  The outcome of the
  writes before the chunks is given by wh, the flag after the first poll by term0.
\<close>

definition send_file ::
    "(string \<Rightarrow> nat list) \<Rightarrow> (string \<Rightarrow> fnode option) \<Rightarrow> (nat \<Rightarrow> bool) \<Rightarrow> (nat \<Rightarrow> bool) \<Rightarrow> bool \<Rightarrow> (nat \<Rightarrow> bool)
     \<Rightarrow> string \<Rightarrow> file_tuple option \<Rightarrow> (nat \<times> wire list) option" where
  "send_file md5 fs wh w term0 term junk request =
     (case request of
        None \<Rightarrow> Some (1, [])
      | Some ft \<Rightarrow>
          (case fs (pathname ft) of
             None \<Rightarrow> Some (if wh 0 then (0, [WShort FILE_NOT_FOUND]) else (1, []))
           | Some node \<Rightarrow>
               (case find_version md5 (Some node) of
                  None \<Rightarrow> None
                | Some v \<Rightarrow>
                    if strcmp v (version ft) = 0 then
                      Some (if wh 0 then (0, [WShort FILE_UP_TO_DATE]) else (1, []))
                    else
                      (case node of
                         Directory \<Rightarrow> None
                       | Regular content \<Rightarrow>
                           let file_size = length content in
                           if term0 then Some (1, [])
                           else if \<not> wh 0 then Some (1, [])
                           else if \<not> wh 1 then Some (1, [WShort FILE_SIZE])
                           else if \<not> wh 2 then Some (1, [WShort FILE_SIZE, WVersion v])
                           else if file_size = 0 then Some (0, [WShort FILE_SIZE, WVersion v, WLong file_size])
                           else
                             (case send_chunks w term 0 content junk file_size of
                                (ret, out) \<Rightarrow> Some (ret, [WShort FILE_SIZE, WVersion v, WLong file_size] @ out))))))"

section \<open>Receiving\<close>

text \<open>write at the current offset of a file that is not truncated when it is opened\<close>

definition write_at :: "nat \<Rightarrow> string \<Rightarrow> string \<Rightarrow> string" where
  "write_at pos chunk file = take pos file @ chunk @ drop (pos + length chunk) file"

text \<open>
  The receiving loop on a byte stream.  The k-th read asks for n bytes and returns at most r k of
  them, at least one when there is one.  Only whole failures are tested: when the peer has closed,
  the inner loop is continued on the closed descriptors for ever (None).
\<close>

definition got :: "(nat \<Rightarrow> nat) \<Rightarrow> nat \<Rightarrow> nat \<Rightarrow> string \<Rightarrow> nat" where
  "got r k n stream = min (max 1 (r k)) (min n (length stream))"

function recv_chunks :: "(nat \<Rightarrow> nat) \<Rightarrow> nat \<Rightarrow> string \<Rightarrow> string \<Rightarrow> nat \<Rightarrow> string \<Rightarrow> nat \<Rightarrow> string option" where
  "recv_chunks r k stream buf remaining file pos =
     (if remaining \<ge> 128 then
        let n = got r k 128 stream in
        if n = 0 then None
        else
          let buf = read_into n stream buf
          in recv_chunks r (k + 1) (drop n stream) buf (remaining - 128) (write_at pos (take 128 buf) file) (pos + 128)
      else
        let n = got r k remaining stream; buf = read_into n stream buf
        in Some (write_at pos (take remaining buf) file))"
  by pat_completeness auto
termination
  by (relation "measure (\<lambda>(r, k, stream, buf, remaining, file, pos). remaining)") auto

declare recv_chunks.simps [simp del]

definition stream_of :: "wire list \<Rightarrow> string" where
  "stream_of ws = concat (map (\<lambda>x. case x of WData s \<Rightarrow> s | _ \<Rightarrow> []) ws)"

text \<open>
  What the worker makes of the answer to its request: the new content of its file, None in the
  inner option when there is no file.  The outer None is a worker that never returns.
\<close>

definition receive_file :: "(nat \<Rightarrow> nat) \<Rightarrow> string \<Rightarrow> wire list \<Rightarrow> string option \<Rightarrow> string option option" where
  "receive_file r junk answer file =
     (case answer of
        WShort msg # rest \<Rightarrow>
          if msg = FILE_NOT_FOUND \<or> msg = FILE_UP_TO_DATE then Some file
          else if msg \<noteq> FILE_SIZE then Some file
          else
            (case rest of
               WVersion v # WLong file_size # ds \<Rightarrow>
                 let content = (case file of None \<Rightarrow> [] | Some c \<Rightarrow> c) in
                 if file_size = 0 then Some (Some content)
                 else map_option Some (recv_chunks r 0 (stream_of ds) junk file_size content 0)
             | _ \<Rightarrow> Some file)
      | _ \<Rightarrow> Some file)"

text \<open>One worker fetches one file: its own version goes into the request.\<close>

definition fetch ::
    "(string \<Rightarrow> nat list) \<Rightarrow> (string \<Rightarrow> fnode option) \<Rightarrow> (nat \<Rightarrow> nat) \<Rightarrow> string \<Rightarrow> string \<Rightarrow> string \<Rightarrow> string option \<Rightarrow> string option option"
    where
  "fetch md5 fs r junk1 junk2 path file =
     (case get_version md5 (map_option Regular file) of
        None \<Rightarrow> None
      | Some v \<Rightarrow>
          (case send_file md5 fs (\<lambda>k. True) (\<lambda>k. True) False (\<lambda>k. False) junk1
              (Some \<lparr> pathname = path, version = (case v of None \<Rightarrow> [] | Some v \<Rightarrow> v) \<rparr>) of
             None \<Rightarrow> None
           | Some (ret, answer) \<Rightarrow> receive_file r junk2 answer file))"

section \<open>What a version says of a file\<close>

lemma hex_digit_inj: "hex_digit a = hex_digit b \<Longrightarrow> a < 16 \<Longrightarrow> b < 16 \<Longrightarrow> a = b"
proof -
  assume eq: "hex_digit a = hex_digit b" and a: "a < 16" and b: "b < 16"
  have code: "of_char (hex_digit n) = (if n < 10 then 48 + n else 87 + n)" if "n < 16" for n
    using that by (simp add: hex_digit_def take_bit_eq_mod)
  have "(of_char (hex_digit a) :: nat) = of_char (hex_digit b)" by (simp only: eq)
  then show "a = b" using a b by (simp add: code split: if_splits)
qed

lemma hex2_inj: "hex2 a = hex2 b \<Longrightarrow> a < 256 \<Longrightarrow> b < 256 \<Longrightarrow> a = b"
proof -
  assume eq: "hex2 a = hex2 b" and a: "a < 256" and b: "b < 256"
  have "hex_digit (a div 16 mod 16) = hex_digit (b div 16 mod 16)" "hex_digit (a mod 16) = hex_digit (b mod 16)"
    using eq by (simp_all add: hex2_def)
  then have "a div 16 mod 16 = b div 16 mod 16" "a mod 16 = b mod 16" by (auto intro: hex_digit_inj)
  moreover have "a div 16 < 16" "b div 16 < 16" using a b by auto
  ultimately have "a div 16 = b div 16" "a mod 16 = b mod 16" by simp_all
  then show "a = b" by (metis div_mult_mod_eq)
qed

lemma foldl_append_const: "foldl (\<lambda>ret i. ret @ x) ret is = ret @ concat (replicate (length is) x)"
  by (induction "is" arbitrary: ret) simp_all

lemma find_version_digits:
  "find_version md5 (Some (Regular content)) = Some (concat (replicate (Suc 15) (hex2 (md5 content ! 0))))"
  by (simp add: find_version_def Let_def MD5_DIGEST_LENGTH_def foldl_append_const del: replicate_Suc)
    (simp add: numeral_eq_Suc)

lemma find_version_simps [simp]:
  "find_version md5 None = None"
  "find_version md5 (Some Directory) = None"
  by (simp_all add: find_version_def)

lemma same_version:
  assumes "md5 c ! 0 < 256" "md5 d ! 0 < 256"
  shows "find_version md5 (Some (Regular c)) = find_version md5 (Some (Regular d)) \<longleftrightarrow> md5 c ! 0 = md5 d ! 0"
proof
  assume "find_version md5 (Some (Regular c)) = find_version md5 (Some (Regular d))"
  then have "take 2 (concat (replicate (Suc 15) (hex2 (md5 c ! 0)))) = take 2 (concat (replicate (Suc 15) (hex2 (md5 d ! 0))))"
    by (simp only: find_version_digits option.inject)
  then have "hex2 (md5 c ! 0) = hex2 (md5 d ! 0)" by (simp only: replicate_Suc concat.simps) (simp add: hex2_def)
  with assms show "md5 c ! 0 = md5 d ! 0" by (rule hex2_inj [rotated])
qed (simp add: find_version_digits)

section \<open>The two halves of a transfer\<close>

lemma read_into_length: "length buf \<ge> n \<Longrightarrow> length (read_into n src buf) \<ge> n"
  by (simp add: read_into_def)

lemma read_into_whole: "length src \<ge> n \<Longrightarrow> take n (read_into n src buf) = take n src"
  by (simp add: read_into_def)

lemma read_into_rest: "length src = m \<Longrightarrow> m \<le> n \<Longrightarrow> take m (read_into n src buf) = src"
  by (simp add: read_into_def)

lemma stream_of_simps [simp]:
  "stream_of [] = []"
  "stream_of (WData s # ws) = s @ stream_of ws"
  by (simp_all add: stream_of_def)

lemma send_chunks_whole:
  assumes "\<And>k. w k" "\<And>k. \<not> term k" "length rest = remaining" "length buf \<ge> 128"
  shows "fst (send_chunks w term k rest buf remaining) = 0
    \<and> stream_of (snd (send_chunks w term k rest buf remaining)) = rest"
  using assms
proof (induction w "term" k rest buf remaining rule: send_chunks.induct)
  case (1 w "term" k rest buf remaining)
  show ?case
  proof (cases "remaining \<ge> 128")
    case True
    obtain ret out where step: "send_chunks w term (k + 1) (drop 128 rest) (read_into 128 rest buf) (remaining - 128) = (ret, out)"
      by fastforce
    have "ret = 0 \<and> stream_of out = drop 128 rest"
      using "1.IH" [OF refl True "1.prems"(2) _ "1.prems"(1,2)] "1.prems"(1,3,4) unfolding step
      by (simp add: read_into_length)
    with True step "1.prems" show ?thesis
      by (subst (1 2) send_chunks.simps) (simp add: Let_def read_into_whole)
  next
    case False
    with "1.prems" show ?thesis
      by (subst (1 2) send_chunks.simps) (simp add: Let_def read_into_rest)
  qed
qed

text \<open>Whatever fails, only whole chunks of the file went out, in order.\<close>

lemma send_chunks_prefix:
  assumes "length rest = remaining" "length buf \<ge> 128" "send_chunks w term k rest buf remaining = (ret, out)"
  shows "\<exists>n. stream_of out = take n rest \<and> (ret = 0 \<longrightarrow> stream_of out = rest)"
  using assms
proof (induction w "term" k rest buf remaining arbitrary: ret out rule: send_chunks.induct)
  case (1 w "term" k rest buf remaining)
  show ?case
  proof (cases "remaining \<ge> 128 \<and> \<not> term k \<and> w k")
    case True
    obtain ret1 out1 where step: "send_chunks w term (k + 1) (drop 128 rest) (read_into 128 rest buf) (remaining - 128) = (ret1, out1)"
      by fastforce
    have "\<exists>n. stream_of out1 = take n (drop 128 rest) \<and> (ret1 = 0 \<longrightarrow> stream_of out1 = drop 128 rest)"
      using "1.IH" [OF refl _ _ _ _ _ step] True "1.prems" by (simp add: read_into_length)
    then obtain n where n: "stream_of out1 = take n (drop 128 rest)" "ret1 = 0 \<longrightarrow> stream_of out1 = drop 128 rest" by blast
    have "ret = ret1" "out = WData (take 128 (read_into 128 rest buf)) # out1"
      using "1.prems"(3) True step by (simp_all add: send_chunks.simps [of w "term" k] Let_def)
    with n True "1.prems" have "stream_of out = take 128 rest @ take n (drop 128 rest)"
      "ret = 0 \<longrightarrow> stream_of out = rest" by (simp_all add: read_into_whole)
    then show ?thesis by (auto simp: take_add intro: exI [of _ "128 + n"])
  next
    case False
    with "1.prems" show ?thesis
      by (subst (asm) send_chunks.simps) (auto simp: Let_def read_into_rest split: if_splits intro: exI [of _ 0] exI [of _ remaining])
  qed
qed

lemma recv_chunks_whole:
  assumes "\<And>k. 128 \<le> r k" "length stream = remaining" "length buf \<ge> 128" "pos \<le> length file"
  shows "recv_chunks r k stream buf remaining file pos = Some (write_at pos stream file)"
  using assms
proof (induction r k stream buf remaining "file" pos rule: recv_chunks.induct)
  case (1 r k stream buf remaining "file" pos)
  show ?case
  proof (cases "remaining \<ge> 128")
    case True
    have got: "got r k 128 stream = 128" using "1.prems"(1) [of k] "1.prems"(2) True by (simp add: got_def max_def min_def)
    have "recv_chunks r k stream buf remaining file pos =
        recv_chunks r (k + 1) (drop 128 stream) (read_into 128 stream buf) (remaining - 128)
          (write_at pos (take 128 stream) file) (pos + 128)"
      using True "1.prems"(2) by (subst recv_chunks.simps) (simp add: Let_def got read_into_whole)
    also have "\<dots> = Some (write_at (pos + 128) (drop 128 stream) (write_at pos (take 128 stream) file))"
      using "1.IH" [OF True refl _ refl "1.prems"(1)] True "1.prems" got
      by (simp add: read_into_length read_into_whole write_at_def)
    also have "write_at (pos + 128) (drop 128 stream) (write_at pos (take 128 stream) file) = write_at pos stream file"
      using True "1.prems" by (simp add: write_at_def add.commute add.left_commute)
    finally show ?thesis .
  next
    case False
    have "got r k remaining stream = remaining"
      using "1.prems"(1) [of k] "1.prems"(2) False by (simp add: got_def max_def min_def)
    with False "1.prems" show ?thesis by (subst recv_chunks.simps) (simp add: Let_def read_into_rest)
  qed
qed

text \<open>A peer that stops in the middle of the file: the inner loop never ends.\<close>

lemma recv_chunks_cut:
  assumes "\<And>k. 128 \<le> r k" "length stream < 128 * (remaining div 128)" "length stream mod 128 = 0"
  shows "recv_chunks r k stream buf remaining file pos = None"
  using assms
proof (induction r k stream buf remaining "file" pos rule: recv_chunks.induct)
  case (1 r k stream buf remaining "file" pos)
  have rem: "remaining \<ge> 128" using "1.prems"(2) by (cases "remaining < 128") simp_all
  show ?case
  proof (cases "stream = []")
    case True
    with rem show ?thesis by (subst recv_chunks.simps) (simp add: got_def)
  next
    case False
    then have len: "length stream \<ge> 128" using "1.prems"(3) by (metis length_0_conv mod_less not_le)
    have got: "got r k 128 stream = 128" using "1.prems"(1) [of k] len by (simp add: got_def max_def min_def)
    have "recv_chunks r (k + 1) (drop 128 stream) (read_into 128 stream buf) (remaining - 128)
          (write_at pos (take 128 (read_into 128 stream buf)) file) (pos + 128) = None"
      using "1.IH" [OF rem refl _ refl "1.prems"(1)] "1.prems"(2,3) got len rem
      by (simp add: le_mod_geq le_div_geq)
    with rem got show ?thesis by (subst recv_chunks.simps) (simp add: Let_def)
  qed
qed


text \<open>A cut stream does not matter to the last part, only to the whole chunks before it.\<close>

lemma send_file_sends:
  assumes "fs (pathname ft) = Some (Regular content)" "find_version md5 (Some (Regular content)) \<noteq> Some (version ft)"
    and "\<And>k. w k" "\<And>k. \<not> term k" "\<And>k. wh k" "length junk \<ge> 128"
  obtains v out where "find_version md5 (Some (Regular content)) = Some v"
    "send_file md5 fs wh w False term junk (Some ft) = Some (0, [WShort FILE_SIZE, WVersion v, WLong (length content)] @ out)"
    "stream_of out = content"
proof -
  obtain v where v: "find_version md5 (Some (Regular content)) = Some v" by (simp add: find_version_digits)
  have "\<exists>out. send_file md5 fs wh w False term junk (Some ft) = Some (0, [WShort FILE_SIZE, WVersion v, WLong (length content)] @ out)
      \<and> stream_of out = content"
    using assms v send_chunks_whole [of w "term" content "length content" junk 0, OF assms(3,4) refl assms(6)]
    by (cases "content = []") (auto simp: send_file_def Let_def split: prod.splits)
  with v that show thesis by blast
qed

lemma receive_file_gets:
  assumes "\<And>k. 128 \<le> r k" "length junk \<ge> 128" "stream_of out = content"
  shows "receive_file r junk ([WShort FILE_SIZE, WVersion v, WLong (length content)] @ out) old
    = Some (Some (content @ drop (length content) (case old of None \<Rightarrow> [] | Some c \<Rightarrow> c)))"
  using assms recv_chunks_whole [of r content "length content" junk 0 "case old of None \<Rightarrow> [] | Some c \<Rightarrow> c" 0]
  by (auto simp: receive_file_def message_codes write_at_def Let_def)


lemma send_chunks_broken:
  assumes "\<And>j. j < n \<Longrightarrow> w (k + j)" "\<not> w (k + n)" "\<And>k. \<not> term k" "n \<le> remaining div 128"
    "length rest = remaining" "length buf \<ge> 128"
  shows "\<exists>out. send_chunks w term k rest buf remaining = (1, out) \<and> stream_of out = take (128 * n) rest"
  using assms
proof (induction n arbitrary: k rest buf remaining)
  case 0
  then show ?case by (subst send_chunks.simps) (simp add: Let_def)
next
  case (Suc n)
  have rem: "remaining \<ge> 128" using Suc.prems(4) by (cases "remaining < 128") simp_all
  have "\<exists>out. send_chunks w term (Suc k) (drop 128 rest) (read_into 128 rest buf) (remaining - 128) = (1, out)
      \<and> stream_of out = take (128 * n) (drop 128 rest)"
  proof (rule Suc.IH)
    show "w (Suc k + j)" if "j < n" for j using Suc.prems(1) [of "Suc j"] that by simp
    show "n \<le> (remaining - 128) div 128" using Suc.prems(4) rem by (simp add: le_div_geq)
  qed (use Suc.prems in \<open>simp_all add: read_into_length\<close>)
  then obtain out where out: "send_chunks w term (Suc k) (drop 128 rest) (read_into 128 rest buf) (remaining - 128) = (1, out)"
      "stream_of out = take (128 * n) (drop 128 rest)" by blast
  have "send_chunks w term k rest buf remaining = (1, WData (take 128 rest) # out)"
    using rem out(1) Suc.prems(1) [of 0] Suc.prems(3,5) by (subst send_chunks.simps) (simp add: Let_def read_into_whole)
  moreover have "take (128 * Suc n) rest = take 128 rest @ take (128 * n) (drop 128 rest)"
    by (simp add: take_add)
  ultimately show ?case using out(2) by (intro exI) auto
qed

section \<open>What a fetch does\<close>

lemma fetch_result:
  assumes "\<And>c. md5 c ! 0 < 256" "\<And>k. 128 \<le> r k" "length junk1 \<ge> 128" "length junk2 \<ge> 128"
  shows "fetch md5 fs r junk1 junk2 path old =
    (case fs path of
       None \<Rightarrow> Some old
     | Some Directory \<Rightarrow> None
     | Some (Regular content) \<Rightarrow>
         (case old of
            None \<Rightarrow> Some (Some content)
          | Some c \<Rightarrow> if md5 c ! 0 = md5 content ! 0 then Some old
                      else Some (Some (content @ drop (length content) c))))"
proof -
  define v where "v = (case old of None \<Rightarrow> [] | Some c \<Rightarrow> concat (replicate (Suc 15) (hex2 (md5 c ! 0))))"
  define ft where "ft = \<lparr> pathname = path, version = v \<rparr>"
  have fetch: "fetch md5 fs r junk1 junk2 path old =
      (case send_file md5 fs (\<lambda>k. True) (\<lambda>k. True) False (\<lambda>k. False) junk1 (Some ft) of
         None \<Rightarrow> None | Some (ret, answer) \<Rightarrow> receive_file r junk2 answer old)"
    by (cases old) (simp_all add: fetch_def get_version_def find_version_digits v_def ft_def del: replicate_Suc split: option.split)
  show ?thesis
  proof (cases "fs path")
    case None
    then show ?thesis unfolding fetch by (simp add: send_file_def ft_def receive_file_def message_codes)
  next
    case (Some node)
    show ?thesis
    proof (cases node)
      case Directory
      with Some show ?thesis unfolding fetch by (simp add: send_file_def ft_def)
    next
      case (Regular content)
      have same: "find_version md5 (Some (Regular content)) = Some v \<longleftrightarrow> (\<exists>c. old = Some c \<and> md5 c ! 0 = md5 content ! 0)"
      proof (cases old)
        case None
        then show ?thesis by (simp add: v_def find_version_digits hex2_def)
      next
        case (Some c)
        then have "Some v = find_version md5 (Some (Regular c))" by (simp only: v_def find_version_digits option.case)
        then show ?thesis using same_version [of md5 content c, OF assms(1) assms(1)] Some by auto
      qed
      show ?thesis
      proof (cases "find_version md5 (Some (Regular content)) = Some v")
        case True
        with same obtain c where c: "old = Some c" "md5 c ! 0 = md5 content ! 0" by blast
        have "send_file md5 fs (\<lambda>k. True) (\<lambda>k. True) False (\<lambda>k. False) junk1 (Some ft) = Some (0, [WShort FILE_UP_TO_DATE])"
          using True Some Regular by (simp add: send_file_def ft_def)
        then show ?thesis unfolding fetch using Some Regular c by (simp add: receive_file_def message_codes)
      next
        case False
        have fs: "fs (pathname ft) = Some (Regular content)" using Some Regular by (simp add: ft_def)
        have differ: "find_version md5 (Some (Regular content)) \<noteq> Some (version ft)" using False by (simp add: ft_def)
        obtain u out where sent: "send_file md5 fs (\<lambda>k. True) (\<lambda>k. True) False (\<lambda>k. False) junk1 (Some ft)
            = Some (0, [WShort FILE_SIZE, WVersion u, WLong (length content)] @ out)" "stream_of out = content"
          by (rule send_file_sends [of fs ft content md5 "\<lambda>k. True" "\<lambda>k. False" "\<lambda>k. True" junk1])
            (use assms(3) fs differ in simp_all)
        have "fetch md5 fs r junk1 junk2 path old = Some (Some (content @ drop (length content) (case old of None \<Rightarrow> [] | Some c \<Rightarrow> c)))"
          unfolding fetch sent(1) using receive_file_gets [OF assms(2,4) sent(2)] by simp
        with False same Some Regular show ?thesis by (cases old) auto
      qed
    qed
  qed
qed

text \<open>A worker that fetches a file.  When the other client does not have it, the local file stays
  as it is; when the other end's path is a directory, the other client never answers.  A file is
  left alone exactly when the first bytes of the two digests agree, whatever the contents.  In every
  other case the new local file starts with the whole remote file, byte for byte, and keeps what
  the old one had beyond that length, since it is opened without being truncated.\<close>

theorem fetch_outcome:
  assumes "\<And>c. md5 c ! 0 < 256" "\<And>k. 128 \<le> r k" "length junk1 \<ge> 128" "length junk2 \<ge> 128"
  shows "fetch md5 fs r junk1 junk2 path old =
    (case fs path of
       None \<Rightarrow> Some old
     | Some Directory \<Rightarrow> None
     | Some (Regular content) \<Rightarrow>
         (case old of
            None \<Rightarrow> Some (Some content)
          | Some c \<Rightarrow> if md5 c ! 0 = md5 content ! 0 then Some old
                      else Some (Some (content @ drop (length content) c))))"
  by (rule fetch_result [OF assms])

theorem fetch_outcome_witness:
  "fetch (\<lambda>s. replicate 16 (length s mod 256)) (\<lambda>p. if p = ''a'' then Some (Regular ''new'') else None) (\<lambda>k. 128)
     (replicate 128 CHR ''x'') (replicate 128 CHR ''y'') ''a'' (Some ''older'') = Some (Some ''newer'')"
  using fetch_outcome [of "\<lambda>s. replicate 16 (length s mod 256)" "\<lambda>k. 128" "replicate 128 CHR ''x''" "replicate 128 CHR ''y''"
      "\<lambda>p. if p = ''a'' then Some (Regular ''new'') else None" "''a''" "Some ''older''"]
  by simp

text \<open>A sender whose connection breaks at the n-th chunk reports the failure after it has sent
  the first n chunks of the file and nothing else; a receiver that gets this much, and the announced
  size, never gets out of its loop.\<close>

theorem broken_transfer_hangs:
  assumes "n < length content div 128" "\<And>j. j < n \<Longrightarrow> w j" "\<not> w n" "\<And>k. wh k" "\<And>k. \<not> term k"
    and "fs (pathname ft) = Some (Regular content)" "find_version md5 (Some (Regular content)) \<noteq> Some (version ft)"
    and "length junk1 \<ge> 128" "\<And>k. 128 \<le> r k"
  shows "\<exists>answer. send_file md5 fs wh w False term junk1 (Some ft) = Some (1, answer)
    \<and> stream_of (drop 3 answer) = take (128 * n) content \<and> receive_file r junk2 answer old = None"
proof -
  obtain out where out: "send_chunks w term 0 content junk1 (length content) = (1, out)" "stream_of out = take (128 * n) content"
    using send_chunks_broken [of n w 0 "term" "length content" content junk1] assms by auto
  obtain v where v: "find_version md5 (Some (Regular content)) = Some v" by (simp add: find_version_digits)
  define answer where "answer = [WShort FILE_SIZE, WVersion v, WLong (length content)] @ out"
  have nonempty: "content \<noteq> []" using assms(1) by auto
  have "send_file md5 fs wh w False term junk1 (Some ft) = Some (1, answer)"
    using assms out v nonempty by (simp add: send_file_def Let_def answer_def)
  moreover have "stream_of (drop 3 answer) = take (128 * n) content" using out by (simp add: answer_def)
  moreover have "receive_file r junk2 answer old = None"
  proof -
    have "128 * n \<le> length content" using assms(1) by (metis less_or_eq_imp_le mult.commute div_times_less_eq_dividend
          le_trans mult_le_mono1)
    then have "recv_chunks r 0 (stream_of out) junk2 (length content) c 0 = None" for c
      using assms(1) by (intro recv_chunks_cut assms(9)) (simp_all add: out(2) min_def)
    with nonempty show ?thesis by (simp add: answer_def receive_file_def message_codes)
  qed
  ultimately show ?thesis by blast
qed

theorem broken_transfer_hangs_witness:
  "\<exists>answer. send_file (\<lambda>s. replicate 16 0) (\<lambda>p. Some (Regular (replicate 300 CHR ''x''))) (\<lambda>k. True) (\<lambda>k. k < 1) False (\<lambda>k. False)
      (replicate 128 CHR ''y'') (Some \<lparr> pathname = ''a'', version = [] \<rparr>) = Some (1, answer)
    \<and> stream_of (drop 3 answer) = replicate 128 CHR ''x'' \<and> receive_file (\<lambda>k. 128) [] answer None = None"
  using broken_transfer_hangs [of 1 "replicate 300 CHR ''x''" "\<lambda>k. k < 1" "\<lambda>k. True" "\<lambda>k. False" "\<lambda>p. Some (Regular (replicate 300 CHR ''x''))"
      "\<lparr> pathname = ''a'', version = [] \<rparr>" "\<lambda>s. replicate 16 0" "replicate 128 CHR ''y''" "\<lambda>k. 128" "[]" None]
  by (simp add: find_version_digits hex2_def)

end
