(* ===== verification/Children.thy ===== *)
theory Children
  imports DList
begin

text \<open>
  The list of children a mirror client keeps (SysPro_Project2/src/mirror\_client/clientSync.c): one
  node for every other client it has tried to synchronise with, with the last process it forked for
  it and the number of tries.
\<close>

section \<open>State\<close>

record children_list =
  last_pid :: int
  to_sync_with :: string
  times :: int

record kids =
  nodes :: "children_list heap"
  first_child :: "nat option"

definition fresh_child :: "int \<Rightarrow> string \<Rightarrow> children_list" where
  "fresh_child pid i = \<lparr> last_pid = pid, to_sync_with = i, times = 1 \<rparr>"

section \<open>Operations\<close>

text \<open>The walk of add_pid: the node of the ID, or the last one.\<close>

partial_function (option) add_loop :: "children_list cells \<Rightarrow> string \<Rightarrow> nat \<Rightarrow> (fault + nat \<times> bool) option" where
  "add_loop h i cur =
     (case h cur of
        None \<Rightarrow> Some (crash UseAfterFree)
      | Some n \<Rightarrow>
          (case next_cl n of
             None \<Rightarrow> Some (ok (cur, strcmp (to_sync_with (item n)) i = 0))
           | Some nxt \<Rightarrow>
               if strcmp (to_sync_with (item n)) i = 0 then Some (ok (cur, True)) else add_loop h i nxt))"

definition add_pid :: "kids \<Rightarrow> int \<Rightarrow> string \<Rightarrow> (fault + kids) option" where
  "add_pid k pid i =
     (let h = nodes k in
      case first_child k of
        None \<Rightarrow>
          Some (ok (k\<lparr>nodes := \<lparr> cells = (cells h)(brk h \<mapsto> \<lparr> item = fresh_child pid i, next_cl = None, previous = None \<rparr>),
                                brk = Suc (brk h) \<rparr>,
                      first_child := Some (brk h)\<rparr>))
      | Some cur \<Rightarrow>
          run_then (add_loop (cells h) i cur) (\<lambda>(cur, found).
            case cells h cur of
              None \<Rightarrow> Some (crash UseAfterFree)
            | Some n \<Rightarrow>
                if found then
                  Some (ok (k\<lparr>nodes := h\<lparr>cells := (cells h)(cur \<mapsto>
                    n\<lparr>item := (item n)\<lparr>times := times (item n) + 1, last_pid := pid\<rparr>\<rparr>)\<rparr>\<rparr>))
                else
                  Some (ok (k\<lparr>nodes := \<lparr> cells = (cells h)(cur \<mapsto> n\<lparr>next_cl := Some (brk h)\<rparr>,
                                           brk h \<mapsto> \<lparr> item = fresh_child pid i, next_cl = None, previous = Some cur \<rparr>),
                                         brk = Suc (brk h) \<rparr>\<rparr>))))"

partial_function (option) times_loop :: "children_list cells \<Rightarrow> string \<Rightarrow> nat \<Rightarrow> (fault + int) option" where
  "times_loop h i cur =
     (case h cur of
        None \<Rightarrow> Some (crash UseAfterFree)
      | Some n \<Rightarrow>
          (case next_cl n of
             None \<Rightarrow> Some (ok (if strcmp (to_sync_with (item n)) i = 0 then times (item n) else 0))
           | Some nxt \<Rightarrow>
               if strcmp (to_sync_with (item n)) i = 0 then Some (ok (times (item n))) else times_loop h i nxt))"

definition times_tried :: "kids \<Rightarrow> string \<Rightarrow> (fault + int) option" where
  "times_tried k i =
     (case first_child k of None \<Rightarrow> Some (ok 0) | Some cur \<Rightarrow> times_loop (cells (nodes k)) i cur)"

text \<open>The loop of already_synced does not move on to the next node.\<close>

partial_function (option) synced_loop :: "children_list cells \<Rightarrow> string \<Rightarrow> nat \<Rightarrow> (fault + bool) option" where
  "synced_loop h i cur =
     (case h cur of
        None \<Rightarrow> Some (crash UseAfterFree)
      | Some n \<Rightarrow>
          if next_cl n \<noteq> None then
            (if strcmp (to_sync_with (item n)) i = 0 then Some (ok True) else synced_loop h i cur)
          else Some (ok (strcmp (to_sync_with (item n)) i = 0)))"

definition already_synced :: "kids \<Rightarrow> string \<Rightarrow> (fault + bool) option" where
  "already_synced k i =
     (case first_child k of None \<Rightarrow> Some (ok False) | Some cur \<Rightarrow> synced_loop (cells (nodes k)) i cur)"

definition remove_list_node :: "kids \<Rightarrow> nat \<Rightarrow> fault + kids" where
  "remove_list_node k cur =
     (let h = cells (nodes k) in
      case h cur of
        None \<Rightarrow> crash UseAfterFree
      | Some n \<Rightarrow>
          and_then
            (if previous n \<noteq> None then
               and_then (set_next h (previous n) (next_cl n)) (\<lambda>h.
               and_then (set_previous h (next_cl n) (previous n)) (\<lambda>h. ok (h, first_child k)))
             else if next_cl n \<noteq> None then
               and_then (set_previous h (next_cl n) None) (\<lambda>h. ok (h, next_cl n))
             else ok (h, None))
            (\<lambda>(h, first). ok (k\<lparr>nodes := (nodes k)\<lparr>cells := h(cur := None)\<rparr>, first_child := first\<rparr>)))"

text \<open>Neither does the loop of delete_entry; it also reads the first node without a test for NULL.\<close>

partial_function (option) delete_entry_loop :: "kids \<Rightarrow> string \<Rightarrow> nat \<Rightarrow> (fault + kids) option" where
  "delete_entry_loop k i cur =
     (case cells (nodes k) cur of
        None \<Rightarrow> Some (crash UseAfterFree)
      | Some n \<Rightarrow>
          if next_cl n \<noteq> None then
            (if strcmp i (to_sync_with (item n)) = 0 then Some (remove_list_node k cur) else delete_entry_loop k i cur)
          else if strcmp i (to_sync_with (item n)) = 0 then Some (remove_list_node k cur)
          else Some (ok k))"

definition delete_entry :: "kids \<Rightarrow> string \<Rightarrow> (fault + kids) option" where
  "delete_entry k i =
     (case first_child k of None \<Rightarrow> Some (crash NullDeref) | Some cur \<Rightarrow> delete_entry_loop k i cur)"

text \<open>kill_processes: the processes signalled, in order.\<close>

partial_function (option) kill_loop :: "children_list cells \<Rightarrow> nat \<Rightarrow> int list \<Rightarrow> (fault + int list) option" where
  "kill_loop h cur sent =
     (case h cur of
        None \<Rightarrow> Some (crash UseAfterFree)
      | Some n \<Rightarrow>
          if next_cl n \<noteq> None then kill_loop h cur (sent @ [last_pid (item n)])
          else Some (ok (sent @ [last_pid (item n)])))"

definition kill_processes :: "kids \<Rightarrow> (fault + int list) option" where
  "kill_processes k =
     (case first_child k of None \<Rightarrow> Some (ok []) | Some cur \<Rightarrow> kill_loop (cells (nodes k)) cur [])"

definition free_on_exec :: "kids \<Rightarrow> (fault + children_list cells) option" where
  "free_on_exec k =
     (case first_child k of None \<Rightarrow> Some (ok (cells (nodes k))) | Some cur \<Rightarrow> free_loop (cells (nodes k)) cur)"

section \<open>What the operations do on the list\<close>

definition has_kids :: "kids \<Rightarrow> children_list list \<Rightarrow> bool" where
  "has_kids k cs \<longleftrightarrow> represents (nodes k) (first_child k) cs"

fun bump :: "int \<Rightarrow> string \<Rightarrow> children_list list \<Rightarrow> children_list list" where
  "bump pid i [] = [fresh_child pid i]"
| "bump pid i (c # cs) =
     (if to_sync_with c = i then c\<lparr>times := times c + 1, last_pid := pid\<rparr> # cs else c # bump pid i cs)"

fun tries_of :: "string \<Rightarrow> children_list list \<Rightarrow> int" where
  "tries_of i [] = 0"
| "tries_of i (c # cs) = (if to_sync_with c = i then times c else tries_of i cs)"

lemma has_kids_cases:
  assumes "has_kids k cs"
  obtains (empty) "first_child k = None" "cs = []"
  | (nonempty) a c ds n where "first_child k = Some a" "cs = c # ds" "at_node (nodes k) (first_child k) [] c ds a n"
  using assms unfolding has_kids_def
proof (cases rule: represents_cases)
  case empty
  with that(1) show ?thesis by blast
next
  case (nonempty a)
  then obtain c ds where cs: "cs = c # ds" by (cases cs) auto
  with nonempty assms obtain n where "at_node (nodes k) (first_child k) [] c ds a n"
    using at_node_first [of "nodes k" a c ds] by (auto simp: has_kids_def)
  with that(2) nonempty cs show ?thesis by blast
qed

lemma add_loop_finds:
  "at_node h p us c ds a n \<Longrightarrow> \<forall>u \<in> set us. to_sync_with u \<noteq> i \<Longrightarrow>
   \<exists>vs t ws b m. us @ c # ds = vs @ t # ws \<and> at_node h p vs t ws b m \<and> add_loop (cells h) i a = Some (ok (b, to_sync_with t = i))
     \<and> (\<forall>v \<in> set vs. to_sync_with v \<noteq> i) \<and> (to_sync_with t = i \<or> ws = [])"
proof (induction ds arbitrary: us c a n)
  case Nil
  with at_node_fields [OF Nil.prems(1)] show ?case
    by (intro exI [of _ us] exI [of _ c] exI [of _ "[]"] exI [of _ a] exI [of _ n])
      (auto simp: add_loop.simps at_node_def)
next
  case (Cons d ds)
  have n: "cells h a = Some n" "item n = c" "next_cl n \<noteq> None"
    using at_node_fields [OF Cons.prems(1)] Cons.prems(1) by (auto simp: at_node_def)
  show ?case
  proof (cases "to_sync_with c = i")
    case True
    with n Cons.prems show ?thesis
      by (intro exI [of _ us] exI [of _ c] exI [of _ "d # ds"] exI [of _ a] exI [of _ n])
        (auto simp: add_loop.simps)
  next
    case False
    obtain b m where b: "next_cl n = Some b" "at_node h p (us @ [c]) d ds b m"
      using Cons.prems(1) by (rule at_node_next)
    have "add_loop (cells h) i a = add_loop (cells h) i b"
      using n b(1) False by (simp add: add_loop.simps [of "cells h" i a])
    with Cons.IH [OF b(2)] Cons.prems(2) False show ?thesis by simp
  qed
qed

lemma times_loop_finds:
  "at_node h p us c ds a n \<Longrightarrow> times_loop (cells h) i a = Some (ok (tries_of i (c # ds)))"
proof (induction ds arbitrary: us c a n)
  case Nil
  with at_node_fields [OF Nil.prems(1)] show ?case by (auto simp: times_loop.simps at_node_def)
next
  case (Cons d ds)
  have n: "cells h a = Some n" "item n = c"
    using at_node_fields [OF Cons.prems(1)] Cons.prems(1) by (auto simp: at_node_def)
  obtain b m where b: "next_cl n = Some b" "at_node h p (us @ [c]) d ds b m"
    using Cons.prems(1) by (rule at_node_next)
  from Cons.IH [OF b(2)] n b(1) show ?case by (simp add: times_loop.simps [of "cells h" i a])
qed

lemma bump_split:
  assumes "\<forall>v \<in> set vs. to_sync_with v \<noteq> i"
  shows "bump pid i (vs @ t # ws) =
    (if to_sync_with t = i then vs @ t\<lparr>times := times t + 1, last_pid := pid\<rparr> # ws else vs @ t # bump pid i ws)"
  using assms by (induction vs) auto

lemma last_node_unique:
  "at_node h p us c ds a n \<Longrightarrow> add_loop (cells h) i a = Some (ok (b, False)) \<Longrightarrow> last_node (cells h) a = Some (ok b)"
proof (induction ds arbitrary: us c a n)
  case Nil
  with at_node_fields [OF Nil.prems(1)] show ?case
    by (auto simp: add_loop.simps last_node.simps at_node_def)
next
  case (Cons d ds)
  have n: "cells h a = Some n" "item n = c"
    using at_node_fields [OF Cons.prems(1)] Cons.prems(1) by (auto simp: at_node_def)
  obtain b' m where b: "next_cl n = Some b'" "at_node h p (us @ [c]) d ds b' m"
    using Cons.prems(1) by (rule at_node_next)
  with Cons.prems(2) n have "add_loop (cells h) i b' = Some (ok (b, False))"
    by (simp add: add_loop.simps [of "cells h" i a] split: if_splits)
  from Cons.IH [OF b(2) this] n b(1) show ?case by (simp add: last_node.simps [of "cells h" a])
qed

lemma add_pid_correct:
  assumes "has_kids k cs"
  shows "\<exists>k'. add_pid k pid i = Some (ok k') \<and> has_kids k' (bump pid i cs)"
  using assms
proof (cases rule: has_kids_cases)
  case empty
  with represents_first [of "nodes k" cs "fresh_child pid i"] assms show ?thesis
    by (simp add: add_pid_def has_kids_def put_first_def new_node_def Let_def)
next
  case (nonempty a c ds n)
  obtain vs t ws b m where found: "c # ds = vs @ t # ws" "at_node (nodes k) (first_child k) vs t ws b m"
      "add_loop (cells (nodes k)) i a = Some (ok (b, to_sync_with t = i))"
      "\<forall>v \<in> set vs. to_sync_with v \<noteq> i" "to_sync_with t = i \<or> ws = []"
    using add_loop_finds [OF nonempty(3), of i] by auto
  have m: "cells (nodes k) b = Some m" "item m = t"
    using found(2) at_node_fields [OF found(2)] by (auto simp: at_node_def)
  show ?thesis
  proof (cases "to_sync_with t = i")
    case True
    with at_node_update [OF found(2), of "t\<lparr>times := times t + 1, last_pid := pid\<rparr>"] found m nonempty(1,2)
    show ?thesis by (simp add: add_pid_def has_kids_def bump_split Let_def)
  next
    case False
    with found have cs: "cs = vs @ [t]" "bump pid i cs = cs @ [fresh_child pid i]" using nonempty(2) by (simp_all add: bump_split)
    have "last_node (cells (nodes k)) a = Some (ok b)"
      using last_node_unique [OF nonempty(3), of i b] found(3) False by simp
    with represents_behind [of "nodes k" a cs "fresh_child pid i"] assms nonempty(1) m
    have "represents (put_behind (nodes k) b m (fresh_child pid i)) (first_child k) (cs @ [fresh_child pid i])"
      by (auto simp: has_kids_def)
    with False found(3) m cs(2) nonempty(1) show ?thesis
      by (simp add: add_pid_def has_kids_def put_behind_def new_node_def Let_def)
  qed
qed

lemma times_tried_correct: "has_kids k cs \<Longrightarrow> times_tried k i = Some (ok (tries_of i cs))"
  by (erule has_kids_cases) (auto simp: times_tried_def times_loop_finds)

lemma set_fields_swap:
  "and_then (set_previous h q x) (\<lambda>h. and_then (set_next h p y) (\<lambda>h. ok h)) =
   and_then (set_next h p y) (\<lambda>h. and_then (set_previous h q x) (\<lambda>h. ok h))"
  if "p \<noteq> q \<or> p = None"
  using that by (auto simp: set_previous_def set_next_def fun_upd_twist split: option.splits)

text \<open>Taking out any node of the list\<close>

lemma remove_list_node_correct:
  assumes "at_node (nodes k) (first_child k) us t vs b n"
  shows "\<exists>k'. remove_list_node k b = ok k' \<and> has_kids k' (us @ vs)"
proof -
  let ?h = "cells (nodes k)"
  have n: "?h b = Some n" using assms by (simp add: at_node_def)
  note fields = at_node_fields [OF assms]
  obtain h' p' where un: "unlink ?h (first_child k) b n = ok (h', p')" "represents ((nodes k)\<lparr>cells := h'\<rparr>) p' (us @ vs)"
    using at_node_unlink [OF assms] by blast
  obtain xs ys where xs: "dseg ?h None (first_child k) (xs @ b # ys) (us @ t # vs) None" "distinct (xs @ b # ys)" "length xs = length us"
    using assms by (auto simp: at_node_def)
  have links: "previous n = last_of None xs" "dseg ?h (Some b) (next_cl n) ys vs None"
    using xs(1) n by (auto simp: dseg_append [OF xs(3)])
  have nxt: "next_cl n = Some c \<Longrightarrow> c \<in> set ys" for c using links(2) by (cases ys; cases vs) auto
  have differ: "previous n \<noteq> next_cl n \<or> previous n = None"
    using links(1) nxt xs(2) by (cases "next_cl n") (auto simp: last_of_def dest: last_in_set split: if_splits)
  have first: "us \<noteq> [] \<Longrightarrow> first_child k \<noteq> Some b" using xs by (cases xs; cases us) auto
  from un(1) obtain g1 g2 where g: "set_previous ?h (next_cl n) (previous n) = ok g1" "set_next g1 (previous n) (next_cl n) = ok g2"
      "h' = g2(b := None)" "p' = (if first_child k = Some b then next_cl n else first_child k)"
    by (auto simp: unlink_def and_then_ok_iff)
  have swapped: "and_then (set_next ?h (previous n) (next_cl n)) (\<lambda>h. and_then (set_previous h (next_cl n) (previous n)) (\<lambda>h. ok h)) = ok g2"
    using set_fields_swap [OF differ, of ?h "previous n" "next_cl n"] g(1,2) by simp
  have "remove_list_node k b = ok (k\<lparr>nodes := (nodes k)\<lparr>cells := h'\<rparr>, first_child := p'\<rparr>)"
  proof (cases "us = []")
    case False
    then have "previous n \<noteq> None" using fields by simp
    with swapped show ?thesis using n g(3,4) first [OF False] by (auto simp: remove_list_node_def Let_def and_then_ok_iff)
  next
    case True
    then have p: "previous n = None" "first_child k = Some b" using fields by simp_all
    then have "g2 = g1" using g(2) by (simp add: set_next_def)
    with p g n show ?thesis by (auto simp: remove_list_node_def Let_def set_previous_def)
  qed
  with un(2) show ?thesis by (simp add: has_kids_def)
qed

section \<open>The loops that do not move on\<close>

lemma synced_loop_spins:
  assumes "h cur = Some n" "next_cl n \<noteq> None" "to_sync_with (item n) \<noteq> i"
  shows "synced_loop h i cur = None"
proof (rule ccontr)
  assume "synced_loop h i cur \<noteq> None"
  then obtain y where "synced_loop h i cur = Some y" by blast
  then have "\<not> (\<exists>n. h cur = Some n \<and> next_cl n \<noteq> None \<and> to_sync_with (item n) \<noteq> i)"
    by (rule synced_loop.raw_induct [where P = "\<lambda>h i cur y. \<not> (\<exists>n. h cur = Some n \<and> next_cl n \<noteq> None \<and> to_sync_with (item n) \<noteq> i)", rotated])
      (fastforce split: option.splits if_splits)
  with assms show False by blast
qed

lemma delete_entry_loop_spins:
  assumes "cells (nodes k) cur = Some n" "next_cl n \<noteq> None" "to_sync_with (item n) \<noteq> i"
  shows "delete_entry_loop k i cur = None"
proof (rule ccontr)
  assume "delete_entry_loop k i cur \<noteq> None"
  then obtain y where "delete_entry_loop k i cur = Some y" by blast
  then have "\<not> (\<exists>n. cells (nodes k) cur = Some n \<and> next_cl n \<noteq> None \<and> to_sync_with (item n) \<noteq> i)"
    by (rule delete_entry_loop.raw_induct [where P = "\<lambda>k i cur y. \<not> (\<exists>n. cells (nodes k) cur = Some n \<and> next_cl n \<noteq> None \<and> to_sync_with (item n) \<noteq> i)", rotated])
      (fastforce split: option.splits if_splits)
  with assms show False by blast
qed

lemma kill_loop_spins:
  assumes "h cur = Some n" "next_cl n \<noteq> None"
  shows "kill_loop h cur sent = None"
proof (rule ccontr)
  assume "kill_loop h cur sent \<noteq> None"
  then obtain y where "kill_loop h cur sent = Some y" by blast
  then have "\<not> (\<exists>n. h cur = Some n \<and> next_cl n \<noteq> None)"
    by (rule kill_loop.raw_induct [where P = "\<lambda>h cur sent y. \<not> (\<exists>n. h cur = Some n \<and> next_cl n \<noteq> None)", rotated])
      (fastforce split: option.splits if_splits)
  with assms show False by blast
qed

text \<open>One turn of each loop, where it ends\<close>

lemma synced_loop_ends:
  "h cur = Some n \<Longrightarrow> next_cl n = None \<or> to_sync_with (item n) = i \<Longrightarrow>
   synced_loop h i cur = Some (ok (to_sync_with (item n) = i))"
  by (subst synced_loop.simps) auto

lemma delete_entry_loop_ends:
  "cells (nodes k) cur = Some n \<Longrightarrow> next_cl n = None \<or> to_sync_with (item n) = i \<Longrightarrow>
   delete_entry_loop k i cur = (if to_sync_with (item n) = i then Some (remove_list_node k cur) else Some (ok k))"
  by (subst delete_entry_loop.simps) auto

lemma kill_loop_ends:
  "h cur = Some n \<Longrightarrow> next_cl n = None \<Longrightarrow> kill_loop h cur sent = Some (ok (sent @ [last_pid (item n)]))"
  by (subst kill_loop.simps) simp

lemma already_synced_outcome:
  assumes "has_kids k cs"
  shows "already_synced k i =
    (case cs of
       [] \<Rightarrow> Some (ok False)
     | c # ds \<Rightarrow> if to_sync_with c = i then Some (ok True) else if ds = [] then Some (ok False) else None)"
  using assms
proof (cases rule: has_kids_cases)
  case empty
  then show ?thesis by (simp add: already_synced_def)
next
  case (nonempty a c ds n)
  have n: "cells (nodes k) a = Some n" using nonempty(3) by (simp add: at_node_def)
  note fields = at_node_fields [OF nonempty(3)]
  show ?thesis
  proof (cases "to_sync_with c = i \<or> ds = []")
    case True
    with synced_loop_ends [of "cells (nodes k)" a n i] n fields nonempty(1,2) show ?thesis by (auto simp: already_synced_def)
  next
    case False
    with synced_loop_spins [of "cells (nodes k)" a n i] n fields nonempty(1,2) show ?thesis by (auto simp: already_synced_def)
  qed
qed

text \<open>
  delete_entry: a fault without children, the removal of the first child or nothing where the loop
  ends, and no return otherwise.
\<close>

lemma delete_entry_outcome:
  assumes "has_kids k cs"
  shows "case cs of
       [] \<Rightarrow> delete_entry k i = Some (crash NullDeref)
     | c # ds \<Rightarrow>
         if to_sync_with c = i then \<exists>k'. delete_entry k i = Some (ok k') \<and> has_kids k' ds
         else delete_entry k i = (if ds = [] then Some (ok k) else None)"
  using assms
proof (cases rule: has_kids_cases)
  case empty
  then show ?thesis by (simp add: delete_entry_def)
next
  case (nonempty a c ds n)
  have n: "cells (nodes k) a = Some n" using nonempty(3) by (simp add: at_node_def)
  note fields = at_node_fields [OF nonempty(3)]
  obtain k' where k': "remove_list_node k a = ok k'" "has_kids k' ds"
    using remove_list_node_correct [OF nonempty(3)] by auto
  show ?thesis
  proof (cases "to_sync_with c = i")
    case True
    with delete_entry_loop_ends [of k a n i] n fields nonempty(1,2) k' show ?thesis by (simp add: delete_entry_def)
  next
    case False
    with n fields nonempty(1,2) delete_entry_loop_spins [of k a n i] delete_entry_loop_ends [of k a n i] show ?thesis
      by (cases "ds = []") (simp_all add: delete_entry_def)
  qed
qed

lemma kill_processes_outcome:
  assumes "has_kids k cs"
  shows "kill_processes k = (case cs of [] \<Rightarrow> Some (ok []) | [c] \<Rightarrow> Some (ok [last_pid c]) | _ \<Rightarrow> None)"
  using assms
proof (cases rule: has_kids_cases)
  case empty
  then show ?thesis by (simp add: kill_processes_def)
next
  case (nonempty a c ds n)
  have n: "cells (nodes k) a = Some n" using nonempty(3) by (simp add: at_node_def)
  note fields = at_node_fields [OF nonempty(3)]
  show ?thesis
  proof (cases ds)
    case Nil
    with kill_loop_ends [of "cells (nodes k)" a n "[]"] n fields nonempty(1,2) show ?thesis by (simp add: kill_processes_def)
  next
    case (Cons d es)
    with kill_loop_spins [of "cells (nodes k)" a n "[]"] n fields nonempty(1,2) show ?thesis by (simp add: kill_processes_def)
  qed
qed

lemma free_on_exec_correct:
  assumes "has_kids k cs"
  shows "free_on_exec k = Some (ok Map.empty)"
  using assms unfolding has_kids_def
proof (cases rule: represents_cases)
  case empty
  with assms have "cells (nodes k) = Map.empty" by (auto simp: has_kids_def represents_def elim: dseg.elims)
  with empty show ?thesis by (simp add: free_on_exec_def)
next
  case (nonempty a)
  with free_loop_all [of "nodes k" a cs] assms show ?thesis by (simp add: free_on_exec_def has_kids_def)
qed

section \<open>Properties\<close>

definition no_kids :: kids where
  "no_kids = \<lparr> nodes = \<lparr> cells = Map.empty, brk = 0 \<rparr>, first_child = None \<rparr>"

lemma no_kids_ok: "has_kids no_kids []"
  by (auto simp: has_kids_def represents_def no_kids_def intro!: exI [of _ "[]"])



text \<open>
  The functions already_synced, delete_entry and kill_processes walk the list without ever moving on.  They
  return when the first child decides or is the only one; with a second child, already_synced and
  delete_entry never return for any other ID, kill_processes never returns at all, and
  delete_entry on an empty list dereferences NULL.
\<close>

theorem stuck_walks:
  assumes "has_kids k cs"
  shows "already_synced k i =
      (case cs of
         [] \<Rightarrow> Some (ok False)
       | c # ds \<Rightarrow> if to_sync_with c = i then Some (ok True) else if ds = [] then Some (ok False) else None)
    \<and> (delete_entry k i = Some (crash NullDeref) \<longleftrightarrow> cs = [])
    \<and> (delete_entry k i = None \<longleftrightarrow> (\<exists>c d ds. cs = c # d # ds \<and> to_sync_with c \<noteq> i))
    \<and> kill_processes k = (case cs of [] \<Rightarrow> Some (ok []) | [c] \<Rightarrow> Some (ok [last_pid c]) | _ \<Rightarrow> None)"
proof -
  note delete_entry_outcome [OF assms, of i]
  then have "(delete_entry k i = Some (crash NullDeref) \<longleftrightarrow> cs = [])
      \<and> (delete_entry k i = None \<longleftrightarrow> (\<exists>c d ds. cs = c # d # ds \<and> to_sync_with c \<noteq> i))"
    by (cases cs; cases "tl cs") (auto split: if_splits)
  with already_synced_outcome [OF assms] kill_processes_outcome [OF assms] show ?thesis by simp
qed

theorem stuck_walks_witness: "already_synced no_kids ''1'' = Some (ok False) \<and> delete_entry no_kids ''1'' = Some (crash NullDeref)"
  using stuck_walks [OF no_kids_ok, of "''1''"] by simp

end
