(* ===== verification/MirrorClient.thy ===== *)
theory MirrorClient
  imports Children Stdio CTime
begin

text \<open>
  The mirror client (SysPro_Project2/src/mirror\_client/clientSync.c): its scan of the common
  directory, the retries of failed synchronisations and the search for deleted clients.  What comes
  from outside are the result of the k-th fork, the names readdir returns, the exit statuses of the
  processes that reported a failure, and the value the signal handler leaves in sync\_flag each
  time it is read.  A function that returns in the forked child returns there for good, so one run
  of the model is the history of one process.
\<close>

section \<open>State\<close>

record mirror =
  cl_id :: string
  children :: kids
  forked :: nat
  log_file :: "string list"

definition write_log :: "string \<Rightarrow> mirror \<Rightarrow> mirror" where
  "write_log line m = m\<lparr>log_file := log_file m @ [line]\<rparr>"

section \<open>Names of ID files\<close>

text \<open>strtok(name, ".id") on a copy of the name: the string the copy holds afterwards.\<close>

definition id_delim :: "char \<Rightarrow> bool" where
  "id_delim c \<longleftrightarrow> c \<in> set ''.id''"

definition id_of_name :: "string \<Rightarrow> string" where
  "id_of_name name =
     (let rest = dropWhile id_delim name
      in if rest = [] then name else takeWhile id_delim name @ takeWhile (\<lambda>c. \<not> id_delim c) rest)"

definition is_id_file :: "string \<Rightarrow> bool" where
  "is_id_file name \<longleftrightarrow> name \<noteq> [] \<and> last name = CHR ''d''"

fun exists_loop :: "string \<Rightarrow> string list \<Rightarrow> int" where
  "exists_loop i [] = 0"
| "exists_loop i (name # names) =
     (if is_id_file name \<and> strcmp (id_of_name name) i = 0 then 1 else exists_loop i names)"

text \<open>cl_still_exists: the entries of the common directory, None when opendir fails.\<close>

definition cl_still_exists :: "string list option \<Rightarrow> string \<Rightarrow> int" where
  "cl_still_exists common_dir i = (case common_dir of None \<Rightarrow> -1 | Some names \<Rightarrow> exists_loop i names)"

section \<open>Synchronising and retrying\<close>

text \<open>tries\_string has room for one digit.\<close>

definition synch :: "(nat \<Rightarrow> int) \<Rightarrow> string \<Rightarrow> int \<Rightarrow> mirror \<Rightarrow> (fault + int \<times> mirror) option" where
  "synch fork new_id tries m =
     (let tries = tries + 1 in
      if tries < 0 \<or> tries > 9 then Some (crash BadIndex)
      else
        let m = write_log (''Try #'' @ dec (nat tries) @ '' for client '' @ cl_id m @ '' to sync with client '' @ new_id @ ''.'' @ nl) m;
            sync_proc = fork (forked m); m = m\<lparr>forked := forked m + 1\<rparr>
        in if sync_proc = -1 then Some (ok (-1, m))
           else if sync_proc \<noteq> 0 then
             run_then (add_pid (children m) sync_proc new_id) (\<lambda>k. Some (ok (-1, m\<lparr>children := k\<rparr>)))
           else Some (ok (atoi new_id, m)))"

text \<open>The exit status of the process that failed is the ID of the client it was forked for.\<close>

definition retry :: "(nat \<Rightarrow> int) \<Rightarrow> string list option \<Rightarrow> nat \<Rightarrow> mirror \<Rightarrow> (fault + int \<times> mirror) option" where
  "retry fork common_dir status m =
     (let i = dec (status mod 256) in
      if cl_still_exists common_dir i = 0 then
        let m = write_log (''Synching client '' @ cl_id m @ '' with client '' @ i @ '' failed, because it stopped.'' @ nl) m
        in run_then (delete_entry (children m) i) (\<lambda>k. Some (ok (-1, m\<lparr>children := k\<rparr>)))
      else
        run_then (times_tried (children m) i) (\<lambda>tries.
          if tries \<le> 2 then
            synch fork i tries
              (write_log (''Synching client '' @ cl_id m @ '' with client '' @ i @ '' failed. Going to retry.'' @ nl) m)
          else
            Some (ok (-1, write_log (''Client '' @ cl_id m @ '' already tried 3 times to sync with client '' @ i @ ''.'' @ nl) m))))"

fun retry_all :: "(nat \<Rightarrow> int) \<Rightarrow> string list option \<Rightarrow> nat list \<Rightarrow> mirror \<Rightarrow> (fault + int \<times> mirror) option" where
  "retry_all fork common_dir [] m = Some (ok (-1, m))"
| "retry_all fork common_dir (status # rest) m =
     run_then (retry fork common_dir status m) (\<lambda>(new_id, m).
       if new_id \<noteq> -1 then Some (ok (new_id, m)) else retry_all fork common_dir rest m)"

section \<open>The scan of the common directory\<close>

text \<open>The body of the loop over the entries: -1, or the ID the forked child returns with.\<close>

definition visit_entry :: "(nat \<Rightarrow> int) \<Rightarrow> string \<Rightarrow> mirror \<Rightarrow> (fault + int \<times> mirror) option" where
  "visit_entry fork name m =
     (if strcmp name ''.'' \<noteq> 0 \<and> strcmp name ''..'' \<noteq> 0 \<and> is_id_file name then
        let i = id_of_name name in
        if strcmp i (cl_id m) \<noteq> 0 then
          run_then (already_synced (children m) i) (\<lambda>synced.
            if \<not> synced then synch fork i 0 m else Some (ok (-1, m)))
        else Some (ok (-1, m))
      else Some (ok (-1, m)))"

text \<open>Every entry comes with the value of sync_flag after the second of sleep that follows it.\<close>

fun scan :: "(nat \<Rightarrow> int) \<Rightarrow> int \<Rightarrow> (string \<times> int) list \<Rightarrow> mirror \<Rightarrow> (fault + int \<times> int \<times> mirror) option" where
  "scan fork flag [] m = Some (ok (-1, flag, m))"
| "scan fork flag ((name, f) # es) m =
     (if flag \<noteq> 0 then Some (ok (-1, flag, m))
      else
        run_then (visit_entry fork name m) (\<lambda>(new_id, m).
          if new_id \<noteq> -1 then Some (ok (new_id, flag, m)) else scan fork f es m))"

section \<open>Deleted clients\<close>

text \<open>delete_client: 1 when fork fails, 0 in the client, -1 in the child that removes the directory.\<close>

definition delete_client :: "(nat \<Rightarrow> int) \<Rightarrow> string \<Rightarrow> mirror \<Rightarrow> (fault + int \<times> mirror) option" where
  "delete_client fork i m =
     (let child = fork (forked m); m = m\<lparr>forked := forked m + 1\<rparr> in
      if child = -1 then Some (ok (1, m))
      else if child \<noteq> 0 then
        run_then (delete_entry (children m) i) (\<lambda>k. Some (ok (0, m\<lparr>children := k\<rparr>)))
      else Some (ok (-1, m)))"

text \<open>The inner loop, which leaves 1 in del_flag when it finds the ID.\<close>

fun found_loop :: "string \<Rightarrow> string list \<Rightarrow> int \<Rightarrow> int" where
  "found_loop d [] del_flag = del_flag"
| "found_loop d (name # names) del_flag =
     (if strcmp name ''.'' \<noteq> 0 \<and> strcmp name ''..'' \<noteq> 0 \<and> is_id_file name \<and> strcmp (id_of_name name) d = 0 then 1
      else found_loop d names del_flag)"

fun deleted_loop :: "(nat \<Rightarrow> int) \<Rightarrow> string list \<Rightarrow> string list \<Rightarrow> int \<Rightarrow> mirror \<Rightarrow> (fault + int \<times> mirror) option" where
  "deleted_loop fork common [] del_flag m = Some (ok (0, m))"
| "deleted_loop fork common (d # ds) del_flag m =
     (if strcmp d ''.'' \<noteq> 0 \<and> strcmp d ''..'' \<noteq> 0 then
        let del_flag = found_loop d common del_flag in
        if del_flag = 0 then
          run_then (delete_client fork d m) (\<lambda>(r, m).
            if r = -1 then Some (ok (-1, m)) else deleted_loop fork common ds del_flag m)
        else deleted_loop fork common ds 0 m
      else deleted_loop fork common ds del_flag m)"

definition check_for_deleted_clients ::
    "(nat \<Rightarrow> int) \<Rightarrow> string list option \<Rightarrow> string list option \<Rightarrow> mirror \<Rightarrow> (fault + int \<times> mirror) option" where
  "check_for_deleted_clients fork common_dir mirror_dir m =
     (case common_dir of
        None \<Rightarrow> Some (ok (1, m))
      | Some common \<Rightarrow>
          (case mirror_dir of
             None \<Rightarrow> Some (ok (1, m))
           | Some mirror_names \<Rightarrow> deleted_loop fork common mirror_names 0 m))"

section \<open>The main loop\<close>

text \<open>
  What one turn of the outer loop meets: the entries and flags of the scan, the exit statuses read
  from the pipe, the entries cl_still_exists sees, the flag that ends the wait, and the entries of
  the two directories when deleted clients are looked for.
\<close>

record turn =
  scanned :: "(string \<times> int) list"
  failed :: "nat list"
  seen :: "string list option"
  wait_flag :: int
  common_names :: "string list option"
  mirror_names :: "string list option"

text \<open>The result is what check_common_dir returns, None while it is still running.\<close>

fun check_common_dir :: "(nat \<Rightarrow> int) \<Rightarrow> int \<Rightarrow> turn list \<Rightarrow> mirror \<Rightarrow> (fault + int option \<times> mirror) option" where
  "check_common_dir fork flag [] m = Some (ok (None, m))"
| "check_common_dir fork flag (t # ts) m =
     (if flag = 1 then Some (ok (Some (-1), m))
      else
        run_then (scan fork flag (scanned t) m) (\<lambda>(new_id, flag, m).
        if new_id \<noteq> -1 then Some (ok (Some new_id, m))
        else if flag = 1 then Some (ok (Some (-1), m))
        else
          run_then (if flag = 2 then retry_all fork (seen t) (failed t) m else Some (ok (-1, m))) (\<lambda>(new_id, m).
          if new_id \<noteq> -1 then Some (ok (Some new_id, m))
          else
            let flag = (if flag = 2 then 0 else flag);
                flag = (if flag = 0 then wait_flag t else flag)
            in if flag = 1 then Some (ok (Some (-1), m))
               else
                 run_then (check_for_deleted_clients fork (common_names t) (mirror_names t) m) (\<lambda>(c, m).
                   if c = -1 then Some (ok (Some (-2), m))
                   else check_common_dir fork (if flag = -1 then 0 else flag) ts m))))"

section \<open>Names and IDs\<close>

definition plain_id :: "string \<Rightarrow> bool" where
  "plain_id i \<longleftrightarrow> i \<noteq> [] \<and> (\<forall>c \<in> set i. \<not> id_delim c)"

definition id_file :: "string \<Rightarrow> string" where "id_file i = i @ ''.id''"

lemma id_of_id_file: "plain_id i \<Longrightarrow> id_of_name (id_file i) = i"
proof -
  assume plain: "plain_id i"
  then have "takeWhile id_delim (id_file i) = []" "dropWhile id_delim (id_file i) = id_file i"
    by (cases i; simp add: plain_id_def id_file_def)+
  moreover have "takeWhile (\<lambda>c. \<not> id_delim c) (id_file i) = i"
    unfolding id_file_def using plain by (subst takeWhile_append2) (auto simp: plain_id_def id_delim_def)
  moreover have "id_file i \<noteq> []" by (simp add: id_file_def)
  ultimately show ?thesis by (simp add: id_of_name_def Let_def)
qed

lemma id_file_facts: "plain_id i \<Longrightarrow> id_file i \<noteq> ''.'' \<and> id_file i \<noteq> ''..'' \<and> is_id_file (id_file i)"
  by (cases i) (auto simp: id_file_def is_id_file_def plain_id_def id_delim_def)

lemma exists_loop_iff:
  "exists_loop i names = (if \<exists>n \<in> set names. is_id_file n \<and> id_of_name n = i then 1 else 0)"
  by (induction names) auto

lemma found_loop_iff:
  "found_loop d names del = (if \<exists>n \<in> set names. n \<noteq> ''.'' \<and> n \<noteq> ''..'' \<and> is_id_file n \<and> id_of_name n = d then 1 else del)"
  by (induction names) auto

section \<open>The budget of tries\<close>

definition within_budget :: "children_list list \<Rightarrow> bool" where
  "within_budget cs \<longleftrightarrow> distinct (map to_sync_with cs) \<and> (\<forall>c \<in> set cs. 1 \<le> times c \<and> times c \<le> 3)"

definition mirror_ok :: "mirror \<Rightarrow> bool" where
  "mirror_ok m \<longleftrightarrow> (\<exists>cs. has_kids (children m) cs \<and> within_budget cs)"

text \<open>A computation that may not return, or dereference NULL, and otherwise yields P.\<close>

definition yields :: "(fault + 'a) option \<Rightarrow> ('a \<Rightarrow> bool) \<Rightarrow> bool" where
  "yields r P \<longleftrightarrow> (\<forall>f. r = Some (Inl f) \<longrightarrow> f = NullDeref) \<and> (\<forall>x. r = Some (Inr x) \<longrightarrow> P x)"

lemma yields_ok [simp]: "yields (Some (ok x)) P = P x"
  by (simp add: yields_def)

lemma yields_run_then: "yields r P \<Longrightarrow> (\<And>x. P x \<Longrightarrow> yields (f x) Q) \<Longrightarrow> yields (run_then r f) Q"
  by (auto simp: yields_def run_then_def split: option.splits sum.splits)

lemma mirror_ok_fields [simp]:
  "mirror_ok (m\<lparr>forked := n\<rparr>) = mirror_ok m" "mirror_ok (write_log l m) = mirror_ok m"
  "children (write_log l m) = children m"
  by (simp_all add: mirror_ok_def write_log_def)

lemma to_sync_with_bump:
  "map to_sync_with (bump pid i cs) = map to_sync_with cs @ (if i \<in> to_sync_with ` set cs then [] else [i])"
  by (induction cs) (auto simp: fresh_child_def)

lemma bump_times:
  "c \<in> set (bump pid i cs) \<Longrightarrow> c \<in> set cs \<or> times c = tries_of i cs + 1"
  by (induction cs) (auto simp: fresh_child_def split: if_splits)

lemma tries_of_nonneg: "within_budget cs \<Longrightarrow> 0 \<le> tries_of i cs \<and> tries_of i cs \<le> 3"
  by (induction cs) (auto simp: within_budget_def)

lemma bump_within: "within_budget cs \<Longrightarrow> tries_of i cs \<le> 2 \<Longrightarrow> within_budget (bump pid i cs)"
  using tries_of_nonneg [of cs i] bump_times [of _ pid i cs]
  by (fastforce simp: within_budget_def to_sync_with_bump)

lemma synch_yields:
  assumes "has_kids (children m) cs" "within_budget cs" "tries_of i cs \<le> 2" "0 \<le> t" "t \<le> 2"
  shows "yields (synch fork i t m) (\<lambda>(r, m'). mirror_ok m')"
proof -
  obtain k where k: "add_pid (children m) (fork (forked m)) i = Some (ok k)" "has_kids k (bump (fork (forked m)) i cs)"
    using add_pid_correct [OF assms(1)] by blast
  have "mirror_ok m" using assms(1,2) by (auto simp: mirror_ok_def)
  moreover have "mirror_ok (m'\<lparr>children := k\<rparr>)" for m'
    using k(2) bump_within [OF assms(2,3)] by (auto simp: mirror_ok_def)
  ultimately show ?thesis
    using assms(4,5) k(1) by (simp add: synch_def Let_def write_log_def) (simp add: write_log_def mirror_ok_def)
qed

lemma delete_entry_yields:
  assumes "has_kids k cs" "within_budget cs"
  shows "yields (delete_entry k i) (\<lambda>k'. \<exists>cs'. has_kids k' cs' \<and> within_budget cs')"
  using delete_entry_outcome [OF assms(1), of i] assms
  by (cases cs) (auto simp: yields_def within_budget_def split: if_splits)

lemma retry_yields: "mirror_ok m \<Longrightarrow> yields (retry fork common status m) (\<lambda>(r, m'). mirror_ok m')"
proof -
  assume "mirror_ok m"
  then obtain cs where cs: "has_kids (children m) cs" "within_budget cs" by (auto simp: mirror_ok_def)
  have del: "yields (run_then (delete_entry (children m) i) (\<lambda>k. Some (ok (-1, m'\<lparr>children := k\<rparr>)))) (\<lambda>(r, m'). mirror_ok m')"
    for i and m' :: mirror
    by (rule yields_run_then [OF delete_entry_yields [OF cs]]) (simp add: mirror_ok_def)
  show ?thesis
    using del cs tries_of_nonneg [OF cs(2)] \<open>mirror_ok m\<close>
    by (auto simp: retry_def Let_def times_tried_correct [OF cs(1)] intro!: synch_yields)
qed

lemma retry_all_yields: "mirror_ok m \<Longrightarrow> yields (retry_all fork common fs m) (\<lambda>(r, m'). mirror_ok m')"
proof (induction fs arbitrary: m)
  case Nil
  then show ?case by simp
next
  case (Cons f fs)
  show ?case unfolding retry_all.simps
    by (rule yields_run_then [OF retry_yields [OF Cons.prems]]) (auto intro: Cons.IH)
qed

lemma tries_of_unknown: "i \<notin> to_sync_with ` set cs \<Longrightarrow> tries_of i cs = 0"
  by (induction cs) auto

lemma visit_entry_yields: "mirror_ok m \<Longrightarrow> yields (visit_entry fork name m) (\<lambda>(r, m'). mirror_ok m')"
proof -
  assume ok: "mirror_ok m"
  then obtain cs where cs: "has_kids (children m) cs" "within_budget cs" by (auto simp: mirror_ok_def)
  have "yields (run_then (already_synced (children m) i) (\<lambda>synced. if \<not> synced then synch fork i 0 m else Some (ok (-1, m))))
      (\<lambda>(r, m'). mirror_ok m')" for i
  proof (rule yields_run_then [where P = "\<lambda>synced. synced \<or> tries_of i cs = 0"])
    show "yields (already_synced (children m) i) (\<lambda>synced. synced \<or> tries_of i cs = 0)"
      using already_synced_outcome [OF cs(1), of i] by (cases cs) (auto simp: yields_def split: if_splits)
    show "yields (if \<not> x then synch fork i 0 m else Some (ok (-1, m))) (\<lambda>(r, m'). mirror_ok m')"
      if "x \<or> tries_of i cs = 0" for x
      using that ok by (auto intro!: synch_yields [OF cs])
  qed
  with ok show ?thesis by (simp add: visit_entry_def Let_def)
qed

lemma scan_yields: "mirror_ok m \<Longrightarrow> yields (scan fork flag es m) (\<lambda>(r, f, m'). mirror_ok m')"
proof (induction es arbitrary: flag m)
  case Nil
  then show ?case by simp
next
  case (Cons e es)
  obtain name f where e: "e = (name, f)" by (cases e)
  have "yields (run_then (visit_entry fork name m) (\<lambda>(r, m). if r \<noteq> -1 then Some (ok (r, flag, m)) else scan fork f es m))
      (\<lambda>(r, f, m'). mirror_ok m')"
    by (rule yields_run_then [OF visit_entry_yields [OF Cons.prems]]) (auto intro: Cons.IH)
  with Cons.prems e show ?case by simp
qed

lemma delete_client_yields: "mirror_ok m \<Longrightarrow> yields (delete_client fork d m) (\<lambda>(r, m'). mirror_ok m')"
proof -
  assume ok: "mirror_ok m"
  then obtain cs where cs: "has_kids (children m) cs" "within_budget cs" by (auto simp: mirror_ok_def)
  have "yields (run_then (delete_entry (children m) d) (\<lambda>k. Some (ok (0 :: int, m\<lparr>forked := forked m + 1\<rparr>\<lparr>children := k\<rparr>))))
      (\<lambda>(r, m'). mirror_ok m')"
    by (rule yields_run_then [OF delete_entry_yields [OF cs]]) (simp add: mirror_ok_def)
  with ok show ?thesis by (simp add: delete_client_def Let_def)
qed

lemma deleted_loop_yields: "mirror_ok m \<Longrightarrow> yields (deleted_loop fork common ds del m) (\<lambda>(r, m'). mirror_ok m')"
proof (induction ds arbitrary: del m)
  case Nil
  then show ?case by simp
next
  case (Cons d ds)
  have "yields (run_then (delete_client fork d m) (\<lambda>(r, m). if r = -1 then Some (ok (-1, m)) else deleted_loop fork common ds x m))
      (\<lambda>(r, m'). mirror_ok m')" for x
    by (rule yields_run_then [OF delete_client_yields [OF Cons.prems]]) (auto intro: Cons.IH)
  with Cons show ?case by (simp add: Let_def)
qed


lemma check_common_dir_yields: "mirror_ok m \<Longrightarrow> yields (check_common_dir fork flag ts m) (\<lambda>(r, m'). mirror_ok m')"
proof (induction ts arbitrary: flag m)
  case Nil
  then show ?case by simp
next
  case (Cons t ts)
  have deleted: "yields (check_for_deleted_clients fork (common_names t) (mirror_names t) m) (\<lambda>(r, m'). mirror_ok m')"
    if "mirror_ok m" for m
    using that by (auto simp: check_for_deleted_clients_def deleted_loop_yields split: option.splits)
  have tail: "yields (run_then (check_for_deleted_clients fork (common_names t) (mirror_names t) m) (\<lambda>(c, m).
             if c = -1 then Some (ok (Some (-2), m)) else check_common_dir fork g ts m))
      (\<lambda>(r, m'). mirror_ok m')" if "mirror_ok m" for g m
    by (rule yields_run_then [OF deleted [OF that]]) (auto intro: Cons.IH)
  show ?case
  proof (cases "flag = 1")
    case True
    with Cons.prems show ?thesis by simp
  next
    case False
    show ?thesis
      unfolding check_common_dir.simps if_not_P [OF False]
      apply (rule yields_run_then [OF scan_yields [OF Cons.prems]])
      apply (clarify, rename_tac new_id fl m1)
      apply (simp only: split: if_split)
      apply (intro conjI impI; (simp; fail)?)
      subgoal for new_id fl m1
        by (rule yields_run_then [OF retry_all_yields], assumption) (auto simp: Let_def tail)
      subgoal for new_id fl m1
        by (simp add: Let_def tail)
      done
  qed
qed


section \<open>Properties\<close>


definition new_mirror :: "string \<Rightarrow> mirror" where
  "new_mirror i = \<lparr> cl_id = i, children = no_kids, forked = 0, log_file = [] \<rparr>"


text \<open>
  An entry of the common directory stops the scan for ever exactly when it is the ID file of
  another client, at least two clients are listed already, and this one is not the first of them.
\<close>

theorem scan_hangs_iff:
  assumes "has_kids (children m) cs"
  shows "visit_entry fork name m = None \<longleftrightarrow>
    name \<noteq> ''.'' \<and> name \<noteq> ''..'' \<and> is_id_file name \<and> id_of_name name \<noteq> cl_id m
    \<and> (\<exists>c d ds. cs = c # d # ds \<and> to_sync_with c \<noteq> id_of_name name)"
proof -
  have returns: "synch fork i 0 m \<noteq> None" for i
  proof -
    obtain k where "add_pid (children m) (fork (forked m)) i = Some (ok k)" using add_pid_correct [OF assms] by blast
    then show ?thesis by (simp add: synch_def Let_def write_log_def)
  qed
  show ?thesis
    using already_synced_outcome [OF assms, of "id_of_name name"] returns
    by (cases cs; cases "tl cs") (auto simp: visit_entry_def Let_def)
qed

theorem scan_hangs_iff_witness:
  "visit_entry (\<lambda>k. 7) ''2.id'' (new_mirror ''1'') = None \<longleftrightarrow>
    ''2.id'' \<noteq> ''.'' \<and> ''2.id'' \<noteq> ''..'' \<and> is_id_file ''2.id'' \<and> id_of_name ''2.id'' \<noteq> cl_id (new_mirror ''1'')
    \<and> (\<exists>c d ds. ([] :: children_list list) = c # d # ds \<and> to_sync_with c \<noteq> id_of_name ''2.id'')"
  by (rule scan_hangs_iff) (simp add: new_mirror_def no_kids_ok)

text \<open>
  So a client that meets two others never gets through its second scan, whatever else happens:
  with the ID files of two other clients in the common directory and successful forks, the first
  turn forks for both of them, and the second turn does not return.
\<close>

theorem two_others_hang:
  assumes "plain_id a" "plain_id b" "a \<noteq> b" "a \<noteq> cl_id m" "b \<noteq> cl_id m" "has_kids (children m) []"
    and "\<And>k. 0 < fork k"
  shows "check_common_dir fork 0
      (\<lparr> scanned = [(id_file a, 0), (id_file b, 0)], failed = fs, seen = s, wait_flag = -1,
         common_names = None, mirror_names = d \<rparr> #
       \<lparr> scanned = (id_file a, 0) # (id_file b, g) # es, failed = fs', seen = s', wait_flag = w,
         common_names = c', mirror_names = d' \<rparr> # rest) m = None"
proof -
  have first: "\<exists>m'. visit_entry fork (id_file i) m = Some (ok (-1, m')) \<and> cl_id m' = cl_id m
      \<and> has_kids (children m') (cs @ [fresh_child (fork (forked m)) i])"
    if m: "has_kids (children m) cs" "length cs \<le> 1" "i \<notin> to_sync_with ` set cs" "plain_id i" "i \<noteq> cl_id m" for m cs i
  proof -
    obtain k where k: "add_pid (children m) (fork (forked m)) i = Some (ok k)" "has_kids k (bump (fork (forked m)) i cs)"
      using add_pid_correct [OF m(1)] by blast
    have b: "bump (fork (forked m)) i cs = cs @ [fresh_child (fork (forked m)) i]" using m(3) by (induction cs) auto
    have "already_synced (children m) i = Some (ok False)"
      using already_synced_outcome [OF m(1), of i] m(2,3) by (cases cs) auto
    moreover have "fork (forked m) \<noteq> -1 \<and> fork (forked m) \<noteq> 0" using assms(7) [of "forked m"] by auto
    ultimately show ?thesis
      using k b m(4,5) id_file_facts [OF m(4)] by (simp add: visit_entry_def id_of_id_file synch_def Let_def write_log_def)
  qed
  obtain m1 where m1: "visit_entry fork (id_file a) m = Some (ok (-1, m1))" "cl_id m1 = cl_id m"
      "has_kids (children m1) [fresh_child (fork (forked m)) a]"
    using first [of m "[]" a] assms by auto
  obtain m2 where m2: "visit_entry fork (id_file b) m1 = Some (ok (-1, m2))" "cl_id m2 = cl_id m"
      "has_kids (children m2) [fresh_child (fork (forked m)) a, fresh_child (fork (forked m1)) b]"
    using first [of m1 "[fresh_child (fork (forked m)) a]" b] assms m1 by (auto simp: fresh_child_def)
  have again: "visit_entry fork (id_file a) m2 = Some (ok (-1, m2))"
    using already_synced_outcome [OF m2(3), of a] id_file_facts [OF assms(1)] assms(1,4) m2(2)
    by (simp add: visit_entry_def id_of_id_file fresh_child_def)
  have hang: "visit_entry fork (id_file b) m2 = None"
    using scan_hangs_iff [OF m2(3), of fork "id_file b"] id_file_facts [OF assms(2)] assms(2,3,5) m2(2)
    by (simp add: id_of_id_file fresh_child_def)
  show ?thesis using m1(1) m2(1) again hang by (simp add: check_for_deleted_clients_def)
qed


theorem two_others_hang_witness:
  "check_common_dir (\<lambda>k. 100) 0
      [\<lparr> scanned = [(id_file ''2'', 0), (id_file ''3'', 0)], failed = [], seen = None, wait_flag = -1,
         common_names = None, mirror_names = None \<rparr>,
       \<lparr> scanned = [(id_file ''2'', 0), (id_file ''3'', 0)], failed = [], seen = None, wait_flag = -1,
         common_names = None, mirror_names = None \<rparr>] (new_mirror ''1'') = None"
  by (rule two_others_hang) (simp_all add: plain_id_def id_delim_def new_mirror_def no_kids_ok)

text \<open>The clients to delete, in the order of the mirror directory\<close>

fun delete_all :: "(nat \<Rightarrow> int) \<Rightarrow> string list \<Rightarrow> mirror \<Rightarrow> (fault + int \<times> mirror) option" where
  "delete_all fork [] m = Some (ok (0, m))"
| "delete_all fork (d # ds) m =
     run_then (delete_client fork d m) (\<lambda>(r, m). if r = -1 then Some (ok (-1, m)) else delete_all fork ds m)"

definition present :: "string list \<Rightarrow> string \<Rightarrow> bool" where
  "present common d \<longleftrightarrow> (\<exists>n \<in> set common. n \<noteq> ''.'' \<and> n \<noteq> ''..'' \<and> is_id_file n \<and> id_of_name n = d)"

text \<open>
  The two nested loops over the directories, with the flag they share, call delete_client
  exactly for the entries of the mirror directory, apart from the two dots, to which no ID file of
  the common directory belongs, in their order.
\<close>

theorem deletes_exactly_absent:
  "check_for_deleted_clients fork (Some common) (Some mirrored) m =
    delete_all fork [d \<leftarrow> mirrored. d \<noteq> ''.'' \<and> d \<noteq> ''..'' \<and> \<not> present common d] m"
proof -
  have "deleted_loop fork common ds 0 m = delete_all fork [d \<leftarrow> ds. d \<noteq> ''.'' \<and> d \<noteq> ''..'' \<and> \<not> present common d] m" for ds m
  proof (induction ds arbitrary: m)
    case Nil
    then show ?case by simp
  next
    case (Cons d ds)
    then have eq: "deleted_loop fork common ds 0 = delete_all fork [d \<leftarrow> ds. d \<noteq> ''.'' \<and> d \<noteq> ''..'' \<and> \<not> present common d]"
      by (simp add: fun_eq_iff)
    have "found_loop d common 0 = (if present common d then 1 else 0)" by (simp add: found_loop_iff present_def)
    then show ?case by (simp add: eq Let_def cong: if_cong)
  qed
  then show ?thesis by (simp add: check_for_deleted_clients_def)
qed

end
