(* ===== verification/FileTree.thy ===== *)
theory FileTree
  imports Prelude
begin

text \<open>
  Directories as the mirror client sees them (SysPro_Project2/src/mirror_client/dirControl.c): the
  path functions, is_dir, and remove_dir on a directory tree.  A directory lists its entries in the
  order readdir delivers them, without "." and "..", which all loops skip.
\<close>

section \<open>Trees and paths\<close>

datatype node = File string | Dir "(string \<times> node) list"

definition append_to_rel_path :: "string \<Rightarrow> string \<Rightarrow> string" where
  "append_to_rel_path dir name = dir @ ''/'' @ name"

definition get_fifo_name :: "string \<Rightarrow> string \<Rightarrow> string \<Rightarrow> string" where
  "get_fifo_name common_dir_path id1 id2 = common_dir_path @ ''/'' @ id1 @ ''_to_'' @ id2 @ ''.fifo''"

text \<open>stat fails for what is not there, and the 2 counts as true where the result is tested.\<close>

definition is_dir :: "node option \<Rightarrow> nat" where
  "is_dir n = (case n of None \<Rightarrow> 2 | Some (Dir es) \<Rightarrow> 1 | Some (File c) \<Rightarrow> 0)"

lemma entry_size: "(n, t) \<in> set es \<Longrightarrow> size t < Suc (size_list (size_prod (\<lambda>x. 0) size) es)"
  by (induction es) auto

section \<open>remove_dir\<close>

text \<open>
  The loop over the entries: rm removes one entry and says what is left of it.  The first entry
  that fails ends the loop with 1.
\<close>

fun remove_entries :: "(string \<Rightarrow> node \<Rightarrow> nat \<times> node option) \<Rightarrow> (string \<times> node) list \<Rightarrow> nat \<times> (string \<times> node) list" where
  "remove_entries rm [] = (0, [])"
| "remove_entries rm ((name, t) # es) =
     (case rm name t of (ret, left) \<Rightarrow>
        let kept = (case left of None \<Rightarrow> [] | Some t' \<Rightarrow> [(name, t')])
        in if ret \<noteq> 0 then (1, kept @ es)
           else (case remove_entries rm es of (ret, es') \<Rightarrow> (ret, kept @ es')))"

lemma remove_entries_cong [fundef_cong]:
  "es = es' \<Longrightarrow> (\<And>name t. (name, t) \<in> set es' \<Longrightarrow> rm name t = rm' name t) \<Longrightarrow> remove_entries rm es = remove_entries rm' es'"
proof (induction es arbitrary: es')
  case (Cons e es)
  obtain name t where "e = (name, t)" by fastforce
  moreover from this have "rm name t = rm' name t" "remove_entries rm es = remove_entries rm' es"
    using Cons by auto
  ultimately show ?case using Cons.prems(1) by (auto cong: if_cong simp: Let_def)
qed simp

text \<open>
  may says whether opendir and unlink work on a path, rmdir_works whether rmdir does; the result of
  rmdir is not looked at.
\<close>

function remove_dir :: "(string \<Rightarrow> bool) \<Rightarrow> (string \<Rightarrow> bool) \<Rightarrow> string \<Rightarrow> node \<Rightarrow> nat \<times> node option" where
  "remove_dir may rmdir_works dir_path (File c) = (1, Some (File c))"
| "remove_dir may rmdir_works dir_path (Dir es) =
     (if \<not> may dir_path then (1, Some (Dir es))
      else
        (case remove_entries (\<lambda>name t.
             let path_buf = dir_path @ ''/'' @ name
             in if is_dir (Some t) \<noteq> 0 then remove_dir may rmdir_works path_buf t
                else if may path_buf then (0, None) else (1, Some t)) es
         of (ret, es') \<Rightarrow>
           if ret \<noteq> 0 then (1, Some (Dir es'))
           else (0, if es' = [] \<and> rmdir_works dir_path then None else Some (Dir es'))))"
  by pat_completeness auto
termination
  by (relation "measure (\<lambda>(may, rmdir_works, p, t). size t)") (auto simp: entry_size)

text \<open>The call on a path: 2 when there is nothing.\<close>

definition remove_dir_at :: "(string \<Rightarrow> bool) \<Rightarrow> (string \<Rightarrow> bool) \<Rightarrow> string \<Rightarrow> node option \<Rightarrow> nat \<times> node option" where
  "remove_dir_at may rmdir_works dir_path n =
     (case n of None \<Rightarrow> (2, None) | Some t \<Rightarrow> remove_dir may rmdir_works dir_path t)"

text \<open>The files of a tree with their names from a directory on\<close>

fun files_below :: "string list \<Rightarrow> node \<Rightarrow> (string list \<times> string) list" where
  "files_below ns (File c) = [(ns, c)]"
| "files_below ns (Dir es) = concat (map (\<lambda>(name, t). files_below (ns @ [name]) t) es)"

lemma files_below_entries [simp]:
  "files_below ns (Dir []) = []"
  "files_below ns (Dir ((name, t) # es)) = files_below (ns @ [name]) t @ files_below ns (Dir es)"
  by simp_all

declare files_below.simps(2) [simp del]

lemma remove_entries_files:
  assumes "\<And>name t ret t'. (name, t) \<in> set es \<Longrightarrow> rm name t = (ret, Some t') \<Longrightarrow>
      set (files_below (ns @ [name]) t') \<subseteq> set (files_below (ns @ [name]) t)
      \<and> (ret = 0 \<longrightarrow> files_below (ns @ [name]) t' = [])"
  shows "set (files_below ns (Dir (snd (remove_entries rm es)))) \<subseteq> set (files_below ns (Dir es))
    \<and> (fst (remove_entries rm es) = 0 \<longrightarrow> files_below ns (Dir (snd (remove_entries rm es))) = [])"
  using assms
proof (induction es)
  case (Cons e es)
  obtain name t where e: "e = (name, t)" by fastforce
  obtain ret left where rm: "rm name t = (ret, left)" by fastforce
  have IH: "set (files_below ns (Dir (snd (remove_entries rm es)))) \<subseteq> set (files_below ns (Dir es))
      \<and> (fst (remove_entries rm es) = 0 \<longrightarrow> files_below ns (Dir (snd (remove_entries rm es))) = [])"
    using Cons by (metis list.set_intros(2))
  have left: "set (files_below (ns @ [name]) t') \<subseteq> set (files_below (ns @ [name]) t)
      \<and> (ret = 0 \<longrightarrow> files_below (ns @ [name]) t' = [])" if "left = Some t'" for t'
    using Cons.prems [of name t ret t'] e rm that by simp
  show ?case
  proof (cases "ret = 0")
    case False
    then show ?thesis using left rm e by (cases left) auto
  next
    case True
    obtain r' es' where rest: "remove_entries rm es = (r', es')" by fastforce
    with True left rm e IH show ?thesis by (cases left) auto
  qed
qed simp

lemma remove_entries_all:
  "(\<And>name t. (name, t) \<in> set es \<Longrightarrow> rm name t = (0, None)) \<Longrightarrow> remove_entries rm es = (0, [])"
  by (induction es) auto

text \<open>
  C27: Remove_dir always ends.  What it leaves are files that were there before; when it returns
  0 no file is left, whatever the system refused; and when the system refuses nothing the whole
  tree is gone.
\<close>

theorem remove_dir_outcome:
  "(case remove_dir may rmdir_works p t of (ret, left) \<Rightarrow>
      (\<forall>t'. left = Some t' \<longrightarrow> set (files_below ns t') \<subseteq> set (files_below ns t) \<and> (ret = 0 \<longrightarrow> files_below ns t' = []))
      \<and> ((\<forall>q. may q \<and> rmdir_works q) \<and> is_dir (Some t) = 1 \<longrightarrow> ret = 0 \<and> left = None))"
proof (induction may rmdir_works p t arbitrary: ns rule: remove_dir.induct)
  case (1 may rmdir_works p c)
  then show ?case by (simp add: is_dir_def)
next
  case (2 may rmdir_works p es)
  let ?rm = "\<lambda>name t. let path_buf = p @ ''/'' @ name
             in if is_dir (Some t) \<noteq> 0 then remove_dir may rmdir_works path_buf t
                else if may path_buf then (0, None) else (1, Some t)"
  show ?case
  proof (cases "may p")
    case False
    then show ?thesis by auto
  next
    case True
    have sub: "set (files_below (ns @ [name]) t') \<subseteq> set (files_below (ns @ [name]) t)
        \<and> (ret = 0 \<longrightarrow> files_below (ns @ [name]) t' = [])"
      if "(name, t) \<in> set es" "?rm name t = (ret, Some t')" for name t ret t'
      using 2 [OF _ that(1) refl, of "ns @ [name]"] True that(2) by (auto simp: Let_def split: if_splits)
    have all: "?rm name t = (0, None)" if "(name, t) \<in> set es" "\<forall>q. may q \<and> rmdir_works q" for name t
    proof (cases t)
      case (File c)
      with that(2) show ?thesis by (simp add: is_dir_def)
    next
      case (Dir xs)
      obtain ret left where r: "remove_dir may rmdir_works (p @ ''/'' @ name) t = (ret, left)" by fastforce
      have "is_dir (Some t) \<noteq> 0" using Dir by (simp add: is_dir_def)
      from 2 [OF _ that(1) refl this] True
      have "(\<forall>q. may q \<and> rmdir_works q) \<and> is_dir (Some t) = 1 \<longrightarrow> ret = 0 \<and> left = None"
        unfolding r by simp
      then have "ret = 0 \<and> left = None" using that(2) Dir by (simp add: is_dir_def)
      with r Dir show ?thesis by (simp add: is_dir_def del: remove_dir.simps)
    qed
    obtain ret es' where rem: "remove_entries ?rm es = (ret, es')" by fastforce
    have "set (files_below ns (Dir es')) \<subseteq> set (files_below ns (Dir es)) \<and> (ret = 0 \<longrightarrow> files_below ns (Dir es') = [])"
      using remove_entries_files [of es ?rm ns] sub rem by simp
    moreover have "ret = 0 \<and> es' = []" if "\<forall>q. may q \<and> rmdir_works q"
    proof -
      have "remove_entries ?rm es = (0, [])" by (rule remove_entries_all) (rule all [OF _ that])
      with rem show ?thesis by simp
    qed
    ultimately show ?thesis using True rem by (auto simp del: files_below.simps)
  qed
qed

theorem remove_dir_outcome_witness:
  "remove_dir (\<lambda>q. True) (\<lambda>q. True) ''m'' (Dir [(''a'', File ''x''), (''d'', Dir [(''b'', File [])])]) = (0, None)"
  using remove_dir_outcome [where may = "\<lambda>q. True" and rmdir_works = "\<lambda>q. True" and p = "''m''" and ns = "[]"
      and t = "Dir [(''a'', File ''x''), (''d'', Dir [(''b'', File [])])]"]
  by (auto simp: is_dir_def simp del: remove_dir.simps split: prod.splits)

end
