(* ===== verification/SyncProc.thy ===== *)
theory SyncProc
  imports FileTree Stdio
begin

text \<open>
  The process that synchronises with one other client (SysPro_Project2/src/mirror_client/sync.c): it
  forks a sender and a receiver, waits for them, and reports a failure to the mirror client.  The
  value of the flag at each of its tests, the success of fork and exec, how the children end and
  which poll finds them ended come from outside.
\<close>

section \<open>Children\<close>

datatype wait_status = Exited nat | Killed nat

text \<open>WEXITSTATUS reads the second byte of the status, which is 0 for a process a signal killed.\<close>

definition WEXITSTATUS :: "wait_status \<Rightarrow> nat" where
  "WEXITSTATUS st = (case st of Exited n \<Rightarrow> n mod 256 | Killed sig \<Rightarrow> 0)"

text \<open>A child whose execl fails returns -1; None is a program that never ends.\<close>

definition child_ends :: "bool \<Rightarrow> wait_status option \<Rightarrow> wait_status option" where
  "child_ends exec_works program = (if exec_works then program else Some (Exited 255))"

record sync_env =
  flag_at :: "nat \<Rightarrow> nat"
  send_forks :: bool
  receive_forks :: bool
  send_execs :: bool
  receive_execs :: bool
  send_program :: "wait_status option"
  receive_program :: "wait_status option"
  receive_polled :: "nat \<Rightarrow> bool"
  send_polled :: "nat \<Rightarrow> bool"

definition send_ends :: "sync_env \<Rightarrow> wait_status option" where
  "send_ends e = child_ends (send_execs e) (send_program e)"

definition receive_ends :: "sync_env \<Rightarrow> wait_status option" where
  "receive_ends e = child_ends (receive_execs e) (receive_program e)"

text \<open>What waitpid with WNOHANG finds in the k-th turn of the loop.\<close>

definition polled_receiver :: "sync_env \<Rightarrow> nat \<Rightarrow> wait_status option" where
  "polled_receiver e k = (if receive_polled e k then receive_ends e else None)"

definition polled_sender :: "sync_env \<Rightarrow> nat \<Rightarrow> wait_status option" where
  "polled_sender e k = (if send_polled e k then send_ends e else None)"

section \<open>The process\<close>

text \<open>SIGUSR1 to a child, the removal of the other client's files, and the report to the parent.\<close>

datatype act = Stop_sender | Stop_receiver | Remove string | Write_pid | Tell_parent

type_synonym verdict = "int \<times> act list"

definition give_up :: "string \<Rightarrow> act list \<Rightarrow> verdict" where
  "give_up new_id acts = (atoi new_id, acts @ [Write_pid, Tell_parent])"

definition clean_up :: "string \<Rightarrow> string \<Rightarrow> act" where
  "clean_up mirror_dir_path new_id = Remove (append_to_rel_path mirror_dir_path new_id)"

text \<open>
  The flag was set: 1 is a signal from outside, 2 the mirror client that ends.  The children are
  stopped and the flag is read again.
\<close>

definition on_flag :: "string \<Rightarrow> string \<Rightarrow> nat \<Rightarrow> act list \<Rightarrow> verdict" where
  "on_flag mirror_dir_path new_id flag acts =
     (if flag = 1 then give_up new_id (acts @ [clean_up mirror_dir_path new_id]) else (0, acts))"

text \<open>
  The loop of waitpid with WNOHANG: what ended it is a flag, or the children found ended by the
  k-th turn.
\<close>

partial_function (option) wait_loop ::
    "sync_env \<Rightarrow> string \<Rightarrow> string \<Rightarrow> nat \<Rightarrow> (verdict + nat \<times> wait_status option \<times> wait_status option) option" where
  "wait_loop e mirror_dir_path new_id k =
     (if flag_at e (4 + 2 * k) \<noteq> 0 then
        Some (Inl (on_flag mirror_dir_path new_id (flag_at e (5 + 2 * k)) [Stop_sender, Stop_receiver]))
      else if polled_receiver e k = None \<and> polled_sender e k = None then wait_loop e mirror_dir_path new_id (k + 1)
      else Some (Inr (k, polled_receiver e k, polled_sender e k)))"

text \<open>
  The other child of one that ended without error: a flag stops it, else it is waited for.  When
  the loop has found both ended, the second waitpid fails and leaves the status as it is.
\<close>

definition await_other ::
    "sync_env \<Rightarrow> string \<Rightarrow> string \<Rightarrow> nat \<Rightarrow> act \<Rightarrow> wait_status option \<Rightarrow> wait_status option \<Rightarrow> verdict option" where
  "await_other e mirror_dir_path new_id k stop polled ends =
     (if flag_at e (6 + 2 * k) \<noteq> 0 then Some (on_flag mirror_dir_path new_id (flag_at e (7 + 2 * k)) [stop])
      else
        Option.bind (case polled of Some st \<Rightarrow> Some st | None \<Rightarrow> ends) (\<lambda>st.
          Some (if WEXITSTATUS st \<noteq> 0 then give_up new_id [clean_up mirror_dir_path new_id] else (0, []))))"

definition after_wait ::
    "sync_env \<Rightarrow> string \<Rightarrow> string \<Rightarrow> nat \<Rightarrow> wait_status option \<Rightarrow> wait_status option \<Rightarrow> verdict option" where
  "after_wait e mirror_dir_path new_id k w_ret1 w_ret2 =
     (case w_ret1 of
        Some receive_status \<Rightarrow>
          if WEXITSTATUS receive_status \<noteq> 0 then
            Some (give_up new_id [clean_up mirror_dir_path new_id, Stop_sender])
          else await_other e mirror_dir_path new_id k Stop_sender w_ret2 (send_ends e)
      | None \<Rightarrow>
          (case w_ret2 of
             Some send_status \<Rightarrow>
               if WEXITSTATUS send_status \<noteq> 0 then
                 Some (give_up new_id [Stop_receiver, clean_up mirror_dir_path new_id])
               else await_other e mirror_dir_path new_id k Stop_receiver None (receive_ends e)
           | None \<Rightarrow> Some (0, [])))"

definition sync :: "sync_env \<Rightarrow> string \<Rightarrow> string \<Rightarrow> verdict option" where
  "sync e mirror_dir_path new_id =
     (if flag_at e 0 \<noteq> 0 then Some (if flag_at e 1 = 1 then give_up new_id [] else (0, []))
      else if \<not> send_forks e then Some (give_up new_id [])
      else if \<not> receive_forks e then Some (give_up new_id [Stop_sender])
      else if flag_at e 2 \<noteq> 0 then
        Some (on_flag mirror_dir_path new_id (flag_at e 3) [Stop_sender, Stop_receiver])
      else
        Option.bind (wait_loop e mirror_dir_path new_id 0) (\<lambda>r.
          case r of Inl v \<Rightarrow> Some v
          | Inr (k, w_ret1, w_ret2) \<Rightarrow> after_wait e mirror_dir_path new_id k w_ret1 w_ret2))"

section \<open>When it returns and what it says\<close>

text \<open>The turn in which the loop of waitpid ends.\<close>

definition noticed :: "sync_env \<Rightarrow> nat \<Rightarrow> bool" where
  "noticed e k \<longleftrightarrow> polled_receiver e k \<noteq> None \<or> polled_sender e k \<noteq> None"

lemma wait_loop_step:
  "flag_at e (4 + 2 * k) = 0 \<Longrightarrow> \<not> noticed e k \<Longrightarrow> wait_loop e d i k = wait_loop e d i (k + 1)"
  by (subst wait_loop.simps) (auto simp: noticed_def)

lemma wait_loop_ends:
  assumes "flag_at e (4 + 2 * k) \<noteq> 0 \<or> noticed e k" "\<forall>j < k. flag_at e (4 + 2 * j) = 0 \<and> \<not> noticed e j" "j \<le> k"
  shows "wait_loop e d i j = wait_loop e d i k"
  using assms(3)
proof (induction "k - j" arbitrary: j)
  case (Suc n)
  then have "j < k" by simp
  with assms(2) have "wait_loop e d i j = wait_loop e d i (j + 1)" by (simp add: wait_loop_step)
  with Suc \<open>j < k\<close> show ?case by simp
qed simp

lemma wait_loop_spins:
  assumes "\<forall>j. flag_at e (4 + 2 * j) = 0 \<and> \<not> noticed e j"
  shows "wait_loop e d i k = None"
proof (rule ccontr)
  assume "wait_loop e d i k \<noteq> None"
  then obtain y where "wait_loop e d i k = Some y" by blast
  then have "\<not> (\<forall>j. flag_at e (4 + 2 * j) = 0 \<and> \<not> noticed e j)"
    by (rule wait_loop.raw_induct [where P = "\<lambda>e d i k y. \<not> (\<forall>j. flag_at e (4 + 2 * j) = 0 \<and> \<not> noticed e j)", rotated])
      (auto simp: noticed_def Let_def split: if_splits)
  with assms show False by blast
qed

lemma wait_loop_noticed:
  "flag_at e (4 + 2 * k) = 0 \<Longrightarrow> noticed e k \<Longrightarrow>
    wait_loop e d i k = Some (Inr (k, polled_receiver e k, polled_sender e k))"
  by (subst wait_loop.simps) (auto simp: noticed_def)

lemma wait_loop_result:
  assumes "\<forall>k. flag_at e k = 0" "noticed e n"
  shows "\<exists>k. noticed e k \<and> wait_loop e d i 0 = Some (Inr (k, polled_receiver e k, polled_sender e k))"
proof -
  define k where "k = (LEAST k. noticed e k)"
  have k: "noticed e k" unfolding k_def using assms(2) by (rule LeastI)
  have "\<forall>j < k. flag_at e (4 + 2 * j) = 0 \<and> \<not> noticed e j" unfolding k_def using not_less_Least assms(1) by blast
  from wait_loop_ends [OF _ this, of 0] k have "wait_loop e d i 0 = wait_loop e d i k" by blast
  also have "\<dots> = Some (Inr (k, polled_receiver e k, polled_sender e k))"
    using assms(1) by (intro wait_loop_noticed k) blast
  finally show ?thesis using k by blast
qed

text \<open>A verdict is either a quiet 0, or the ID after the two steps that report the failure.\<close>

definition fair :: "string \<Rightarrow> string \<Rightarrow> verdict \<Rightarrow> bool" where
  "fair d i v \<longleftrightarrow> (fst v = 0 \<and> set (snd v) \<subseteq> {Stop_sender, Stop_receiver})
     \<or> (fst v = atoi i \<and> (\<exists>pre. snd v = pre @ [Write_pid, Tell_parent] \<and> set pre \<subseteq> {Stop_sender, Stop_receiver, clean_up d i}))"

lemma fair_verdicts:
  "set acts \<subseteq> {Stop_sender, Stop_receiver, clean_up d i} \<Longrightarrow> fair d i (give_up i acts)"
  "set acts \<subseteq> {Stop_sender, Stop_receiver} \<Longrightarrow> fair d i (on_flag d i f acts)"
  "fair d i (0, [])"
  by (auto simp: fair_def give_up_def on_flag_def)

lemma await_other_fair:
  "stop \<in> {Stop_sender, Stop_receiver} \<Longrightarrow> await_other e d i k stop polled ends = Some v \<Longrightarrow> fair d i v"
  by (auto simp: await_other_def intro!: fair_verdicts split: option.splits if_splits bind_splits)

lemma after_wait_fair: "after_wait e d i k r s = Some v \<Longrightarrow> fair d i v"
  by (auto simp: after_wait_def intro!: fair_verdicts elim!: await_other_fair [rotated] split: option.splits if_splits)

lemma wait_loop_fair: "wait_loop e d i k = Some (Inl v) \<Longrightarrow> fair d i v"
proof -
  assume w: "wait_loop e d i k = Some (Inl v)"
  then have "Inl v = (Inl w :: verdict + nat \<times> wait_status option \<times> wait_status option) \<longrightarrow> fair d i w" for w
    by (rule wait_loop.raw_induct [where P = "\<lambda>e d i k r. r = Inl w \<longrightarrow> fair d i w", rotated])
      (auto simp: Let_def intro!: fair_verdicts split: if_splits)
  then show ?thesis by simp
qed

lemma fair_sync: "sync e d i = Some (r, acts) \<Longrightarrow> fair d i (r, acts)"
proof -
  assume run: "sync e d i = Some (r, acts)"
  show ?thesis
  proof (cases "flag_at e 0 \<noteq> 0 \<or> \<not> send_forks e \<or> \<not> receive_forks e \<or> flag_at e 2 \<noteq> 0")
    case True
    moreover have "fair d i (give_up i [])" "fair d i (give_up i [Stop_sender])"
        "fair d i (on_flag d i f [Stop_sender, Stop_receiver])" "fair d i (0, [])" for f
      by (simp_all add: fair_verdicts)
    ultimately show ?thesis using run by (auto simp: sync_def split: if_split_asm) metis
  next
    case False
    then have sync: "sync e d i = Option.bind (wait_loop e d i 0) (\<lambda>r.
          case r of Inl v \<Rightarrow> Some v | Inr (k, w_ret1, w_ret2) \<Rightarrow> after_wait e d i k w_ret1 w_ret2)"
      by (simp add: sync_def)
    obtain w where w: "wait_loop e d i 0 = Some w" using run sync by (cases "wait_loop e d i 0") simp_all
    show ?thesis
    proof (cases w)
      case (Inl v)
      then show ?thesis using run sync w wait_loop_fair by simp
    next
      case (Inr v)
      obtain k r1 r2 where "v = (k, r1, r2)" by (cases v)
      then show ?thesis using run sync w Inr after_wait_fair by simp
    qed
  qed
qed

text \<open>
  C28: Whatever signals arrive and however the children end, a return value of 0 comes without a
  report and leaves the files of the other client alone, and any other return value is its ID,
  after a report to the mirror client; nothing but its files is ever removed.
\<close>

theorem sync_reports:
  assumes "sync e d i = Some (r, acts)"
  shows "(r = 0 \<and> set acts \<subseteq> {Stop_sender, Stop_receiver})
    \<or> (r = atoi i \<and> (\<exists>pre. acts = pre @ [Write_pid, Tell_parent] \<and> set pre \<subseteq> {Stop_sender, Stop_receiver, clean_up d i}))"
  using fair_sync [OF assms] by (simp add: fair_def)

lemma sync_ends:
  assumes "\<forall>k. flag_at e k = 0" "send_forks e" "receive_forks e"
    and "send_ends e = Some ss" "receive_ends e = Some rs" "receive_polled e k \<or> send_polled e k"
  shows "if WEXITSTATUS ss = 0 \<and> WEXITSTATUS rs = 0 then sync e d i = Some (0, [])
    else \<exists>acts. sync e d i = Some (atoi i, acts @ [Write_pid, Tell_parent]) \<and> clean_up d i \<in> set acts"
proof -
  have n: "noticed e k" using assms(4-6) by (auto simp: noticed_def polled_receiver_def polled_sender_def)
  from wait_loop_result [OF assms(1) this, of d i]
  obtain j where j: "noticed e j" "wait_loop e d i 0 = Some (Inr (j, polled_receiver e j, polled_sender e j))"
    by blast
  have "sync e d i = after_wait e d i j (polled_receiver e j) (polled_sender e j)"
    unfolding sync_def j(2) using assms(1-3) by simp
  then show ?thesis using assms(1,4,5) j(1) unfolding noticed_def
    by (cases "receive_polled e j"; cases "send_polled e j")
      (simp_all add: polled_receiver_def polled_sender_def after_wait_def await_other_def give_up_def)
qed

text \<open>
  C29: Without signals, and when both children can be forked and end, sync returns as soon as a poll
  finds one of them ended.  It returns 0 and does nothing if both statuses have exit code 0, and
  otherwise removes the files of the other client, reports, and returns its ID.
\<close>

theorem sync_verdict:
  assumes "\<forall>k. flag_at e k = 0" "send_forks e" "receive_forks e"
    and "send_ends e = Some ss" "receive_ends e = Some rs" "receive_polled e k \<or> send_polled e k"
  shows "if WEXITSTATUS ss = 0 \<and> WEXITSTATUS rs = 0 then sync e d i = Some (0, [])
    else \<exists>acts. sync e d i = Some (atoi i, acts @ [Write_pid, Tell_parent]) \<and> clean_up d i \<in> set acts"
  by (rule sync_ends [OF assms])

theorem sync_verdict_witness:
  "sync \<lparr> flag_at = (\<lambda>k. 0), send_forks = True, receive_forks = True, send_execs = True, receive_execs = True,
      send_program = Some (Exited 0), receive_program = Some (Exited 0), receive_polled = (\<lambda>k. k = 3), send_polled = (\<lambda>k. False) \<rparr>
      ''m'' ''2'' = Some (0, [])"
  using sync_verdict [of "\<lparr> flag_at = (\<lambda>k. 0), send_forks = True, receive_forks = True, send_execs = True, receive_execs = True,
      send_program = Some (Exited 0), receive_program = Some (Exited 0), receive_polled = (\<lambda>k. k = 3), send_polled = (\<lambda>k. False) \<rparr>"
      "Exited 0" "Exited 0" 3 "''m''" "''2''"]
  by (simp add: send_ends_def receive_ends_def child_ends_def WEXITSTATUS_def)

theorem sync_reports_witness:
  "\<exists>acts. sync \<lparr> flag_at = (\<lambda>k. if k < 2 then 0 else 1), send_forks = True, receive_forks = True, send_execs = True, receive_execs = True,
      send_program = None, receive_program = None, receive_polled = (\<lambda>k. False), send_polled = (\<lambda>k. False) \<rparr>
      ''m'' ''2'' = Some (atoi ''2'', acts) \<and> Tell_parent \<in> set acts"
proof -
  let ?e = "\<lparr> flag_at = (\<lambda>k. if k < 2 then 0 else 1 :: nat), send_forks = True, receive_forks = True, send_execs = True, receive_execs = True,
      send_program = None, receive_program = None, receive_polled = (\<lambda>k. False), send_polled = (\<lambda>k. False) \<rparr>"
  obtain r acts where ra: "sync ?e ''m'' ''2'' = Some (r, acts)" "Tell_parent \<in> set acts"
    by (simp add: sync_def on_flag_def give_up_def)
  with sync_reports [OF ra(1)] have "r = atoi ''2''" by auto
  with ra show ?thesis by blast
qed

text \<open>
  A child that a signal killed counts as one that ended well: when the receiver is killed in the
  middle of a copy and the sender ends well or is killed, too, sync returns 0 and the mirror client
  never hears of it.
\<close>

theorem killed_child_unnoticed:
  assumes "\<forall>k. flag_at e k = 0" "send_forks e" "receive_forks e" "receive_polled e k \<or> send_polled e k"
    and "receive_ends e = Some (Killed sig)" "send_ends e \<in> {Some (Exited 0), Some (Killed sig')}"
  shows "sync e d i = Some (0, [])"
proof -
  obtain ss where "send_ends e = Some ss" "WEXITSTATUS ss = 0" using assms(6) by (auto simp: WEXITSTATUS_def)
  moreover have "WEXITSTATUS (Killed sig) = 0" by (simp add: WEXITSTATUS_def)
  ultimately show ?thesis using sync_ends [OF assms(1-3) _ assms(5,4), of ss d i] by simp
qed

theorem killed_child_unnoticed_witness:
  "sync \<lparr> flag_at = (\<lambda>k. 0), send_forks = True, receive_forks = True, send_execs = True, receive_execs = True,
      send_program = Some (Killed 13), receive_program = Some (Killed 6), receive_polled = (\<lambda>k. True), send_polled = (\<lambda>k. False) \<rparr>
      ''m'' ''2'' = Some (0, [])"
  by (rule killed_child_unnoticed [where k = 0 and sig = 6 and sig' = 13]) (simp_all add: send_ends_def receive_ends_def child_ends_def)

text \<open>Without signals sync waits forever exactly when no poll ever finds a child ended.\<close>

lemma sync_returns_iff:
  assumes "\<forall>k. flag_at e k = 0" "send_forks e" "receive_forks e" "send_ends e = Some ss" "receive_ends e = Some rs"
  shows "sync e d i \<noteq> None \<longleftrightarrow> (\<exists>k. receive_polled e k \<or> send_polled e k)"
proof
  assume "sync e d i \<noteq> None"
  moreover have "(\<forall>k. \<not> noticed e k) \<longrightarrow> sync e d i = None"
    using wait_loop_spins [of e d i 0] assms(1-3) by (simp add: sync_def)
  ultimately obtain k where "noticed e k" by metis
  then show "\<exists>k. receive_polled e k \<or> send_polled e k"
    by (auto simp: noticed_def polled_receiver_def polled_sender_def split: if_splits)
next
  assume "\<exists>k. receive_polled e k \<or> send_polled e k"
  then obtain k where "receive_polled e k \<or> send_polled e k" by blast
  from sync_ends [OF assms this, of d i] show "sync e d i \<noteq> None" by (auto split: if_splits)
qed

end
