(* ===== verification/SyncPipe.thy ===== *)
theory SyncPipe
  imports FileTree Stdio CTime
begin

text \<open>
  How a directory goes through the pipe between two mirror clients: sync_send.c and sync_receive.c of
  SysPro_Project2/src/mirror_client.  A frame is two bytes with the length of the path, the path,
  four bytes with the size, and the content; two zero bytes end the stream.  Outcomes of system
  calls and the value of the signal flag at each of its tests come from outside.
\<close>

section \<open>Numbers on the wire\<close>

definition byte :: "nat \<Rightarrow> char" where "byte n = char_of (n mod 256)"

definition le2 :: "nat \<Rightarrow> string" where "le2 n = [byte n, byte (n div 256)]"

definition le4 :: "nat \<Rightarrow> string" where
  "le4 n = [byte n, byte (n div 256), byte (n div 256 ^ 2), byte (n div 256 ^ 3)]"

fun le_value :: "string \<Rightarrow> nat" where
  "le_value [] = 0"
| "le_value (c # cs) = of_char c + 256 * le_value cs"

section \<open>The sender\<close>

text \<open>What was written to the pipe, the number of writes so far, and the log.\<close>

record out =
  piped :: string
  writes :: nat
  log :: string

text \<open>
  A step returns 0 or, when a system call failed, 1; None is a step that never returns.  w says which
  writes to the pipe succeed.
\<close>

type_synonym step = "out \<Rightarrow> (nat \<times> out) option"

definition after_ok :: "(nat \<times> out) option \<Rightarrow> step \<Rightarrow> (nat \<times> out) option" where
  "after_ok r f = Option.bind r (\<lambda>(ret, st). if ret \<noteq> 0 then Some (1, st) else f st)"

definition pipe_write :: "(nat \<Rightarrow> bool) \<Rightarrow> string \<Rightarrow> step" where
  "pipe_write w s st =
     (if w (writes st) then Some (0, st\<lparr>piped := piped st @ s, writes := writes st + 1\<rparr>)
      else Some (1, st\<lparr>writes := writes st + 1\<rparr>))"

definition log_line :: "string \<Rightarrow> out \<Rightarrow> out" where
  "log_line s st = st\<lparr>log := log st @ s @ nl\<rparr>"

lemma after_ok_mono [partial_function_mono]:
  assumes "mono_option B" "\<And>y. mono_option (\<lambda>f. C y f)"
  shows "mono_option (\<lambda>f. after_ok (B f) (\<lambda>y. C y f))"
  unfolding after_ok_def split_beta' using assms by (intro partial_function_mono)

text \<open>
  The chunk loops for the path and for the content: full chunks of max_buffsize bytes, then the
  rest, which may be empty.  With max_buffsize 0 the loop never ends.
\<close>

partial_function (option) chunk_loop :: "(nat \<Rightarrow> bool) \<Rightarrow> nat \<Rightarrow> string \<Rightarrow> out \<Rightarrow> (nat \<times> out) option" where
  "chunk_loop w max_buffsize left st =
     (if length left \<ge> max_buffsize then
        after_ok (pipe_write w (take max_buffsize left) st) (\<lambda>st. chunk_loop w max_buffsize (drop max_buffsize left) st)
      else pipe_write w left st)"

text \<open>
  The length is an unsigned short, the size an unsigned int.  can_read says whether opening the
  file works; after a failed open the first read returns -1.
\<close>

definition sync_send_file ::
    "(nat \<Rightarrow> bool) \<Rightarrow> (string \<Rightarrow> bool) \<Rightarrow> nat \<Rightarrow> string \<Rightarrow> string \<Rightarrow> node \<Rightarrow> step" where
  "sync_send_file w can_read max_buffsize id_to path n st =
     (let len = length path mod 2 ^ 16;
          file_size = (case n of File c \<Rightarrow> length c mod 2 ^ 32 | Dir es \<Rightarrow> 0)
      in after_ok (pipe_write w (le2 len) st) (\<lambda>st.
         after_ok (chunk_loop w max_buffsize (take len path) st) (\<lambda>st.
         after_ok (pipe_write w (le4 file_size) st) (\<lambda>st.
         after_ok
           (case n of
              Dir es \<Rightarrow> Some (0, st)
            | File c \<Rightarrow>
                if file_size = 0 then Some (0, st)
                else if \<not> can_read path then Some (1, st)
                else chunk_loop w max_buffsize (take file_size c) st)
           (\<lambda>st. Some (0, log_line (''To client '' @ id_to @ '': '' @ path @ '' - '' @ dec file_size @ '' bytes'') st))))))"

fun each_entry :: "(string \<times> node \<Rightarrow> step) \<Rightarrow> (string \<times> node) list \<Rightarrow> step" where
  "each_entry f [] st = Some (0, st)"
| "each_entry f (e # es) st = after_ok (f e st) (\<lambda>st. each_entry f es st)"

lemma each_entry_cong [fundef_cong]:
  assumes "es = es'" "st = st'" "\<And>e st. e \<in> set es' \<Longrightarrow> f e st = f' e st"
  shows "each_entry f es st = each_entry f' es' st'"
proof -
  have "each_entry f es st = each_entry f' es st" if "\<And>e st. e \<in> set es \<Longrightarrow> f e st = f' e st" for es st
    using that
  proof (induction es arbitrary: st)
    case (Cons e es)
    have "each_entry f es = each_entry f' es" using Cons by (intro ext) simp
    with Cons.prems show ?case by simp
  qed simp
  with assms show ?thesis by blast
qed

definition is_dots :: "string \<Rightarrow> bool" where
  "is_dots name \<longleftrightarrow> strcmp name ''.'' = 0 \<or> strcmp name ''..'' = 0"

text \<open>A directory without entries is sent as a path that ends with a slash.\<close>

function sync_send_dir ::
    "(nat \<Rightarrow> bool) \<Rightarrow> (string \<Rightarrow> bool) \<Rightarrow> nat \<Rightarrow> string \<Rightarrow> string \<Rightarrow> (string \<times> node) list \<Rightarrow> step" where
  "sync_send_dir w can_read max_buffsize id_to dir_path es st =
     (if \<not> can_read dir_path then Some (1, st)
      else
        let found = filter (\<lambda>(name, n). \<not> is_dots name) es
        in if found = [] then sync_send_file w can_read max_buffsize id_to (append_to_rel_path dir_path []) (Dir es) st
           else
             each_entry (\<lambda>(name, n) st.
               let path_buf = append_to_rel_path dir_path name
               in case n of
                    Dir es' \<Rightarrow> sync_send_dir w can_read max_buffsize id_to path_buf es' st
                  | File c \<Rightarrow> sync_send_file w can_read max_buffsize id_to path_buf n st) found st)"
  by pat_completeness auto
termination
proof (relation "measure (\<lambda>(w, can_read, b, i, p, es, st). size (Dir es))", simp, clarsimp)
  fix es name es'
  assume "(name, Dir es') \<in> set es"
  from entry_size [OF this]
  show "size_list (size_prod (\<lambda>x. 0) size) es' < size_list (size_prod (\<lambda>x. 0) size) es" by simp
qed

declare sync_send_dir.simps [simp del]

text \<open>main of sync\_send: what the system calls and the tests of the signal flag give.\<close>

record send_env =
  mkfifo_ok :: bool
  fifo_opens :: bool
  select_ret :: int
  input :: "(string \<times> node) list option"
  signalled :: "nat \<Rightarrow> bool"
  write_ok :: "nat \<Rightarrow> bool"
  can_open :: "string \<Rightarrow> bool"

definition to_client :: "string \<Rightarrow> string \<Rightarrow> string" where
  "to_client id_to s = ''To client '' @ id_to @ '': '' @ s"

definition signal_termination :: string where "signal_termination = ''Failed due to a signal.''"
definition pipe_termination :: string where "pipe_termination = ''Failed due to a problem with the pipe.''"

definition or_quit :: "(nat \<times> out) option \<Rightarrow> string \<Rightarrow> step \<Rightarrow> (nat \<times> out) option" where
  "or_quit r msg f = Option.bind r (\<lambda>(ret, st). if ret \<noteq> 0 then Some (1, log_line msg st) else f st)"

text \<open>The loop over the input directory; the flag is tested after every entry.\<close>

fun send_loop :: "send_env \<Rightarrow> nat \<Rightarrow> string \<Rightarrow> nat \<Rightarrow> (string \<times> node) list \<Rightarrow> step" where
  "send_loop e max_bytes id_to k [] st = Some (0, st)"
| "send_loop e max_bytes id_to k ((name, n) # es) st =
     or_quit
       (if is_dots name then Some (0, st)
        else case n of
          Dir es' \<Rightarrow> sync_send_dir (write_ok e) (can_open e) max_bytes id_to name es' st
        | File c \<Rightarrow> sync_send_file (write_ok e) (can_open e) max_bytes id_to name n st)
       (to_client id_to pipe_termination)
       (\<lambda>st. if signalled e k then Some (1, log_line (to_client id_to signal_termination) st)
              else send_loop e max_bytes id_to (k + 1) es st)"

definition sync_send :: "send_env \<Rightarrow> nat \<Rightarrow> string \<Rightarrow> (nat \<times> out) option" where
  "sync_send e max_bytes id_to =
     (let st = \<lparr> piped = [], writes = 0, log = [] \<rparr>;
          by_signal = Some (1, log_line (to_client id_to signal_termination) st);
          by_pipe = Some (1, log_line (to_client id_to pipe_termination) st)
      in if signalled e 0 then Some (1, st)
         else if \<not> mkfifo_ok e \<or> \<not> fifo_opens e then by_pipe
         else if signalled e 1 then by_signal
         else if select_ret e = -1 then by_signal
         else if select_ret e = 0 then by_pipe
         else
           (case input e of
              None \<Rightarrow> Some (1, st)
            | Some es \<Rightarrow>
                if signalled e 2 then by_signal
                else
                  Option.bind (send_loop e max_bytes id_to 3 es
                      (log_line (to_client id_to ''Initiating sending of files.'') st)) (\<lambda>(ret, st).
                    if ret \<noteq> 0 then Some (1, st)
                    else
                      or_quit (pipe_write (write_ok e) (le2 0) st) (to_client id_to pipe_termination) (\<lambda>st.
                        Some (0, log_line (to_client id_to ''File sending ends successfully.'') st)))))"

section \<open>The receiver\<close>

text \<open>
  The bytes on their way and the number of reads so far.  The k-th read fails or returns at most
  the given number of bytes, at least one when there is one, none when the writer has closed the
  pipe.  The stream is None once the receiver itself has closed its descriptor; then reads fail.
\<close>

record inp =
  stream :: "string option"
  reads :: nat

definition pipe_read :: "(nat \<Rightarrow> nat option) \<Rightarrow> nat \<Rightarrow> bytes \<Rightarrow> inp \<Rightarrow> bytes option \<times> inp" where
  "pipe_read r n buf s =
     (case (r (reads s), stream s) of
        (Some m, Some bs) \<Rightarrow>
          let c = take (min n (max 1 m)) bs
          in (Some (map Some c @ drop (length c) buf), s\<lparr>stream := Some (drop (length c) bs), reads := reads s + 1\<rparr>)
      | _ \<Rightarrow> (None, s\<lparr>reads := reads s + 1\<rparr>))"

text \<open>
  The chunk loops for the path and for the content.  The number of bytes a read returned is not
  looked at: the bytes of the buffer are used whatever they are.
\<close>

partial_function (option) read_loop ::
    "(nat \<Rightarrow> nat option) \<Rightarrow> nat \<Rightarrow> nat \<Rightarrow> bytes \<Rightarrow> bytes \<Rightarrow> inp \<Rightarrow> (nat \<times> bytes \<times> inp) option" where
  "read_loop r max_buffsize remaining buffer done_bytes s =
     (if remaining \<ge> max_buffsize then
        (case pipe_read r max_buffsize buffer s of
           (None, s) \<Rightarrow> Some (1, done_bytes, s)
         | (Some buffer, s) \<Rightarrow>
             read_loop r max_buffsize (remaining - max_buffsize) buffer (done_bytes @ take max_buffsize buffer) s)
      else
        (case pipe_read r remaining buffer s of
           (None, s) \<Rightarrow> Some (1, done_bytes, s)
         | (Some buffer, s) \<Rightarrow> Some (0, done_bytes @ take remaining buffer, s)))"

text \<open>The directory of the other client's files: directories and files by their relative path.\<close>

record mirror_dir =
  made :: "string set"
  stored :: "string \<Rightarrow> bytes option"
  rlog :: string

definition mkdir :: "string \<Rightarrow> mirror_dir \<Rightarrow> mirror_dir" where
  "mkdir d m = (if stored m d \<noteq> None then m else m\<lparr>made := insert d (made m)\<rparr>)"

text \<open>strtok with the delimiter "/"\<close>

function path_tokens :: "string \<Rightarrow> string list" where
  "path_tokens s =
     (let t = dropWhile (\<lambda>c. c = CHR ''/'') s
      in if t = [] then [] else takeWhile (\<lambda>c. c \<noteq> CHR ''/'') t # path_tokens (dropWhile (\<lambda>c. c \<noteq> CHR ''/'') t))"
  by pat_completeness auto
termination
proof (relation "measure length", simp)
  fix s t :: string
  assume t: "t = dropWhile (\<lambda>c. c = CHR ''/'') s" "t \<noteq> []"
  then have "hd t \<noteq> CHR ''/''" using hd_dropWhile [of "\<lambda>c. c = CHR ''/''" s] by simp
  then have "length (dropWhile (\<lambda>c. c \<noteq> CHR ''/'') t) < length t"
    using t(2) length_dropWhile_le [of "\<lambda>c. c \<noteq> CHR ''/''" "tl t"] by (cases t) auto
  moreover have "length t \<le> length s" unfolding t(1) by (rule length_dropWhile_le)
  ultimately show "(dropWhile (\<lambda>c. c \<noteq> CHR ''/'') t, s) \<in> measure length" by simp
qed

declare path_tokens.simps [simp del]

text \<open>The directories on the way to a path; the walk stops when it arrives at the path itself.\<close>

fun make_tree :: "string \<Rightarrow> string \<Rightarrow> string list \<Rightarrow> mirror_dir \<Rightarrow> mirror_dir" where
  "make_tree path tree [] m = m"
| "make_tree path tree (token # tokens) m =
     (let tree = tree @ ''/'' @ token
      in if strcmp path tree = 0 then m else make_tree path tree tokens (mkdir tree m))"

text \<open>
  open with O\_CREAT and O\_RDWR, without O\_TRUNC.  It fails for a directory and where the directory
  of the file is missing; a path that leaves the mirror directory counts as missing.
\<close>

definition dir_part :: "string \<Rightarrow> string" where
  "dir_part p = rev (drop 1 (dropWhile (\<lambda>c. c \<noteq> CHR ''/'') (rev p)))"

definition open_file :: "string \<Rightarrow> mirror_dir \<Rightarrow> mirror_dir option" where
  "open_file p m =
     (if p \<in> made m \<or> (CHR ''/'' \<in> set p \<and> dir_part p \<notin> made m) then None
      else Some (m\<lparr>stored := (stored m)(p := Some (case stored m p of None \<Rightarrow> [] | Some c \<Rightarrow> c))\<rparr>))"

text \<open>
  read\_file\_path: the path and whether opening it worked (it is not opened when it ends with a
  slash).  After a failed read the path is freed here and again by the caller.
\<close>

definition read_file_path ::
    "(nat \<Rightarrow> nat option) \<Rightarrow> nat \<Rightarrow> nat \<Rightarrow> mirror_dir \<Rightarrow> inp \<Rightarrow> (fault + (string \<times> bool \<times> mirror_dir \<times> inp)) option" where
  "read_file_path r max_buffsize len m s =
     Option.bind (read_loop r max_buffsize len (replicate (max_buffsize + 1) None) [] s) (\<lambda>(ret, path, s).
       if ret \<noteq> 0 then Some (crash UseAfterFree)
       else
         Some (and_then (read_str (path @ [Some NUL])) (\<lambda>path.
           case path_tokens path of
             [] \<Rightarrow> crash NullDeref
           | token # tokens \<Rightarrow>
               let m = (if strcmp token path \<noteq> 0 then make_tree path token tokens (mkdir token m) else m)
               in if last path \<noteq> CHR ''/'' then
                    (case open_file path m of None \<Rightarrow> ok (path, False, m, s) | Some m \<Rightarrow> ok (path, True, m, s))
                  else ok (path, True, m, s))))"

text \<open>
  read\_file writes from the beginning of the file over what is there.  For a path that ends with a
  slash the descriptor is 0, that of the pipe: it is not open for writing, and it is closed at the end.
\<close>

definition read_file ::
    "(nat \<Rightarrow> nat option) \<Rightarrow> nat \<Rightarrow> string \<Rightarrow> nat \<Rightarrow> mirror_dir \<Rightarrow> inp \<Rightarrow> (nat \<times> mirror_dir \<times> inp) option" where
  "read_file r max_buffsize path file_size m s =
     (if file_size = 0 then Some (0, m, s)
      else
        Option.bind (read_loop r max_buffsize file_size (replicate (max_buffsize + 1) None) [] s) (\<lambda>(ret, content, s).
          let old = (case stored m path of None \<Rightarrow> [] | Some c \<Rightarrow> c)
          in if last path = CHR ''/'' then Some (ret, m, if ret = 0 then s\<lparr>stream := None\<rparr> else s)
             else Some (ret, m\<lparr>stored := (stored m)(path := Some (content @ drop (length content) old))\<rparr>, s)))"

text \<open>main of sync\_receive\<close>

record recv_env =
  rfifo_ok :: bool
  mirror_opens :: bool
  rselect_ret :: int
  rsignalled :: "nat \<Rightarrow> bool"
  delivers :: "nat \<Rightarrow> nat option"

definition rlog_line :: "string \<Rightarrow> mirror_dir \<Rightarrow> mirror_dir" where
  "rlog_line s m = m\<lparr>rlog := rlog m @ s @ nl\<rparr>"

definition from_client :: "string \<Rightarrow> string \<Rightarrow> string" where
  "from_client id_to s = ''From client '' @ id_to @ '': '' @ s"

text \<open>
  One round: a path, a size, a content.  The variables path\_length and file\_size keep their bytes
  where a read delivers fewer.
\<close>

definition recv_frame ::
    "recv_env \<Rightarrow> nat \<Rightarrow> string \<Rightarrow> bytes \<Rightarrow> bytes \<Rightarrow> mirror_dir \<Rightarrow> inp
     \<Rightarrow> (fault + (nat \<times> bytes \<times> mirror_dir \<times> inp)) option" where
  "recv_frame e max_bytes id_to path_length file_size m s =
     (let by_pipe = (\<lambda>m s. Some (ok (1, file_size, rlog_line (from_client id_to pipe_termination) m, s)))
      in run_then (read_file_path (delivers e) max_bytes (le_value (map the path_length)) m s) (\<lambda>(path, opened, m, s).
        if \<not> opened then by_pipe m s
        else
          (case pipe_read (delivers e) 4 file_size s of
             (None, s) \<Rightarrow> by_pipe m s
           | (Some file_size, s) \<Rightarrow>
               let n = le_value (map the file_size)
               in Option.bind (read_file (delivers e) max_bytes path n m s) (\<lambda>(ret, m, s).
                 if ret \<noteq> 0 then by_pipe m s
                 else Some (ok (0, file_size, rlog_line (from_client id_to (path @ '' - '' @ dec n @ '' bytes'')) m, s))))))"

text \<open>
  After a signal the name of the pipe and the path are freed a second time.  The read of the next
  length is not tested.
\<close>

partial_function (option) recv_loop ::
    "recv_env \<Rightarrow> nat \<Rightarrow> string \<Rightarrow> nat \<Rightarrow> bytes \<Rightarrow> bytes \<Rightarrow> mirror_dir \<Rightarrow> inp \<Rightarrow> (fault + (nat \<times> mirror_dir \<times> inp)) option" where
  "recv_loop e max_bytes id_to k path_length file_size m s =
     run_then (recv_frame e max_bytes id_to path_length file_size m s) (\<lambda>(ret, file_size, m, s).
       if ret \<noteq> 0 then Some (ok (1, m, s))
       else if rsignalled e k then Some (crash UseAfterFree)
       else
         (case pipe_read (delivers e) 2 path_length s of
            (got, s) \<Rightarrow>
              let path_length = (case got of None \<Rightarrow> path_length | Some b \<Rightarrow> b)
              in if le_value (map the path_length) \<noteq> 0 then recv_loop e max_bytes id_to (k + 1) path_length file_size m s
                 else Some (ok (0, rlog_line (from_client id_to ''File copy ends successfully.'') m, s))))"

definition sync_receive ::
    "recv_env \<Rightarrow> nat \<Rightarrow> string \<Rightarrow> mirror_dir \<Rightarrow> string \<Rightarrow> (fault + (nat \<times> mirror_dir \<times> inp)) option" where
  "sync_receive e max_bytes id_to m sent =
     (let s = \<lparr> stream = Some sent, reads = 0 \<rparr>; zero = map Some (le2 0);
          say = (\<lambda>msg. rlog_line (from_client id_to msg));
          by_signal = Some (ok (1, say signal_termination m, s));
          by_pipe = Some (ok (1, say pipe_termination m, s))
      in if \<not> rfifo_ok e then by_pipe
         else if \<not> mirror_opens e then Some (ok (1, m, s))
         else if rsignalled e 0 then by_signal
         else if rselect_ret e \<le> 0 then (if rselect_ret e = -1 then by_signal else by_pipe)
         else if rsignalled e 1 then by_signal
         else
           (case pipe_read (delivers e) 2 zero s of
              (got, s) \<Rightarrow>
                let path_length = (case got of None \<Rightarrow> zero | Some b \<Rightarrow> b);
                    m = say ''Initiating copy of files.'' m
                in if le_value (map the path_length) = 0 then
                     Some (ok (0, say ''No files. File copy ends successfully.'' m, s))
                   else if rsignalled e 2 then Some (ok (1, say signal_termination m, s))
                   else recv_loop e max_bytes id_to 3 path_length (map Some (le4 0)) m s))"

end
