(* ===== verification/Paths.thy ===== *)
theory Paths
  imports SyncPipe "HOL-Library.Sublist"
begin

text \<open>
  Paths as strings with slashes and as lists of names, and the leaves of a directory tree: its files
  and its empty directories.  The copies over the pipe (SyncRound) and over sockets (FileList,
  FetchTree) send one path per leaf.
\<close>

section \<open>Paths\<close>

fun join :: "string list \<Rightarrow> string" where
  "join [] = []"
| "join [n] = n"
| "join (n # ns) = n @ ''/'' @ join ns"

definition entry_name :: "string \<Rightarrow> bool" where
  "entry_name n \<longleftrightarrow> n \<noteq> [] \<and> CHR ''/'' \<notin> set n \<and> NUL \<notin> set n \<and> \<not> is_dots n"

abbreviation path_ok :: "string list \<Rightarrow> bool" where "path_ok ns \<equiv> ns \<noteq> [] \<and> (\<forall>n \<in> set ns. entry_name n)"

lemma join_Cons: "ns \<noteq> [] \<Longrightarrow> join (n # ns) = n @ ''/'' @ join ns"
  by (cases ns) auto

lemma join_snoc: "ns \<noteq> [] \<Longrightarrow> join (ns @ [n]) = append_to_rel_path (join ns) n"
  by (induction ns rule: join.induct) (auto simp: append_to_rel_path_def)

lemma join_append: "ns \<noteq> [] \<Longrightarrow> ms \<noteq> [] \<Longrightarrow> join (ns @ ms) = join ns @ ''/'' @ join ms"
  by (induction ns rule: join.induct) (auto simp: join_Cons)

lemma span_slash:
  assumes "CHR ''/'' \<notin> set n"
  shows "takeWhile (\<lambda>c. c \<noteq> CHR ''/'') n = n" "dropWhile (\<lambda>c. c \<noteq> CHR ''/'') n = []"
    "takeWhile (\<lambda>c. c \<noteq> CHR ''/'') (n @ CHR ''/'' # r) = n" "dropWhile (\<lambda>c. c \<noteq> CHR ''/'') (n @ CHR ''/'' # r) = CHR ''/'' # r"
  using assms by (induction n) auto

lemma entry_starts: "entry_name n \<Longrightarrow> dropWhile (\<lambda>c. c = CHR ''/'') (n @ r) = n @ r"
  by (cases n) (auto simp: entry_name_def)

lemma path_tokens_slash: "path_tokens (CHR ''/'' # s) = path_tokens s"
  by (subst (1 2) path_tokens.simps) simp

lemma path_tokens_join: "path_ok ns \<Longrightarrow> path_tokens (join ns) = ns \<and> path_tokens (join ns @ ''/'') = ns"
proof (induction ns rule: join.induct)
  case (2 n)
  then have n: "entry_name n" "n \<noteq> []" "CHR ''/'' \<notin> set n" by (simp_all add: entry_name_def)
  have nil: "path_tokens [] = []" by (subst path_tokens.simps) simp
  have "path_tokens n = n # path_tokens []"
    using entry_starts [OF n(1), of "[]"] n(2,3) by (subst path_tokens.simps) (simp add: span_slash)
  moreover have "path_tokens (n @ ''/'') = n # path_tokens ''/''"
    using entry_starts [OF n(1), of "''/''"] n(2,3) by (subst path_tokens.simps) (simp add: span_slash)
  ultimately show ?case by (simp add: nil path_tokens_slash)
next
  case (3 n v vs)
  then have n: "entry_name n" "n \<noteq> []" "CHR ''/'' \<notin> set n" by (simp_all add: entry_name_def)
  have "path_tokens (n @ CHR ''/'' # r) = n # path_tokens r" for r
    using entry_starts [OF n(1), of "CHR ''/'' # r"] n(2,3)
    by (subst path_tokens.simps) (simp add: span_slash path_tokens_slash)
  with 3 show ?case by simp
qed simp

lemma join_inj: "path_ok ns \<Longrightarrow> path_ok ms \<Longrightarrow> join ns = join ms \<longleftrightarrow> ns = ms"
  by (metis path_tokens_join)

lemma join_last: "path_ok ns \<Longrightarrow> join ns \<noteq> [] \<and> last (join ns) \<noteq> CHR ''/'' \<and> NUL \<notin> set (join ns)"
proof (induction ns rule: join.induct)
  case (2 n)
  then have "last n \<in> set n" "CHR ''/'' \<notin> set n" by (simp_all add: entry_name_def)
  then have "last n \<noteq> CHR ''/''" by metis
  with 2 show ?case by (simp add: entry_name_def)
next
  case (3 n v vs)
  then show ?case by (auto simp: entry_name_def)
qed simp

lemma dir_part_join:
  assumes "path_ok (ns @ [n])"
  shows "if ns = [] then CHR ''/'' \<notin> set (join (ns @ [n])) else dir_part (join (ns @ [n])) = join ns"
proof (cases "ns = []")
  case True
  with assms show ?thesis by (simp add: entry_name_def)
next
  case False
  have "CHR ''/'' \<notin> set (rev n)" using assms by (simp add: entry_name_def)
  with False span_slash(4) [of "rev n" "rev (join ns)"] show ?thesis
    by (simp add: join_snoc append_to_rel_path_def dir_part_def)
qed

section \<open>The leaves of a tree\<close>

text \<open>The files with their contents and the empty directories.\<close>

fun leaves_of :: "string list \<Rightarrow> node \<Rightarrow> (string list \<times> string option) list" where
  "leaves_of ns (File c) = [(ns, Some c)]"
| "leaves_of ns (Dir es) = (if es = [] then [(ns, None)] else concat (map (\<lambda>(n, t). leaves_of (ns @ [n]) t) es))"

definition top_leaves :: "(string \<times> node) list \<Rightarrow> (string list \<times> string option) list" where
  "top_leaves es = concat (map (\<lambda>(n, t). leaves_of [n] t) es)"

fun node_ok :: "node \<Rightarrow> bool" where
  "node_ok (File c) = (length c < 2 ^ 32)"
| "node_ok (Dir es) = (distinct (map fst es) \<and> (\<forall>(n, t) \<in> set es. entry_name n \<and> node_ok t))"

fun at_path :: "node \<Rightarrow> string list \<Rightarrow> node option" where
  "at_path t [] = Some t"
| "at_path (File c) (n # ns) = None"
| "at_path (Dir es) (n # ns) = (case map_of es n of None \<Rightarrow> None | Some t \<Rightarrow> at_path t ns)"

lemma leaves_of_prefix: "leaves_of (ps @ ns) t = map (\<lambda>(ms, x). (ps @ ms, x)) (leaves_of ns t)"
proof (induction t arbitrary: ns)
  case (Dir es)
  have "leaves_of (ps @ ns @ [n]) t = map (\<lambda>(ms, x). (ps @ ms, x)) (leaves_of (ns @ [n]) t)" if "(n, t) \<in> set es" for n t
    using Dir [OF that, of t] by (simp add: snds.simps)
  then have "concat (map (\<lambda>(n, t). leaves_of (ps @ ns @ [n]) t) es)
      = concat (map (\<lambda>(n, t). map (\<lambda>(ms, x). (ps @ ms, x)) (leaves_of (ns @ [n]) t)) es)"
    by (intro arg_cong [where f = concat] map_cong) auto
  then show ?case by (simp only: leaves_of.simps append_assoc split: if_split)
      (simp add: map_concat comp_def case_prod_unfold)
qed simp

lemma leaves_nonempty: "leaves_of ns t \<noteq> []"
proof (induction t arbitrary: ns)
  case (Dir es)
  show ?case
  proof (cases es)
    case (Cons e es')
    obtain n t where "e = (n, t)" by fastforce
    with Dir [of e t "ns @ [n]"] Cons show ?thesis by (simp add: snds.simps)
  qed simp
qed simp

lemma leaf_of_dir:
  assumes "es \<noteq> []" "distinct (map fst es)"
  shows "(ns, x) \<in> set (leaves_of [] (Dir es)) \<longleftrightarrow>
    (\<exists>n ms t. ns = n # ms \<and> map_of es n = Some t \<and> (ms, x) \<in> set (leaves_of [] t))"
proof -
  have "(ns, x) \<in> set (leaves_of [] (Dir es)) \<longleftrightarrow> (\<exists>n t. (n, t) \<in> set es \<and> (ns, x) \<in> set (leaves_of [n] t))"
    using assms(1) by auto
  also have "\<dots> \<longleftrightarrow> (\<exists>n t. map_of es n = Some t \<and> (ns, x) \<in> set (leaves_of [n] t))"
    using assms(2) by (simp add: map_of_eq_Some_iff)
  also have "\<dots> \<longleftrightarrow> (\<exists>n ms t. ns = n # ms \<and> map_of es n = Some t \<and> (ms, x) \<in> set (leaves_of [] t))"
  proof -
    have "(ns, x) \<in> set (leaves_of [n] t) \<longleftrightarrow> (\<exists>ms. ns = n # ms \<and> (ms, x) \<in> set (leaves_of [] t))" for n t
      using leaves_of_prefix [of "[n]" "[]" t] by auto
    then show ?thesis by blast
  qed
  finally show ?thesis .
qed

lemma file_leaves: "node_ok t \<Longrightarrow> (ns, Some c) \<in> set (leaves_of [] t) \<longleftrightarrow> at_path t ns = Some (File c)"
proof (induction t arbitrary: ns)
  case (File d)
  then show ?case by (cases ns) auto
next
  case (Dir es)
  show ?case
  proof (cases "es = []")
    case True
    then show ?thesis by (cases ns) auto
  next
    case False
    have IH: "(ms, Some c) \<in> set (leaves_of [] t) \<longleftrightarrow> at_path t ms = Some (File c)" if "map_of es n = Some t" for n t ms
      using Dir(1) [of "(n, t)" t ms] Dir(2) map_of_SomeD [OF that] by (auto simp: snds.simps)
    have "distinct (map fst es)" using Dir(2) by simp
    from leaf_of_dir [OF False this, of ns "Some c"] show ?thesis
      using IH by (cases ns) (auto split: option.splits)
  qed
qed

text \<open>A leaf lies below a directory, or is that directory when it is empty.\<close>

definition on_way :: "string list \<Rightarrow> string list \<times> string option \<Rightarrow> bool" where
  "on_way ms leaf \<longleftrightarrow> prefix ms (fst leaf) \<and> (snd leaf = None \<or> ms \<noteq> fst leaf)"

lemma dir_leaves: "node_ok t \<Longrightarrow> (\<exists>leaf \<in> set (leaves_of [] t). on_way ms leaf) \<longleftrightarrow> (\<exists>es. at_path t ms = Some (Dir es))"
proof (induction t arbitrary: ms)
  case (File d)
  then show ?case by (cases ms) (auto simp: on_way_def)
next
  case (Dir es)
  show ?case
  proof (cases "es = []")
    case True
    then show ?thesis by (cases ms) (auto simp: on_way_def)
  next
    case False
    note d = leaf_of_dir [OF False]
    show ?thesis
    proof (cases ms)
      case Nil
      obtain leaf where l: "leaf \<in> set (leaves_of [] (Dir es))" using leaves_nonempty [of "[]" "Dir es"] by (meson last_in_set)
      moreover have "fst leaf \<noteq> []" using d [of "fst leaf" "snd leaf"] l Dir(2) by auto
      ultimately have "\<exists>leaf \<in> set (leaves_of [] (Dir es)). on_way ms leaf"
        using Nil by (intro bexI [of _ leaf]) (auto simp: on_way_def)
      with Nil show ?thesis by simp
    next
      case (Cons n ns)
      have IH: "(\<exists>leaf \<in> set (leaves_of [] t). on_way ns leaf) \<longleftrightarrow> (\<exists>es. at_path t ns = Some (Dir es))"
        if "map_of es n = Some t" for t
        using Dir(1) [of "(n, t)" t ns] Dir(2) map_of_SomeD [OF that] by (auto simp: snds.simps)
      have "(\<exists>leaf \<in> set (leaves_of [] (Dir es)). on_way ms leaf) \<longleftrightarrow>
          (\<exists>t. map_of es n = Some t \<and> (\<exists>leaf \<in> set (leaves_of [] t). on_way ns leaf))"
      proof
        assume "\<exists>leaf \<in> set (leaves_of [] (Dir es)). on_way ms leaf"
        then obtain k x where l: "(k, x) \<in> set (leaves_of [] (Dir es))" "on_way ms (k, x)" by auto
        then obtain m k' t where k: "k = m # k'" "map_of es m = Some t" "(k', x) \<in> set (leaves_of [] t)"
          using d [of k x] Dir(2) by auto
        with l(2) Cons have "n = m" "on_way ns (k', x)" by (auto simp: on_way_def)
        with k show "\<exists>t. map_of es n = Some t \<and> (\<exists>leaf \<in> set (leaves_of [] t). on_way ns leaf)" by blast
      next
        assume "\<exists>t. map_of es n = Some t \<and> (\<exists>leaf \<in> set (leaves_of [] t). on_way ns leaf)"
        then obtain t k x where t: "map_of es n = Some t" "(k, x) \<in> set (leaves_of [] t)" "on_way ns (k, x)" by auto
        then have "(n # k, x) \<in> set (leaves_of [] (Dir es))" using d [of "n # k" x] Dir(2) by auto
        moreover have "on_way ms (n # k, x)" using t(3) Cons by (auto simp: on_way_def)
        ultimately show "\<exists>leaf \<in> set (leaves_of [] (Dir es)). on_way ms leaf" by blast
      qed
      with IH Cons show ?thesis by (auto split: option.splits)
    qed
  qed
qed

text \<open>No leaf lies below another, and all names on the way are proper.\<close>

definition apart :: "(string list \<times> string option) list \<Rightarrow> bool" where
  "apart ls \<longleftrightarrow> distinct ls \<and> (\<forall>a \<in> set ls. \<forall>b \<in> set ls. prefix (fst a) (fst b) \<longrightarrow> a = b)"

lemma leaf_not_below:
  "node_ok t \<Longrightarrow> a \<in> set (leaves_of [] t) \<Longrightarrow> b \<in> set (leaves_of [] t) \<Longrightarrow> prefix (fst a) (fst b) \<Longrightarrow> a = b"
proof (induction t arbitrary: a b)
  case (Dir es)
  show ?case
  proof (cases "es = []")
    case False
    obtain n ms t where a: "fst a = n # ms" "map_of es n = Some t" "(ms, snd a) \<in> set (leaves_of [] t)"
      using leaf_of_dir [OF False, of "fst a" "snd a"] Dir.prems(1,2) by auto
    obtain n' ms' t' where b: "fst b = n' # ms'" "map_of es n' = Some t'" "(ms', snd b) \<in> set (leaves_of [] t')"
      using leaf_of_dir [OF False, of "fst b" "snd b"] Dir.prems(1,3) by auto
    have "n' = n" "prefix ms ms'" using a(1) b(1) Dir.prems(4) by auto
    then have "(ms, snd a) = (ms', snd b)"
      using Dir.IH [of "(n, t)" t "(ms, snd a)" "(ms', snd b)"] a b Dir.prems(1) map_of_SomeD [OF a(2)] by (auto simp: snds.simps)
    with a(1) b(1) \<open>n' = n\<close> show ?thesis by (simp add: prod_eq_iff)
  qed (use Dir.prems in auto)
qed auto

lemma leaf_names: "node_ok t \<Longrightarrow> (ns, x) \<in> set (leaves_of [] t) \<Longrightarrow> n \<in> set ns \<Longrightarrow> entry_name n"
proof (induction t arbitrary: ns)
  case (Dir es)
  show ?case
  proof (cases "es = []")
    case False
    then obtain k ms t where a: "ns = k # ms" "map_of es k = Some t" "(ms, x) \<in> set (leaves_of [] t)"
      using leaf_of_dir [OF False, of ns x] Dir.prems(1,2) by auto
    note kt = map_of_SomeD [OF a(2)]
    have "entry_name k" "node_ok t" using Dir.prems(1) kt by auto
    with Dir.IH [OF kt, of t ms] a Dir.prems(3) show ?thesis by (auto simp: snds.simps)
  qed (use Dir.prems in auto)
qed auto

section \<open>The path of a leaf and the directories on its way\<close>

text \<open>The path a leaf travels under, and the directories the receiver makes for it.\<close>

definition leaf_path :: "string list \<times> string option \<Rightarrow> string" where
  "leaf_path l = (if snd l = None then join (fst l) @ ''/'' else join (fst l))"

definition levels :: "string list \<times> string option \<Rightarrow> nat" where
  "levels l = (if snd l = None then length (fst l) else length (fst l) - 1)"

definition leaf_dirs :: "string list \<times> string option \<Rightarrow> string set" where
  "leaf_dirs l = (\<lambda>k. join (take k (fst l))) ` {1..levels l}"

lemma path_ok_take: "path_ok ns \<Longrightarrow> 0 < k \<Longrightarrow> path_ok (take k ns)"
  by (auto dest: in_set_takeD)

lemma leaf_path_neq:
  assumes "path_ok (fst l)" "0 < k" "k \<le> length (fst l)"
  shows "leaf_path l = join (take k (fst l)) \<longleftrightarrow> levels l < k"
proof (cases "snd l = None")
  case True
  have "last (join (take k (fst l))) \<noteq> CHR ''/''" using join_last path_ok_take assms(1,2) by blast
  then have "leaf_path l \<noteq> join (take k (fst l))" using True unfolding leaf_path_def by (metis last_snoc)
  with True assms(3) show ?thesis by (simp add: levels_def)
next
  case False
  have "join (fst l) = join (take k (fst l)) \<longleftrightarrow> fst l = take k (fst l)"
    using join_inj path_ok_take assms(1,2) by blast
  also have "\<dots> \<longleftrightarrow> length (fst l) \<le> k" by (metis assms(3) le_antisym length_take min.absorb2 nle_le take_all)
  finally show ?thesis using False assms by (auto simp: leaf_path_def levels_def)
qed

lemma leaf_path_string:
  assumes "path_ok (fst l)"
  shows "c_string (leaf_path l)" "path_tokens (leaf_path l) = fst l" "last (leaf_path l) = CHR ''/'' \<longleftrightarrow> snd l = None"
    "leaf_path l \<noteq> []"
  using path_tokens_join [OF assms] join_last [OF assms] by (auto simp: leaf_path_def c_string_def)

lemma leaf_dirs_on_way:
  assumes "fst l \<noteq> []"
  shows "leaf_dirs l = {join ms | ms. ms \<noteq> [] \<and> on_way ms l}"
proof -
  have "(\<exists>k \<in> {1..levels l}. ms = take k (fst l)) \<longleftrightarrow> ms \<noteq> [] \<and> on_way ms l" for ms
  proof
    assume "\<exists>k \<in> {1..levels l}. ms = take k (fst l)"
    then obtain k where k: "1 \<le> k" "k \<le> levels l" "ms = take k (fst l)" by auto
    then have "snd l = None \<or> k < length (fst l)" by (auto simp: levels_def split: if_splits)
    with k assms show "ms \<noteq> [] \<and> on_way ms l" by (auto simp: on_way_def take_is_prefix)
  next
    assume ms: "ms \<noteq> [] \<and> on_way ms l"
    then obtain r where r: "fst l = ms @ r" by (auto simp: on_way_def prefix_def)
    have "snd l = None \<or> r \<noteq> []" using ms r by (auto simp: on_way_def)
    then have "length ms \<in> {1..levels l}" using ms r by (cases ms; cases r) (auto simp: levels_def)
    then show "\<exists>k \<in> {1..levels l}. ms = take k (fst l)" using r by (intro bexI [of _ "length ms"]) simp_all
  qed
  then show ?thesis unfolding leaf_dirs_def by (auto simp: image_iff) metis+
qed

section \<open>No leaf occurs twice\<close>

lemma distinct_concat_map:
  assumes "distinct (map fst es)" "\<And>e. e \<in> set es \<Longrightarrow> distinct (f e)"
    and "\<And>e x. e \<in> set es \<Longrightarrow> x \<in> set (f e) \<Longrightarrow> key x = fst e"
  shows "distinct (concat (map f es))"
  using assms
proof (induction es)
  case (Cons e es)
  have "set (f e) \<inter> set (concat (map f es)) = {}"
  proof (rule ccontr)
    assume "set (f e) \<inter> set (concat (map f es)) \<noteq> {}"
    then obtain x e' where "x \<in> set (f e)" "e' \<in> set es" "x \<in> set (f e')" by auto
    then have "fst e = fst e'" using Cons.prems(3) [of e x] Cons.prems(3) [of e' x] by simp
    with \<open>e' \<in> set es\<close> Cons.prems(1) show False by force
  qed
  moreover have "distinct (concat (map f es))" by (rule Cons.IH) (use Cons.prems in auto)
  ultimately show ?case using Cons.prems(2) [of e] by simp
qed simp

lemma leaves_distinct: "node_ok t \<Longrightarrow> distinct (leaves_of [] t)"
proof (induction t)
  case (Dir es)
  let ?f = "\<lambda>(n, t). leaves_of [n] t"
  have pre: "leaves_of [n] t = map (\<lambda>(ms, x). (n # ms, x)) (leaves_of [] t)" for n t
    using leaves_of_prefix [of "[n]" "[]" t] by simp
  have "distinct (concat (map ?f es))"
  proof (rule distinct_concat_map [where key = "hd \<circ> fst"])
    fix e assume e: "e \<in> set es"
    obtain n t where nt: "e = (n, t)" by fastforce
    have "inj (\<lambda>(ms :: string list, x :: string option). (n # ms, x))" by (auto simp: inj_def)
    then show "distinct (?f e)"
      using Dir.IH [OF e, of t] Dir.prems e nt by (auto simp: pre distinct_map snds.simps intro: inj_on_subset)
    fix x assume "x \<in> set (?f e)"
    then show "(hd \<circ> fst) x = fst e" using nt by (auto simp: pre)
  qed (use Dir.prems in simp)
  then show ?case by (cases "es = []") simp_all
qed simp

lemma top_leaves_eq: "es \<noteq> [] \<Longrightarrow> top_leaves es = leaves_of [] (Dir es)"
  by (simp add: top_leaves_def)

end
