(* ===== verification/SyncRound.thy ===== *)
theory SyncRound
  imports Paths
begin

text \<open>
  What sync_send writes, sync_receive rebuilds: the round trip of a directory tree through the pipe of
  SyncPipe, when writes succeed, no signal arrives and every read delivers all the bytes it asks for.
\<close>

section \<open>What the sender writes\<close>

definition frame :: "string \<Rightarrow> string \<Rightarrow> string" where
  "frame p c = le2 (length p) @ p @ le4 (length c) @ c"

definition leaf_frame :: "string list \<times> string option \<Rightarrow> string" where
  "leaf_frame l = (case snd l of Some c \<Rightarrow> frame (join (fst l)) c | None \<Rightarrow> frame (join (fst l) @ ''/'') [])"

definition sends :: "(nat \<times> out) option \<Rightarrow> out \<Rightarrow> string \<Rightarrow> bool" where
  "sends r st s \<longleftrightarrow> (\<exists>st'. r = Some (0, st') \<and> piped st' = piped st @ s)"

lemma sends_simps [simp]:
  "sends (Some (0, st)) st' s \<longleftrightarrow> piped st = piped st' @ s"
  "after_ok (Some (0, st)) f = f st"
  by (simp_all add: sends_def after_ok_def)

lemma sends_after:
  "sends r st a \<Longrightarrow> (\<And>st'. piped st' = piped st @ a \<Longrightarrow> sends (f st') st' b) \<Longrightarrow> sends (after_ok r f) st (a @ b)"
  by (fastforce simp: sends_def after_ok_def)

lemma pipe_write_sends: "\<forall>k. w k \<Longrightarrow> sends (pipe_write w s st) st s"
  by (simp add: pipe_write_def)

lemma chunk_loop_sends: "\<forall>k. w k \<Longrightarrow> 0 < b \<Longrightarrow> sends (chunk_loop w b s st) st s"
proof (induction "length s" arbitrary: s st rule: less_induct)
  case less
  show ?case
  proof (cases "length s \<ge> b")
    case True
    have "sends (after_ok (pipe_write w (take b s) st) (\<lambda>st. chunk_loop w b (drop b s) st)) st (take b s @ drop b s)"
      using less True by (intro sends_after pipe_write_sends) simp_all
    with True show ?thesis by (subst chunk_loop.simps) simp
  next
    case False
    then show ?thesis using pipe_write_sends [OF less.prems(1)] by (subst chunk_loop.simps) simp
  qed
qed

lemma sync_send_file_sends:
  assumes w: "\<forall>k. w k" "0 < b" "\<forall>p. cr p"
    and "length p < 2 ^ 16" "case n of File c \<Rightarrow> length c < 2 ^ 32 | Dir es \<Rightarrow> True"
  shows "sends (sync_send_file w cr b i p n st) st (frame p (case n of File c \<Rightarrow> c | Dir es \<Rightarrow> []))"
proof -
  let ?c = "case n of File c \<Rightarrow> c | Dir es \<Rightarrow> []"
  have size: "(case n of File c \<Rightarrow> length c mod 2 ^ 32 | Dir es \<Rightarrow> 0) = length ?c"
    using assms(5) by (auto split: node.splits)
  have content: "sends (case n of Dir es \<Rightarrow> Some (0, st)
            | File c \<Rightarrow>
                if length ?c = 0 then Some (0, st)
                else if \<not> cr p then Some (1, st)
                else chunk_loop w b (take (length ?c) c) st) st ?c" for st
    using w by (auto simp: chunk_loop_sends split: node.split)
  have path: "sends (chunk_loop w b (take (length p) p) st) st p" for st
    using chunk_loop_sends [OF w(1,2)] by simp
  have len: "length p mod 2 ^ 16 = length p" using assms(4) by simp
  have "sends (sync_send_file w cr b i p n st) st (le2 (length p) @ p @ le4 (length ?c) @ ?c @ [])"
    unfolding sync_send_file_def Let_def size len
    by (intro sends_after pipe_write_sends w(1) path content) (simp add: log_line_def)
  then show ?thesis by (simp add: frame_def)
qed

lemma each_entry_sends:
  assumes "\<And>e st. e \<in> set es \<Longrightarrow> sends (f e st) st (g e)"
  shows "sends (each_entry f es st) st (concat (map g es))"
  using assms
proof (induction es arbitrary: st)
  case (Cons e es)
  have "sends (f e st) st (g e)" by (rule Cons.prems) simp
  then show ?case unfolding each_entry.simps list.map concat.simps
    by (rule sends_after) (use Cons in auto)
qed simp

lemma concat_map_concat: "concat (map (\<lambda>x. concat (map h (k x))) xs) = concat (map h (concat (map k xs)))"
  by (induction xs) simp_all

definition fits :: "(string list \<times> string option) list \<Rightarrow> bool" where
  "fits ls \<longleftrightarrow> (\<forall>l \<in> set ls. length (join (fst l)) + 1 < 2 ^ 16)"

lemma fits_in: "fits (concat ls) \<Longrightarrow> l \<in> set ls \<Longrightarrow> fits l"
  by (auto simp: fits_def)

lemma entries_real: "node_ok (Dir es) \<Longrightarrow> filter (\<lambda>(n, t). \<not> is_dots n) es = es"
  by (rule filter_True) (auto simp: entry_name_def)

lemma sync_send_dir_sends:
  assumes "\<forall>k. w k" "0 < b" "\<forall>p. cr p" "node_ok (Dir es)" "path_ok ns" "fits (leaves_of ns (Dir es))"
  shows "sends (sync_send_dir w cr b i (join ns) es st) st (concat (map leaf_frame (leaves_of ns (Dir es))))"
  using assms(4-6)
proof (induction "size (Dir es)" arbitrary: es ns st rule: less_induct)
  case less
  note real = entries_real [OF less.prems(1)]
  show ?case
  proof (cases "es = []")
    case True
    have "length (append_to_rel_path (join ns) []) < 2 ^ 16"
      using less.prems(3) True by (simp add: fits_def append_to_rel_path_def)
    then have "sends (sync_send_file w cr b i (append_to_rel_path (join ns) []) (Dir []) st) st (frame (join ns @ ''/'') [])"
      using sync_send_file_sends [OF assms(1-3), of "append_to_rel_path (join ns) []" "Dir []"]
      by (simp add: append_to_rel_path_def)
    then show ?thesis using True assms(3) by (subst sync_send_dir.simps) (simp add: leaf_frame_def)
  next
    case False
    let ?g = "\<lambda>(n, t). concat (map leaf_frame (leaves_of (ns @ [n]) t))"
    let ?f = "\<lambda>(n, t) st. let path_buf = append_to_rel_path (join ns) n
               in case t of
                    Dir es' \<Rightarrow> sync_send_dir w cr b i path_buf es' st
                  | File c \<Rightarrow> sync_send_file w cr b i path_buf t st"
    have entry: "sends (?f (n, t) st) st (?g (n, t))" if e: "(n, t) \<in> set es" for n t st
    proof -
      have name: "path_ok (ns @ [n])" and ok: "node_ok t" using less.prems(1,2) e by auto
      have join: "append_to_rel_path (join ns) n = join (ns @ [n])" using join_snoc less.prems(2) by simp
      have "fits (concat (map (\<lambda>(n, t). leaves_of (ns @ [n]) t) es))" using less.prems(3) False by simp
      moreover have "leaves_of (ns @ [n]) t \<in> set (map (\<lambda>(n, t). leaves_of (ns @ [n]) t) es)" using e by force
      ultimately have fit: "fits (leaves_of (ns @ [n]) t)" by (rule fits_in)
      show ?thesis
      proof (cases t)
        case (File c)
        then have "length (join (ns @ [n])) < 2 ^ 16" using fit by (simp add: fits_def)
        then show ?thesis using sync_send_file_sends [OF assms(1-3), of "join (ns @ [n])" "File c"] ok File
          by (simp add: join leaf_frame_def)
      next
        case (Dir es')
        have "size (Dir es') < size (Dir es)" using entry_size [OF e] Dir by simp
        from less.hyps [OF this _ name] ok fit Dir show ?thesis by (simp add: join del: leaves_of.simps)
      qed
    qed
    have "sends (each_entry ?f es st) st (concat (map ?g es))"
      by (rule each_entry_sends) (use entry in fastforce)
    moreover have "concat (map ?g es) = concat (map leaf_frame (leaves_of ns (Dir es)))"
      using False concat_map_concat [of leaf_frame "\<lambda>(n, t). leaves_of (ns @ [n]) t" es] by (simp add: case_prod_unfold)
    moreover have "sync_send_dir w cr b i (join ns) es st = each_entry ?f es st"
      using assms(3) False unfolding sync_send_dir.simps [of w cr b i "join ns" es st] real by (simp add: Let_def)
    ultimately show ?thesis by simp
  qed
qed

definition quiet_sender :: "send_env \<Rightarrow> (string \<times> node) list \<Rightarrow> bool" where
  "quiet_sender e es \<longleftrightarrow> mkfifo_ok e \<and> fifo_opens e \<and> 0 < select_ret e \<and> input e = Some es
     \<and> (\<forall>k. \<not> signalled e k) \<and> (\<forall>k. write_ok e k) \<and> (\<forall>p. can_open e p)"

lemma or_quit_ok [simp]: "or_quit (Some (0, st)) msg f = f st"
  by (simp add: or_quit_def)

lemma log_line_piped [simp]: "piped (log_line s st) = piped st"
  by (simp add: log_line_def)

lemma send_loop_sends:
  assumes "quiet_sender e es0" "0 < b" "\<forall>(n, t) \<in> set es. entry_name n \<and> node_ok t" "fits (top_leaves es)"
  shows "sends (send_loop e b i k es st) st (concat (map leaf_frame (top_leaves es)))"
  using assms(3,4)
proof (induction es arbitrary: k st)
  case Nil
  then show ?case by (simp add: top_leaves_def)
next
  case (Cons x es)
  obtain n t where x: "x = (n, t)" by fastforce
  have ok: "entry_name n" "node_ok t" and fit: "fits (leaves_of [n] t)" "fits (top_leaves es)"
    using Cons.prems x by (auto simp: fits_def top_leaves_def)
  have q: "\<forall>k. write_ok e k" "\<forall>p. can_open e p" "\<not> signalled e k"
    using assms(1) by (simp_all add: quiet_sender_def)
  have "sends (case t of Dir es' \<Rightarrow> sync_send_dir (write_ok e) (can_open e) b i n es' st
        | File c \<Rightarrow> sync_send_file (write_ok e) (can_open e) b i n t st) st (concat (map leaf_frame (leaves_of [n] t)))"
  proof (cases t)
    case (File c)
    then show ?thesis using sync_send_file_sends [OF q(1) assms(2) q(2), of n "File c" i st] fit ok
      by (simp add: fits_def leaf_frame_def)
  next
    case (Dir es')
    then show ?thesis using sync_send_dir_sends [OF q(1) assms(2) q(2), of es' "[n]" i st] fit ok
      by (simp del: leaves_of.simps)
  qed
  then obtain st1 where st1: "(case t of Dir es' \<Rightarrow> sync_send_dir (write_ok e) (can_open e) b i n es' st
        | File c \<Rightarrow> sync_send_file (write_ok e) (can_open e) b i n t st) = Some (0, st1)"
      "piped st1 = piped st @ concat (map leaf_frame (leaves_of [n] t))"
    by (auto simp: sends_def)
  have "send_loop e b i k (x # es) st = send_loop e b i (k + 1) es st1"
    using st1(1) q(3) ok(1) by (simp add: x entry_name_def)
  moreover have "sends (send_loop e b i (k + 1) es st1) st1 (concat (map leaf_frame (top_leaves es)))"
    using Cons.IH fit(2) Cons.prems(1) by simp
  moreover have "concat (map leaf_frame (top_leaves (x # es)))
      = concat (map leaf_frame (leaves_of [n] t)) @ concat (map leaf_frame (top_leaves es))"
    by (simp add: top_leaves_def x)
  ultimately show ?case using st1(2) by (simp add: sends_def)
qed

lemma sync_send_sends:
  assumes "quiet_sender e es" "0 < b" "node_ok (Dir es)" "fits (top_leaves es)"
  shows "\<exists>st. sync_send e b i = Some (0, st) \<and> piped st = concat (map leaf_frame (top_leaves es)) @ le2 0"
proof -
  let ?st = "log_line (to_client i ''Initiating sending of files.'') \<lparr> piped = [], writes = 0, log = [] \<rparr>"
  obtain st where st: "send_loop e b i 3 es ?st = Some (0, st)" "piped st = concat (map leaf_frame (top_leaves es))"
    using send_loop_sends [OF assms(1,2) _ assms(4), of i 3 ?st] assms(3) by (auto simp: sends_def)
  have q: "mkfifo_ok e" "fifo_opens e" "0 < select_ret e" "input e = Some es" "\<And>k. \<not> signalled e k" "\<And>k. write_ok e k"
    using assms(1) by (simp_all add: quiet_sender_def)
  then show ?thesis using st by (simp add: sync_send_def pipe_write_def Let_def)
qed

section \<open>What the receiver reads\<close>

lemma of_byte: "(of_char (byte n) :: nat) = n mod 256"
  by (simp add: byte_def take_bit_eq_mod)

lemma le2_value: "n < 2 ^ 16 \<Longrightarrow> le_value (le2 n) = n"
proof -
  assume n: "n < 2 ^ 16"
  then have "n div 256 mod 256 = n div 256" by simp
  then show ?thesis by (simp add: le2_def of_byte)
qed

lemma le4_value: "n < 2 ^ 32 \<Longrightarrow> le_value (le4 n) = n"
proof -
  assume n: "n < 2 ^ 32"
  define a where "a = n div 256"
  define b where "b = a div 256"
  define c where "c = b div 256"
  have "c < 256" using n by (simp add: a_def b_def c_def div_mult2_eq [symmetric])
  moreover have "n = n mod 256 + 256 * a" "a = a mod 256 + 256 * b" "b = b mod 256 + 256 * c"
    by (simp_all add: a_def b_def c_def)
  moreover have "n div 256 ^ 2 = b" "n div 256 ^ 3 = c"
    by (simp_all add: a_def b_def c_def div_mult2_eq [symmetric] power2_eq_square power3_eq_cube)
  ultimately show ?thesis by (simp add: le4_def of_byte a_def [symmetric])
qed

lemma le_length [simp]: "length (le2 n) = 2" "length (le4 n) = 4"
  by (simp_all add: le2_def le4_def)

text \<open>Every read delivers all the bytes it asks for.\<close>

definition generous :: "(nat \<Rightarrow> nat option) \<Rightarrow> nat \<Rightarrow> bool" where
  "generous r n \<longleftrightarrow> (\<forall>k. \<exists>m. r k = Some m \<and> n \<le> m)"

lemma pipe_read_full:
  assumes "generous r n" "length c = n" "stream s = Some (c @ rest)"
  shows "\<exists>s'. pipe_read r n buf s = (Some (map Some c @ drop n buf), s') \<and> stream s' = Some rest"
proof -
  obtain m where m: "r (reads s) = Some m" "n \<le> m" using assms(1) unfolding generous_def by blast
  then have "min n (max 1 m) = n" by simp
  with m assms(2,3) show ?thesis by (simp add: pipe_read_def Let_def)
qed

lemma generous_le: "generous r n \<Longrightarrow> m \<le> n \<Longrightarrow> generous r m"
  unfolding generous_def by (meson le_trans)

lemma read_loop_full:
  assumes "generous r b" "0 < b" "b \<le> length buf" "stream s = Some (c @ rest)"
  shows "\<exists>s'. read_loop r b (length c) buf acc s = Some (0, acc @ map Some c, s') \<and> stream s' = Some rest"
  using assms(3,4)
proof (induction "length c" arbitrary: c buf acc s rule: less_induct)
  case less
  show ?case
  proof (cases "length c \<ge> b")
    case True
    have "stream s = Some (take b c @ (drop b c @ rest))" using less.prems(2) by (simp add: append_assoc [symmetric])
    then obtain s1 where s1: "pipe_read r b buf s = (Some (map Some (take b c) @ drop b buf), s1)" "stream s1 = Some (drop b c @ rest)"
      using pipe_read_full [OF assms(1), of "take b c" s "drop b c @ rest" buf] True by auto
    let ?buf = "map Some (take b c) @ drop b buf"
    have "\<exists>s'. read_loop r b (length (drop b c)) ?buf (acc @ map Some (take b c)) s1
        = Some (0, (acc @ map Some (take b c)) @ map Some (drop b c), s') \<and> stream s' = Some rest"
      by (rule less.hyps) (use True assms(2) less.prems(1) s1(2) in auto)
    moreover have "read_loop r b (length c) buf acc s
        = read_loop r b (length (drop b c)) ?buf (acc @ map Some (take b c)) s1"
      using s1(1) True by (subst read_loop.simps) simp
    moreover have "(acc @ map Some (take b c)) @ map Some (drop b c) = acc @ map Some c"
      by (simp only: append_assoc map_append [symmetric] append_take_drop_id)
    ultimately show ?thesis by simp
  next
    case False
    obtain s1 where s1: "pipe_read r (length c) buf s = (Some (map Some c @ drop (length c) buf), s1)" "stream s1 = Some rest"
      using pipe_read_full [OF generous_le [OF assms(1)], of "length c" c s rest buf] False less.prems(2) by auto
    with False show ?thesis by (subst read_loop.simps) simp
  qed
qed

lemma make_tree_from:
  assumes "path_ok (fst l)" "0 < i" "i \<le> levels l" "\<forall>k. 0 < k \<and> k \<le> levels l \<longrightarrow> stored m (join (take k (fst l))) = None"
  shows "make_tree (leaf_path l) (join (take i (fst l))) (drop i (fst l)) m
    = m\<lparr>made := made m \<union> (\<lambda>k. join (take k (fst l))) ` {i<..levels l}\<rparr>"
  using assms(2-4)
proof (induction "length (fst l) - i" arbitrary: i m)
  case 0
  then have "i = length (fst l)" "levels l = i" by (auto simp: levels_def split: if_splits)
  then show ?case by simp
next
  case (Suc d)
  then have i: "i < length (fst l)" by simp
  have tree: "join (take i (fst l)) @ ''/'' @ fst l ! i = join (take (Suc i) (fst l))"
    using join_snoc [of "take i (fst l)" "fst l ! i"] assms(1) Suc.prems(1) i
    by (simp add: take_Suc_conv_app_nth append_to_rel_path_def)
  have step: "drop i (fst l) = fst l ! i # drop (Suc i) (fst l)" using i by (simp add: Cons_nth_drop_Suc)
  have stop: "leaf_path l = join (take (Suc i) (fst l)) \<longleftrightarrow> levels l < Suc i"
    using leaf_path_neq [OF assms(1), of "Suc i"] i by simp
  have mt: "make_tree (leaf_path l) (join (take i (fst l))) (drop i (fst l)) m
      = (if levels l < Suc i then m
         else make_tree (leaf_path l) (join (take (Suc i) (fst l))) (drop (Suc i) (fst l)) (mkdir (join (take (Suc i) (fst l))) m))"
    unfolding step make_tree.simps Let_def tree strcmp_eq_0 stop ..
  show ?case
  proof (cases "levels l < Suc i")
    case True
    then have none: "{i<..levels l} = {}" by auto
    show ?thesis unfolding mt none using True by simp
  next
    case False
    define d1 where "d1 = join (take (Suc i) (fst l))"
    have mk: "mkdir d1 m = m\<lparr>made := insert d1 (made m)\<rparr>"
      using Suc.prems(3) False by (simp add: mkdir_def d1_def)
    have "{i<..levels l} = insert (Suc i) {Suc i<..levels l}" using False by auto
    then have new: "(\<lambda>k. join (take k (fst l))) ` {i<..levels l} = insert d1 ((\<lambda>k. join (take k (fst l))) ` {Suc i<..levels l})"
      by (simp add: d1_def)
    have "make_tree (leaf_path l) d1 (drop (Suc i) (fst l)) (m\<lparr>made := insert d1 (made m)\<rparr>)
        = (m\<lparr>made := insert d1 (made m)\<rparr>)\<lparr>made := made (m\<lparr>made := insert d1 (made m)\<rparr>)
            \<union> (\<lambda>k. join (take k (fst l))) ` {Suc i<..levels l}\<rparr>"
      unfolding d1_def by (rule Suc.hyps(1)) (use Suc.hyps(2) Suc.prems False in auto)
    then show ?thesis using False unfolding mt d1_def [symmetric] mk new by simp
  qed
qed

lemma make_dirs:
  assumes "path_ok (fst l)" "\<forall>d \<in> leaf_dirs l. stored m d = None" "fst l = token # tokens"
  shows "(if strcmp token (leaf_path l) \<noteq> 0 then make_tree (leaf_path l) token tokens (mkdir token m) else m)
    = m\<lparr>made := made m \<union> leaf_dirs l\<rparr>"
proof -
  have start: "leaf_path l = token \<longleftrightarrow> levels l < 1" using leaf_path_neq [OF assms(1), of 1] assms(3) by simp
  have free: "\<forall>k. 0 < k \<and> k \<le> levels l \<longrightarrow> stored m (join (take k (fst l))) = None"
    using assms(2) by (auto simp: leaf_dirs_def)
  show ?thesis
  proof (cases "levels l < 1")
    case True
    then have "leaf_dirs l = {}" by (simp add: leaf_dirs_def)
    then show ?thesis using start True by simp
  next
    case False
    then have l1: "1 \<le> levels l" by simp
    let ?m = "m\<lparr>made := insert token (made m)\<rparr>"
    have "stored m token = None" using free [rule_format, of 1] l1 assms(3) by simp
    then have mk: "mkdir token m = ?m" by (simp add: mkdir_def)
    have "make_tree (leaf_path l) (join (take 1 (fst l))) (drop 1 (fst l)) ?m
        = ?m\<lparr>made := made ?m \<union> (\<lambda>k. join (take k (fst l))) ` {1<..levels l}\<rparr>"
      by (rule make_tree_from [OF assms(1)]) (use l1 free in auto)
    moreover have "leaf_dirs l = insert token ((\<lambda>k. join (take k (fst l))) ` {1<..levels l})"
    proof -
      have "{1..levels l} = insert 1 {1<..levels l}" using l1 by auto
      then show ?thesis unfolding leaf_dirs_def using assms(3) by simp
    qed
    ultimately show ?thesis using assms(3) start l1 mk by simp
  qed
qed

definition leaf_content :: "string list \<times> string option \<Rightarrow> string" where
  "leaf_content l = (case snd l of None \<Rightarrow> [] | Some c \<Rightarrow> c)"

definition put_leaf :: "string list \<times> string option \<Rightarrow> (string \<Rightarrow> bytes option) \<Rightarrow> string \<Rightarrow> bytes option" where
  "put_leaf l f = (case snd l of None \<Rightarrow> f | Some c \<Rightarrow> f(leaf_path l \<mapsto> map Some c))"

lemma leaf_frame_parts:
  "leaf_frame l = le2 (length (leaf_path l)) @ leaf_path l @ le4 (length (leaf_content l)) @ leaf_content l"
  by (auto simp: leaf_frame_def frame_def leaf_path_def leaf_content_def split: option.split)

definition fresh :: "string list \<times> string option \<Rightarrow> mirror_dir \<Rightarrow> bool" where
  "fresh l m \<longleftrightarrow> (\<forall>d \<in> leaf_dirs l. stored m d = None) \<and>
     (snd l \<noteq> None \<longrightarrow> leaf_path l \<notin> made m \<and> stored m (leaf_path l) = None)"

lemma open_leaf:
  assumes "path_ok (fst l)" "snd l \<noteq> None" "fresh l m"
  shows "open_file (leaf_path l) (m\<lparr>made := made m \<union> leaf_dirs l\<rparr>)
    = Some (m\<lparr>made := made m \<union> leaf_dirs l, stored := (stored m)(leaf_path l := Some [])\<rparr>)"
proof -
  have "leaf_path l \<notin> leaf_dirs l"
  proof
    assume "leaf_path l \<in> leaf_dirs l"
    then obtain k where k: "k \<in> {1..levels l}" "leaf_path l = join (take k (fst l))" by (auto simp: leaf_dirs_def)
    moreover have "k \<le> length (fst l)" using k(1) by (auto simp: levels_def split: if_splits)
    ultimately show False using leaf_path_neq [OF assms(1), of k] by simp
  qed
  moreover have "dir_part (leaf_path l) \<in> leaf_dirs l" if slash: "CHR ''/'' \<in> set (leaf_path l)"
  proof -
    have split: "butlast (fst l) @ [last (fst l)] = fst l" using assms(1) by simp
    have p: "leaf_path l = join (fst l)" using assms(2) by (simp add: leaf_path_def)
    have "butlast (fst l) \<noteq> [] \<and> dir_part (leaf_path l) = join (butlast (fst l))"
      using dir_part_join [of "butlast (fst l)" "last (fst l)"] assms(1) slash unfolding p split by (auto split: if_splits)
    moreover have "butlast (fst l) = take (levels l) (fst l)" using assms(2) by (auto simp: levels_def butlast_conv_take)
    moreover have "levels l \<in> {1..levels l}" if "take (levels l) (fst l) \<noteq> []" using that by (cases "levels l") auto
    ultimately show ?thesis unfolding leaf_dirs_def by auto
  qed
  ultimately show ?thesis using assms(2,3) by (simp add: open_file_def fresh_def)
qed

lemma read_path_full:
  assumes "generous r b" "0 < b" "path_ok (fst l)" "fresh l m" "stream s = Some (leaf_path l @ rest)"
  shows "\<exists>s'. read_file_path r b (length (leaf_path l)) m s = Some (ok (leaf_path l, True,
      (if snd l = None then m\<lparr>made := made m \<union> leaf_dirs l\<rparr>
       else m\<lparr>made := made m \<union> leaf_dirs l, stored := (stored m)(leaf_path l := Some [])\<rparr>), s')) \<and> stream s' = Some rest"
proof -
  obtain s' where s': "read_loop r b (length (leaf_path l)) (replicate (b + 1) None) [] s = Some (0, map Some (leaf_path l), s')"
      "stream s' = Some rest"
    using read_loop_full [OF assms(1,2) _ assms(5), of "replicate (b + 1) None" "[]"] by auto
  obtain token tokens where tk: "fst l = token # tokens" using assms(3) by (cases "fst l") auto
  have str: "read_str (map Some (leaf_path l) @ [Some NUL]) = ok (leaf_path l)"
    using read_str_written [OF leaf_path_string(1) [OF assms(3)]] by simp
  have dirs: "(if strcmp token (leaf_path l) \<noteq> 0 then make_tree (leaf_path l) token tokens (mkdir token m) else m)
      = m\<lparr>made := made m \<union> leaf_dirs l\<rparr>"
    by (rule make_dirs [OF assms(3) _ tk]) (use assms(4) in \<open>simp add: fresh_def\<close>)
  have "read_file_path r b (length (leaf_path l)) m s = Some
      (let m = m\<lparr>made := made m \<union> leaf_dirs l\<rparr> in
       if last (leaf_path l) \<noteq> CHR ''/'' then
         (case open_file (leaf_path l) m of None \<Rightarrow> ok (leaf_path l, False, m, s') | Some m \<Rightarrow> ok (leaf_path l, True, m, s'))
       else ok (leaf_path l, True, m, s'))"
    unfolding read_file_path_def s'(1) by (simp add: str leaf_path_string(2) [OF assms(3)] tk Let_def flip: dirs)
  then show ?thesis
    using s'(2) open_leaf [OF assms(3) _ assms(4)] leaf_path_string(3) [OF assms(3)] by (simp add: Let_def)
qed

lemma read_file_full:
  assumes "generous r b" "0 < b" "stream s = Some (leaf_content l @ rest)"
    and "snd l \<noteq> None \<longrightarrow> stored m (leaf_path l) = Some []" "path_ok (fst l)"
  shows "\<exists>s'. read_file r b (leaf_path l) (length (leaf_content l)) m s = Some (0, m\<lparr>stored := put_leaf l (stored m)\<rparr>, s')
      \<and> stream s' = Some rest"
proof (cases "leaf_content l = []")
  case True
  then have "put_leaf l (stored m) = stored m"
    using assms(4) by (auto simp: put_leaf_def leaf_content_def fun_eq_iff split: option.splits)
  with True assms(3) show ?thesis by (simp add: read_file_def)
next
  case False
  then obtain c where c: "snd l = Some c" "leaf_content l = c" "c \<noteq> []" by (auto simp: leaf_content_def split: option.splits)
  obtain s' where s': "read_loop r b (length c) (replicate (b + 1) None) [] s = Some (0, map Some c, s')" "stream s' = Some rest"
    using read_loop_full [OF assms(1,2), of "replicate (b + 1) None" s c rest "[]"] assms(3) c(2) by auto
  have "last (leaf_path l) \<noteq> CHR ''/''" using leaf_path_string(3) [OF assms(5)] c(1) by simp
  then show ?thesis using s' c assms(4) by (simp add: read_file_def put_leaf_def Let_def)
qed

text \<open>What a leaf does to the mirror directory, the log aside.\<close>

definition adds :: "(string list \<times> string option) list \<Rightarrow> mirror_dir \<Rightarrow> mirror_dir \<Rightarrow> bool" where
  "adds ls m m' \<longleftrightarrow> made m' = made m \<union> \<Union>(leaf_dirs ` set ls) \<and> stored m' = fold put_leaf ls (stored m)"

definition leaf_fits :: "string list \<times> string option \<Rightarrow> bool" where
  "leaf_fits l \<longleftrightarrow> path_ok (fst l) \<and> length (leaf_path l) < 2 ^ 16 \<and> length (leaf_content l) < 2 ^ 32"

lemma le_value_map [simp]: "map (the \<circ> Some) s = s" "map the (map Some s) = s"
  by (simp_all add: comp_def)

lemma recv_frame_full:
  assumes "generous (delivers e) (max b 4)" "0 < b" "leaf_fits l" "fresh l m"
    and "le_value (map the pl) = length (leaf_path l)" "length fsz = 4"
    and "stream s = Some (leaf_path l @ le4 (length (leaf_content l)) @ leaf_content l @ rest)"
  shows "\<exists>m' s'. recv_frame e b i pl fsz m s = Some (ok (0, map Some (le4 (length (leaf_content l))), m', s'))
      \<and> adds [l] m m' \<and> stream s' = Some rest"
proof -
  have g: "generous (delivers e) b" "generous (delivers e) 4" using generous_le [OF assms(1)] by simp_all
  have p: "path_ok (fst l)" using assms(3) by (simp add: leaf_fits_def)
  let ?n = "length (leaf_content l)"
  define m1 where "m1 = (if snd l = None then m\<lparr>made := made m \<union> leaf_dirs l\<rparr>
       else m\<lparr>made := made m \<union> leaf_dirs l, stored := (stored m)(leaf_path l := Some [])\<rparr>)"
  have opened: "snd l \<noteq> None \<longrightarrow> stored m1 (leaf_path l) = Some []" by (simp add: m1_def)
  obtain s1 where s1: "read_file_path (delivers e) b (length (leaf_path l)) m s = Some (ok (leaf_path l, True, m1, s1))"
      "stream s1 = Some (le4 ?n @ leaf_content l @ rest)"
    using read_path_full [OF g(1) assms(2) p assms(4,7)] unfolding m1_def by blast
  obtain s2 where s2: "pipe_read (delivers e) 4 fsz s1 = (Some (map Some (le4 ?n)), s2)" "stream s2 = Some (leaf_content l @ rest)"
    using pipe_read_full [OF g(2) le_length(2) s1(2), of fsz] assms(6) by auto
  obtain s3 where s3: "read_file (delivers e) b (leaf_path l) ?n m1 s2 = Some (0, m1\<lparr>stored := put_leaf l (stored m1)\<rparr>, s3)"
      "stream s3 = Some rest"
    using read_file_full [OF g(1) assms(2) s2(2) opened p] by auto
  have n: "le_value (le4 ?n) = ?n" using assms(3) by (simp add: leaf_fits_def le4_value)
  let ?m2 = "rlog_line (from_client i (leaf_path l @ '' - '' @ dec ?n @ '' bytes'')) (m1\<lparr>stored := put_leaf l (stored m1)\<rparr>)"
  have "recv_frame e b i pl fsz m s = Some (ok (0, map Some (le4 ?n), ?m2, s3))"
    unfolding recv_frame_def assms(5) s1(1) Let_def run_then_simps prod.case s2(1) by (simp add: n s3(1))
  moreover have "adds [l] m ?m2" by (auto simp: adds_def rlog_line_def put_leaf_def m1_def)
  ultimately show ?thesis using s3(2) by blast
qed

lemma fresh_step:
  assumes "fresh l' m" "adds [l] m m'" "path_ok (fst l)" "path_ok (fst l')"
    and apart: "\<not> prefix (fst l) (fst l')" "\<not> prefix (fst l') (fst l)"
  shows "fresh l' m'"
proof -
  have fpath: "leaf_path k = join (fst k)" if "snd k \<noteq> None" for k :: "string list \<times> string option"
    using that by (simp add: leaf_path_def)
  have dirs: "join (fst k) \<notin> leaf_dirs k'" if "path_ok (fst k)" "path_ok (fst k')" "\<not> prefix (fst k) (fst k')" for k k'
  proof
    assume "join (fst k) \<in> leaf_dirs k'"
    then obtain j where "j \<in> {1..levels k'}" and j2: "join (fst k) = join (take j (fst k'))"
      unfolding leaf_dirs_def image_iff by blast
    then have j: "0 < j" by simp
    then have "fst k = take j (fst k')" using join_inj [OF that(1) path_ok_take [OF that(2) j]] j2 by simp
    with that(3) show False by (metis take_is_prefix)
  qed
  have neq: "join (fst l) \<noteq> join (fst l')" using join_inj [OF assms(3,4)] apart(1) by auto
  have made: "made m' = made m \<union> leaf_dirs l" and stored: "stored m' = put_leaf l (stored m)"
    using assms(2) by (simp_all add: adds_def)
  have same: "stored m' p = stored m p" if "snd l \<noteq> None \<Longrightarrow> p \<noteq> join (fst l)" for p
    using that fpath [of l] by (auto simp: stored put_leaf_def split: option.split)
  have "\<forall>d \<in> leaf_dirs l'. stored m' d = None"
    using assms(1) same dirs [OF assms(3,4) apart(1)] unfolding fresh_def by metis
  moreover have "leaf_path l' \<notin> made m' \<and> stored m' (leaf_path l') = None" if "snd l' \<noteq> None"
    using assms(1) that dirs [OF assms(4,3) apart(2)] neq same [of "leaf_path l'"] fpath [OF that]
    unfolding fresh_def made by auto
  ultimately show ?thesis unfolding fresh_def by blast
qed

lemma adds_trans: "adds [l] m m1 \<Longrightarrow> adds ls m1 m2 \<Longrightarrow> adds (l # ls) m m2"
  by (auto simp: adds_def)

text \<open>All frames are read; the loop then asks for the length of another path.\<close>

definition ask_next ::
    "recv_env \<Rightarrow> nat \<Rightarrow> string \<Rightarrow> nat \<Rightarrow> bytes \<Rightarrow> bytes \<Rightarrow> mirror_dir \<Rightarrow> inp \<Rightarrow> (fault + (nat \<times> mirror_dir \<times> inp)) option" where
  "ask_next e b i k pl fsz m s =
     (case pipe_read (delivers e) 2 pl s of
        (got, s) \<Rightarrow>
          let pl = (case got of None \<Rightarrow> pl | Some b \<Rightarrow> b)
          in if le_value (map the pl) \<noteq> 0 then recv_loop e b i (k + 1) pl fsz m s
             else Some (ok (0, rlog_line (from_client i ''File copy ends successfully.'') m, s)))"

lemma recv_loop_frames:
  assumes "generous (delivers e) (max b 4)" "0 < b" "\<forall>k. \<not> rsignalled e k"
    and "apart (l # ls)" "\<forall>l \<in> set (l # ls). leaf_fits l \<and> fresh l m" "length fsz = 4"
    and "stream s = Some (leaf_path l @ le4 (length (leaf_content l)) @ leaf_content l @ concat (map leaf_frame ls) @ rest)"
    and "le_value (map the pl) = length (leaf_path l)" "length pl = 2"
  shows "\<exists>k' pl' fsz' m' s'. recv_loop e b i k pl fsz m s = ask_next e b i k' pl' fsz' m' s' \<and> adds (l # ls) m m' \<and>
    stream s' = Some rest \<and> length pl' = 2 \<and> 0 < le_value (map the pl')"
  using assms(4-)
proof (induction ls arbitrary: l k pl fsz m s)
  case Nil
  obtain m1 s1 where f: "recv_frame e b i pl fsz m s = Some (ok (0, map Some (le4 (length (leaf_content l))), m1, s1))"
      "adds [l] m m1" "stream s1 = Some rest"
    using recv_frame_full [OF assms(1,2), of l m pl fsz s rest i] Nil by auto
  have "recv_loop e b i k pl fsz m s = ask_next e b i k pl (map Some (le4 (length (leaf_content l)))) m1 s1"
    using assms(3) by (subst recv_loop.simps) (simp add: f(1) ask_next_def)
  moreover have "0 < le_value (map the pl)"
    using Nil.prems leaf_path_string(4) [of l] by (simp add: leaf_fits_def)
  ultimately show ?case using f Nil.prems(6) by blast
next
  case (Cons l' ls)
  have g: "generous (delivers e) 2" using generous_le [OF assms(1)] by simp
  let ?tail = "leaf_path l' @ le4 (length (leaf_content l')) @ leaf_content l' @ concat (map leaf_frame ls) @ rest"
  obtain m1 s1 where f: "recv_frame e b i pl fsz m s = Some (ok (0, map Some (le4 (length (leaf_content l))), m1, s1))"
      "adds [l] m m1" "stream s1 = Some (le2 (length (leaf_path l')) @ ?tail)"
    using recv_frame_full [OF assms(1,2), of l m pl fsz s "le2 (length (leaf_path l')) @ ?tail" i] Cons.prems
    by (auto simp: leaf_frame_parts [of l'])
  obtain s2 where s2: "pipe_read (delivers e) 2 pl s1 = (Some (map Some (le2 (length (leaf_path l')))), s2)" "stream s2 = Some ?tail"
    using pipe_read_full [OF g le_length(1) f(3), of pl] Cons.prems(6) by auto
  have fit: "leaf_fits k" if "k \<in> set (l # l' # ls)" for k using Cons.prems(2) that by blast
  have val: "le_value (le2 (length (leaf_path l'))) = length (leaf_path l')"
    using fit [of l'] by (intro le2_value) (simp add: leaf_fits_def)
  have "leaf_path l' \<noteq> []" using fit [of l'] leaf_path_string(4) [of l'] by (simp add: leaf_fits_def)
  then have "recv_loop e b i k pl fsz m s
      = recv_loop e b i (k + 1) (map Some (le2 (length (leaf_path l')))) (map Some (le4 (length (leaf_content l)))) m1 s2"
    using assms(3) by (subst recv_loop.simps) (simp add: f(1) s2(1) val)
  moreover have "fresh k m1" if k: "k \<in> set (l' # ls)" for k
  proof -
    have "k \<noteq> l" "\<not> prefix (fst l) (fst k)" "\<not> prefix (fst k) (fst l)" using Cons.prems(1) k by (auto simp: apart_def)
    with fresh_step [of k m l m1] f(2) fit [of l] fit [of k] Cons.prems(2) k show ?thesis by (auto simp: leaf_fits_def)
  qed
  then have "\<exists>k' pl' fsz' m' s'. recv_loop e b i (k + 1) (map Some (le2 (length (leaf_path l'))))
        (map Some (le4 (length (leaf_content l)))) m1 s2 = ask_next e b i k' pl' fsz' m' s'
      \<and> adds (l' # ls) m1 m' \<and> stream s' = Some rest \<and> length pl' = 2 \<and> 0 < le_value (map the pl')"
    by (intro Cons.IH) (use Cons.prems(1,2) s2(2) val in \<open>auto simp: apart_def\<close>)
  ultimately show ?case using adds_trans [OF f(2)] by metis
qed

lemma ask_next_end:
  assumes "generous (delivers e) 2" "stream s = Some (le2 0)" "length pl = 2"
  shows "\<exists>s'. ask_next e b i k pl fsz m s = Some (ok (0, rlog_line (from_client i ''File copy ends successfully.'') m, s'))
    \<and> stream s' = Some []"
proof -
  obtain s2 where s2: "pipe_read (delivers e) 2 pl s = (Some (map Some (le2 0)), s2)" "stream s2 = Some []"
    using pipe_read_full [OF assms(1) le_length(1), of s 0 "[]" pl] assms(2,3) by auto
  then show ?thesis by (simp add: ask_next_def le2_value)
qed

text \<open>Where the stream ends without the two zero bytes, the next path is read from memory never written.\<close>

lemma read_loop_eof:
  assumes "generous r b" "0 < b" "buf = replicate (b + 1) None" "stream s = Some []"
  shows "\<exists>s'. read_loop r b n buf acc s = Some (0, acc @ replicate n None, s')"
  using assms(4)
proof (induction n arbitrary: acc s rule: less_induct)
  case (less n)
  have rd: "\<exists>s'. pipe_read r k buf s = (Some buf, s') \<and> stream s' = Some []" for k
  proof -
    obtain m where "r (reads s) = Some m" using assms(1) unfolding generous_def by blast
    then show ?thesis using less.prems by (simp add: pipe_read_def)
  qed
  have tk: "take k buf = replicate k None" if "k \<le> b" for k
    using that by (simp add: assms(3) take_replicate min_def del: replicate_Suc)
  show ?case
  proof (cases "n \<ge> b")
    case True
    obtain s1 where s1: "pipe_read r b buf s = (Some buf, s1)" "stream s1 = Some []" using rd by blast
    have "read_loop r b n buf acc s = read_loop r b (n - b) buf (acc @ replicate b None) s1"
      using True s1(1) tk [of b] by (subst read_loop.simps) simp
    moreover obtain s' where "read_loop r b (n - b) buf (acc @ replicate b None) s1
        = Some (0, (acc @ replicate b None) @ replicate (n - b) None, s')"
      using less.IH [of "n - b" s1 "acc @ replicate b None"] True assms(2) s1(2) by auto
    moreover have "replicate b None @ replicate (n - b) None = (replicate n None :: bytes)"
      using True by (simp flip: replicate_add)
    ultimately show ?thesis by simp
  next
    case False
    obtain s1 where "pipe_read r n buf s = (Some buf, s1)" using rd by blast
    with False tk [of n] show ?thesis by (subst read_loop.simps) simp
  qed
qed

lemma ask_next_eof:
  assumes "generous (delivers e) (max b 4)" "0 < b" "stream s = Some []" "0 < le_value (map the pl)"
  shows "ask_next e b i k pl fsz m s = Some (crash Uninitialised)"
proof -
  have g: "generous (delivers e) b" using generous_le [OF assms(1)] by simp
  obtain n where "delivers e (reads s) = Some n" using assms(1) unfolding generous_def by blast
  then obtain s1 where s1: "pipe_read (delivers e) 2 pl s = (Some pl, s1)" "stream s1 = Some []"
    using assms(3) by (auto simp: pipe_read_def)
  let ?n = "le_value (map the pl)"
  obtain s2 where s2: "read_loop (delivers e) b ?n (replicate (b + 1) None) [] s1 = Some (0, replicate ?n None, s2)"
    using read_loop_eof [OF g assms(2), of "replicate (b + 1) None" s1 ?n "[]"] s1(2) by auto
  have "read_str (replicate ?n None @ [Some NUL]) = crash Uninitialised" using assms(4) by (cases ?n) simp_all
  then have "read_file_path (delivers e) b ?n m s1 = Some (crash Uninitialised)"
    unfolding read_file_path_def s2 by simp
  then have "recv_frame e b i pl fsz m s1 = Some (crash Uninitialised)" by (simp add: recv_frame_def Let_def)
  then show ?thesis using assms(4) by (simp add: ask_next_def s1(1) recv_loop.simps)
qed

section \<open>The round trip\<close>

lemma leaf_size: "node_ok t \<Longrightarrow> (ns, Some c) \<in> set (leaves_of [] t) \<Longrightarrow> length c < 2 ^ 32"
proof (induction t arbitrary: ns)
  case (Dir es)
  show ?case
  proof (cases "es = []")
    case False
    then obtain k ms t where a: "map_of es k = Some t" "(ms, Some c) \<in> set (leaves_of [] t)"
      using leaf_of_dir [OF False, of ns "Some c"] Dir.prems(1,2) by auto
    note kt = map_of_SomeD [OF a(1)]
    with Dir.IH [OF kt, of t ms] a Dir.prems(1) show ?thesis by (auto simp: snds.simps)
  qed (use Dir.prems in auto)
qed auto

lemma top_leaves_good:
  assumes "node_ok (Dir es)" "fits (top_leaves es)" "es \<noteq> []"
  shows "apart (top_leaves es)" "\<forall>l \<in> set (top_leaves es). leaf_fits l"
proof -
  note eq = top_leaves_eq [OF assms(3)]
  show "apart (top_leaves es)"
    using leaves_distinct [OF assms(1)] leaf_not_below [OF assms(1)] unfolding apart_def eq by blast
  show "\<forall>l \<in> set (top_leaves es). leaf_fits l"
  proof
    fix l assume l: "l \<in> set (top_leaves es)"
    obtain ns x where nx: "l = (ns, x)" by fastforce
    note l' = l [unfolded eq nx]
    have "ns \<noteq> []" using leaf_of_dir [OF assms(3), of ns x] l' assms(1) by auto
    moreover have "\<forall>n \<in> set ns. entry_name n" using leaf_names [OF assms(1) l'] by blast
    moreover have "length (leaf_path l) < 2 ^ 16" using assms(2) l by (auto simp: fits_def leaf_path_def)
    moreover have "length (leaf_content l) < 2 ^ 32"
      using leaf_size [OF assms(1)] l' by (auto simp: leaf_content_def nx split: option.split)
    ultimately show "leaf_fits l" by (simp add: leaf_fits_def nx)
  qed
qed

lemma fold_put_leaf:
  assumes "apart ls" "\<forall>l \<in> set ls. path_ok (fst l)"
  shows "fold put_leaf ls f p = Some bts \<longleftrightarrow>
    (\<exists>ns c. (ns, Some c) \<in> set ls \<and> p = join ns \<and> bts = map Some c) \<or>
    (f p = Some bts \<and> (\<forall>ns c. (ns, Some c) \<in> set ls \<longrightarrow> p \<noteq> join ns))"
  using assms
proof (induction ls arbitrary: f)
  case (Cons l ls)
  obtain ns x where l: "l = (ns, x)" by fastforce
  have IH: "fold put_leaf ls g p = Some bts \<longleftrightarrow>
    (\<exists>ns c. (ns, Some c) \<in> set ls \<and> p = join ns \<and> bts = map Some c) \<or>
    (g p = Some bts \<and> (\<forall>ns c. (ns, Some c) \<in> set ls \<longrightarrow> p \<noteq> join ns))" for g
    by (rule Cons.IH) (use Cons.prems in \<open>auto simp: apart_def\<close>)
  have other: "join ms \<noteq> join ns" if "(ms, Some c) \<in> set ls" for ms c
  proof
    assume eq: "join ms = join ns"
    have "path_ok ms" "path_ok ns" using Cons.prems(2) that l by auto
    with eq have "ms = ns" using join_inj by blast
    then have "(ms, Some c) = l" using Cons.prems(1) that l by (auto simp: apart_def)
    with that Cons.prems(1) show False by (auto simp: apart_def)
  qed
  show ?case
  proof (cases x)
    case None
    then have "put_leaf l f = f" by (simp add: l put_leaf_def)
    then show ?thesis using IH [of f] None by (simp add: l)
  next
    case (Some d)
    have upd: "fold put_leaf (l # ls) f p = fold put_leaf ls (f(join ns \<mapsto> map Some d)) p"
      by (simp add: l Some put_leaf_def leaf_path_def)
    have mem: "(ms, Some c) \<in> set (l # ls) \<longleftrightarrow> (ms = ns \<and> c = d) \<or> (ms, Some c) \<in> set ls" for ms c
      by (simp add: l Some)
    show ?thesis unfolding upd IH mem using other by (auto dest: other)
  qed
qed simp

definition quiet_receiver :: "recv_env \<Rightarrow> nat \<Rightarrow> bool" where
  "quiet_receiver e b \<longleftrightarrow> rfifo_ok e \<and> mirror_opens e \<and> 0 < rselect_ret e
     \<and> (\<forall>k. \<not> rsignalled e k) \<and> generous (delivers e) (max b 4)"

lemma sync_receive_frames:
  assumes "quiet_receiver e b" "0 < b" "node_ok (Dir es)" "fits (top_leaves es)" "made m = {}" "stored m = Map.empty" "es \<noteq> []"
  shows "\<exists>k' pl' fsz' m' s'. sync_receive e b i m (concat (map leaf_frame (top_leaves es)) @ rest) = ask_next e b i k' pl' fsz' m' s'
    \<and> adds (top_leaves es) m m' \<and> stream s' = Some rest \<and> length pl' = 2 \<and> 0 < le_value (map the pl')"
proof -
  obtain l ls where l: "top_leaves es = l # ls"
    using leaves_nonempty [of "[]" "Dir es"] top_leaves_eq [OF assms(7)] by (metis list.exhaust)
  note good = top_leaves_good [OF assms(3,4,7), unfolded l]
  have g: "generous (delivers e) (max b 4)" "generous (delivers e) 2" "\<forall>k. \<not> rsignalled e k"
    using assms(1) generous_le [of "delivers e" "max b 4" 2] by (auto simp: quiet_receiver_def)
  let ?tail = "leaf_path l @ le4 (length (leaf_content l)) @ leaf_content l @ concat (map leaf_frame ls) @ rest"
  let ?s = "\<lparr> stream = Some (concat (map leaf_frame (top_leaves es)) @ rest), reads = 0 \<rparr>"
  let ?pl = "map Some (le2 (length (leaf_path l)))"
  let ?m = "rlog_line (from_client i ''Initiating copy of files.'') m"
  have "stream ?s = Some (le2 (length (leaf_path l)) @ ?tail)" by (simp add: l leaf_frame_parts [of l])
  from pipe_read_full [OF g(2) le_length(1) this, of "map Some (le2 0)"]
  obtain s1 where s1: "pipe_read (delivers e) 2 (map Some (le2 0)) ?s = (Some ?pl, s1)" "stream s1 = Some ?tail" by auto
  have val: "le_value (le2 (length (leaf_path l))) = length (leaf_path l)"
    using good(2) by (intro le2_value) (simp add: leaf_fits_def)
  have nz: "leaf_path l \<noteq> []" using good(2) leaf_path_string(4) [of l] by (simp add: leaf_fits_def)
  have "sync_receive e b i m (concat (map leaf_frame (top_leaves es)) @ rest) = recv_loop e b i 3 ?pl (map Some (le4 0)) ?m s1"
    using assms(1) nz by (simp add: sync_receive_def quiet_receiver_def s1(1) val)
  moreover have "\<exists>k' pl' fsz' m' s'. recv_loop e b i 3 ?pl (map Some (le4 0)) ?m s1 = ask_next e b i k' pl' fsz' m' s'
      \<and> adds (l # ls) ?m m' \<and> stream s' = Some rest \<and> length pl' = 2 \<and> 0 < le_value (map the pl')"
    by (rule recv_loop_frames [OF g(1) assms(2) g(3) good(1)])
      (use good(2) s1(2) val assms(5,6) in \<open>simp_all add: fresh_def rlog_line_def\<close>)
  ultimately show ?thesis by (simp add: l adds_def rlog_line_def)
qed

lemma sync_receive_full:
  assumes "quiet_receiver e b" "0 < b" "node_ok (Dir es)" "fits (top_leaves es)" "made m = {}" "stored m = Map.empty"
  shows "\<exists>m' s'. sync_receive e b i m (concat (map leaf_frame (top_leaves es)) @ le2 0) = Some (ok (0, m', s'))
    \<and> adds (top_leaves es) m m' \<and> stream s' = Some []"
proof (cases "es = []")
  case True
  have "\<exists>s'. pipe_read (delivers e) 2 (map Some (le2 0)) \<lparr> stream = Some (le2 0), reads = 0 \<rparr> = (Some (map Some (le2 0)), s') \<and> stream s' = Some []"
    using pipe_read_full [OF generous_le le_length(1), of "delivers e" "max b 4" "\<lparr> stream = Some (le2 0), reads = 0 \<rparr>" 0 "[]" "map Some (le2 0)"] assms(1)
    by (auto simp: quiet_receiver_def)
  with True assms(1) show ?thesis
    by (auto simp: sync_receive_def quiet_receiver_def Let_def le2_value adds_def rlog_line_def top_leaves_def)
next
  case False
  have g: "generous (delivers e) 2"
    using assms(1) generous_le [of "delivers e" "max b 4" 2] by (auto simp: quiet_receiver_def)
  obtain k' pl' fsz' m1 s1 where n:
      "sync_receive e b i m (concat (map leaf_frame (top_leaves es)) @ le2 0) = ask_next e b i k' pl' fsz' m1 s1"
      "adds (top_leaves es) m m1" "stream s1 = Some (le2 0)" "length pl' = 2"
    using sync_receive_frames [OF assms False] by blast
  obtain s2 where s2: "ask_next e b i k' pl' fsz' m1 s1
      = Some (ok (0, rlog_line (from_client i ''File copy ends successfully.'') m1, s2))" "stream s2 = Some []"
    using ask_next_end [OF g n(3,4)] by blast
  with n(1,2) show ?thesis by (auto simp: adds_def rlog_line_def)
qed

text \<open>
  When the sender disappears after its last frame, before the two zero bytes, the receiver takes
  the length of the last path again and uses a path it never read.
\<close>

theorem cut_stream_faults:
  assumes "quiet_receiver e b" "0 < b" "node_ok (Dir es)" "fits (top_leaves es)" "made m = {}" "stored m = Map.empty" "es \<noteq> []"
  shows "sync_receive e b i m (concat (map leaf_frame (top_leaves es))) = Some (crash Uninitialised)"
proof -
  have "generous (delivers e) (max b 4)" using assms(1) by (simp add: quiet_receiver_def)
  with sync_receive_frames [OF assms, of i "[]"] ask_next_eof assms(2) show ?thesis by auto
qed

lemma round_trip:
  assumes "quiet_sender se es" "quiet_receiver re b" "0 < b" "node_ok (Dir es)" "fits (top_leaves es)"
    and "made m = {}" "stored m = Map.empty"
  shows "\<exists>st m' s'. sync_send se b i = Some (0, st) \<and> sync_receive re b j m (piped st) = Some (ok (0, m', s')) \<and>
    (\<forall>p bts. stored m' p = Some bts \<longleftrightarrow> (\<exists>ns c. at_path (Dir es) ns = Some (File c) \<and> p = join ns \<and> bts = map Some c)) \<and>
    made m' = {join ns | ns. ns \<noteq> [] \<and> (\<exists>ds. at_path (Dir es) ns = Some (Dir ds))}"
proof -
  obtain st where st: "sync_send se b i = Some (0, st)" "piped st = concat (map leaf_frame (top_leaves es)) @ le2 0"
    using sync_send_sends [OF assms(1,3,4,5)] by blast
  obtain m' s' where m': "sync_receive re b j m (piped st) = Some (ok (0, m', s'))" "adds (top_leaves es) m m'"
    using sync_receive_full [OF assms(2,3,4,5,6,7)] st(2) by force
  have "(\<forall>p bts. stored m' p = Some bts \<longleftrightarrow> (\<exists>ns c. at_path (Dir es) ns = Some (File c) \<and> p = join ns \<and> bts = map Some c)) \<and>
    made m' = {join ns | ns. ns \<noteq> [] \<and> (\<exists>ds. at_path (Dir es) ns = Some (Dir ds))}"
  proof (cases "es = []")
    case True
    have "at_path (Dir []) ns = (if ns = [] then Some (Dir []) else None)" for ns by (cases ns) simp_all
    then show ?thesis using m'(2) assms(6,7) True by (auto simp: adds_def top_leaves_def)
  next
    case False
    note good = top_leaves_good [OF assms(4,5) False] and eq = top_leaves_eq [OF False]
    have ok: "\<forall>l \<in> set (top_leaves es). path_ok (fst l)" using good(2) by (auto simp: leaf_fits_def)
    have files: "stored m' p = Some bts \<longleftrightarrow> (\<exists>ns c. at_path (Dir es) ns = Some (File c) \<and> p = join ns \<and> bts = map Some c)" for p bts
      using m'(2) fold_put_leaf [OF good(1) ok, of Map.empty p bts] assms(7) file_leaves [OF assms(4)]
      unfolding adds_def eq by simp
    have "made m' = (\<Union>l \<in> set (top_leaves es). {join ms | ms. ms \<noteq> [] \<and> on_way ms l})"
      using m'(2) assms(6) ok leaf_dirs_on_way unfolding adds_def by auto
    also have "\<dots> = {join ns | ns. ns \<noteq> [] \<and> (\<exists>l \<in> set (leaves_of [] (Dir es)). on_way ns l)}"
      unfolding eq by blast
    finally have "made m' = {join ns | ns. ns \<noteq> [] \<and> (\<exists>ds. at_path (Dir es) ns = Some (Dir ds))}"
      unfolding dir_leaves [OF assms(4)] .
    with files show ?thesis by blast
  qed
  with st(1) m'(1) show ?thesis by blast
qed

text \<open>
  C5: When the pipe works, no signal arrives and every read delivers what it asks for, sync_send
  and sync_receive both end well, and the mirror directory then holds exactly the files of the input
  directory with their contents and exactly its directories, whatever the chunk size.
\<close>

theorem sync_round_trip:
  assumes "quiet_sender se es" "quiet_receiver re b" "0 < b" "node_ok (Dir es)" "fits (top_leaves es)"
    and "made m = {}" "stored m = Map.empty"
  shows "\<exists>st m' s'. sync_send se b i = Some (0, st) \<and> sync_receive re b j m (piped st) = Some (ok (0, m', s')) \<and>
    (\<forall>p bts. stored m' p = Some bts \<longleftrightarrow> (\<exists>ns c. at_path (Dir es) ns = Some (File c) \<and> p = join ns \<and> bts = map Some c)) \<and>
    made m' = {join ns | ns. ns \<noteq> [] \<and> (\<exists>ds. at_path (Dir es) ns = Some (Dir ds))}"
  by (rule round_trip [OF assms])

text \<open>A directory with a file, an empty file, a file below a directory and an empty directory.\<close>

definition sample_tree :: "(string \<times> node) list" where
  "sample_tree = [(''d'', Dir [(''f'', File ''hello''), (''e'', Dir [])]), (''g'', File ''''), (''h'', File ''ab'')]"

definition sample_send :: send_env where
  "sample_send = \<lparr> mkfifo_ok = True, fifo_opens = True, select_ret = 1, input = Some sample_tree,
     signalled = (\<lambda>k. False), write_ok = (\<lambda>k. True), can_open = (\<lambda>p. True) \<rparr>"

definition sample_recv :: recv_env where
  "sample_recv = \<lparr> rfifo_ok = True, mirror_opens = True, rselect_ret = 1, rsignalled = (\<lambda>k. False), delivers = (\<lambda>k. Some 4) \<rparr>"

definition empty_mirror :: mirror_dir where
  "empty_mirror = \<lparr> made = {}, stored = Map.empty, rlog = [] \<rparr>"

lemma sample_good:
  "quiet_sender sample_send sample_tree" "quiet_receiver sample_recv 3" "node_ok (Dir sample_tree)" "fits (top_leaves sample_tree)"
  "made empty_mirror = {}" "stored empty_mirror = Map.empty" "sample_tree \<noteq> []"
  by (simp_all add: quiet_sender_def quiet_receiver_def generous_def sample_send_def sample_recv_def sample_tree_def
      entry_name_def is_dots_def fits_def top_leaves_def empty_mirror_def)

theorem sync_round_trip_witness:
  "\<exists>st m' s'. sync_send sample_send 3 ''1'' = Some (0, st) \<and> sync_receive sample_recv 3 ''2'' empty_mirror (piped st) = Some (ok (0, m', s'))
    \<and> stored m' ''d/f'' = Some (map Some ''hello'') \<and> ''d/e'' \<in> made m'"
proof -
  obtain st m' s' where r: "sync_send sample_send 3 ''1'' = Some (0, st)"
      "sync_receive sample_recv 3 ''2'' empty_mirror (piped st) = Some (ok (0, m', s'))"
      "\<forall>p bts. stored m' p = Some bts \<longleftrightarrow> (\<exists>ns c. at_path (Dir sample_tree) ns = Some (File c) \<and> p = join ns \<and> bts = map Some c)"
      "made m' = {join ns | ns. ns \<noteq> [] \<and> (\<exists>ds. at_path (Dir sample_tree) ns = Some (Dir ds))}"
    using sync_round_trip [OF sample_good(1,2) _ sample_good(3-6), of "''1''" "''2''"] by auto
  have "at_path (Dir sample_tree) [''d'', ''f''] = Some (File ''hello'')" "at_path (Dir sample_tree) [''d'', ''e''] = Some (Dir [])"
    by (simp_all add: sample_tree_def)
  moreover have "''d/f'' = join [''d'', ''f'']" "''d/e'' = join [''d'', ''e'']" by simp_all
  ultimately have "stored m' ''d/f'' = Some (map Some ''hello'')" "''d/e'' \<in> made m'"
    using r(3,4) by blast+
  with r(1,2) show ?thesis by blast
qed

theorem cut_stream_faults_witness:
  "sync_receive sample_recv 3 ''2'' empty_mirror (concat (map leaf_frame (top_leaves sample_tree))) = Some (crash Uninitialised)"
  by (rule cut_stream_faults [OF sample_good(2) _ sample_good(3-7)]) simp

end
