(* ===== verification/MirrorMain.thy ===== *)
theory MirrorMain
  imports MirrorClient Options SyncProc SyncRound Digits
begin

text \<open>
  The main function of the mirror client (SysPro_Project2/src/mirror_client/main.c) with free_client
  and delete_on_exit of clientSync.c, and the composition of a mirror client's parts: a sync process
  whose children are sync_send and sync_receive.
\<close>

section \<open>The paths of a client\<close>

record client =
  common_path :: "string option"
  input_path :: "string option"
  mirror_path :: "string option"
  log_path :: "string option"
  freed :: bool

datatype deed =
  Made_dir "string option" | Removed_dir "string option" | Removed_file string | Wrote_pid string
  | Killed int | Told_parent | Printed string

definition free_client :: "kids \<Rightarrow> client \<Rightarrow> (fault + client) option" where
  "free_client k cl = run_then (free_on_exec k) (\<lambda>_. Some (ok (cl\<lparr>freed := True\<rparr>)))"

text \<open>The mirror directory and the ID file; remove_dir is in FileTree.\<close>

definition delete_on_exit :: "string \<Rightarrow> client \<Rightarrow> fault + deed list" where
  "delete_on_exit i cl =
     (if freed cl \<and> mirror_path cl \<noteq> None then crash UseAfterFree
      else
        (case common_path cl of
           None \<Rightarrow> crash NullDeref
         | Some d \<Rightarrow>
             if freed cl then crash UseAfterFree
             else ok [Removed_dir (mirror_path cl), Removed_file (d @ ''/'' @ i @ ''.id'')]))"

section \<open>main\<close>

text \<open>
  resolve is realpath, by the number of the call; it returns NULL for NULL.  The other fields are
  the results of open, stat and write, the flag of the signal handler when it is tested, whether
  execl fails, and what check_common_dir meets.
\<close>

record main_env =
  resolve :: "nat \<Rightarrow> string option \<Rightarrow> string option"
  log_opens :: bool
  id_file_exists :: bool
  pid_written :: bool
  interrupted :: bool
  exec_fails :: bool
  forks :: "nat \<Rightarrow> int"
  turns :: "turn list"

text \<open>The process returns, becomes another program, or is still in check_common_dir.\<close>

datatype outcome = Returned int | Became "string option list" | Running

text \<open>The error exits behind the creation of the mirror directory: first free, then delete.\<close>

definition quit :: "string \<Rightarrow> client \<Rightarrow> deed list \<Rightarrow> (fault + outcome \<times> deed list) option" where
  "quit i cl deeds =
     run_then (free_client no_kids cl) (\<lambda>cl.
     run_then (Some (delete_on_exit i cl)) (\<lambda>ds. Some (ok (Returned 1, deeds @ ds))))"

definition mirror_usage :: string where
  "mirror_usage = ''Wrong use of ./mirror_client. Proper use:'' @ nl
     @ ''./mirror_client -n id -c common_dir -i input_dir -m mirror_dir -b buffer_size -l log_file'' @ nl"

definition dec_int :: "int \<Rightarrow> string" where
  "dec_int n = (if n < 0 then ''-'' @ dec (nat (- n)) else dec (nat n))"

text \<open>What follows check_common_dir.  An argument NULL ends the arguments of execl.\<close>

definition after_scan ::
    "main_env \<Rightarrow> string \<Rightarrow> string \<Rightarrow> client \<Rightarrow> deed list \<Rightarrow> int \<Rightarrow> mirror \<Rightarrow> (fault + outcome \<times> deed list) option" where
  "after_scan e i max_buffsize cl deeds new_id m =
     (if new_id > 0 then
        run_then (free_on_exec (children m)) (\<lambda>_.
          if exec_fails e then Some (ok (Returned 1, deeds @ [Told_parent]))
          else Some (ok (Became (takeWhile (\<lambda>a. a \<noteq> None)
                 [Some ''sync'', Some i, Some (dec_int new_id), common_path cl, input_path cl, mirror_path cl, Some max_buffsize]), deeds)))
      else if new_id = -2 then
        run_then (free_client (children m) cl) (\<lambda>_. Some (ok (Returned 0, deeds)))
      else
        run_then (kill_processes (children m)) (\<lambda>pids.
        run_then (Some (delete_on_exit i cl)) (\<lambda>ds.
        run_then (free_client (children m) cl) (\<lambda>_.
          Some (ok (Returned 0, deeds @ map Killed pids @ ds @ [Printed (''Exiting client'' @ nl)]))))))"

definition start_client :: "main_env \<Rightarrow> string \<Rightarrow> string \<Rightarrow> client \<Rightarrow> deed list \<Rightarrow> (fault + outcome \<times> deed list) option" where
  "start_client e i max_buffsize cl deeds =
     (case common_path cl of
        None \<Rightarrow> Some (crash NullDeref)
      | Some d \<Rightarrow>
          let id_file_path = append_to_rel_path d (i @ ''.id'')
          in if id_file_exists e \<or> \<not> pid_written e then quit i cl deeds
             else if interrupted e then quit i cl (deeds @ [Wrote_pid id_file_path])
             else
               run_then (check_common_dir (forks e) 0 (turns e) \<lparr> cl_id = i, children = no_kids, forked = 0, log_file = [] \<rparr>) (\<lambda>(r, m).
                 case r of
                   None \<Rightarrow> Some (ok (Running, deeds @ [Wrote_pid id_file_path]))
                 | Some new_id \<Rightarrow> after_scan e i max_buffsize cl (deeds @ [Wrote_pid id_file_path]) new_id m))"

text \<open>The ID and the buffer size are copied into arrays of 32 characters.\<close>

definition mirror_main :: "main_env \<Rightarrow> string list \<Rightarrow> (fault + outcome \<times> deed list) option" where
  "mirror_main e argv =
     run_then (Some (use_mirror argv)) (\<lambda>params.
       case params of
         None \<Rightarrow> Some (ok (Returned 1, [Printed mirror_usage]))
       | Some ps \<Rightarrow>
           (case ps ! 0 of
              None \<Rightarrow> Some (crash NullDeref)
            | Some i \<Rightarrow>
                if length i \<ge> 32 then Some (crash BadIndex)
                else if fst (strtol i) = 0 then
                  Some (ok (Returned 1, [Printed (''A client cannot have id equal to zero'' @ nl)]))
                else
                  let common1 = resolve e 0 (ps ! 1);
                      (common, deeds) = (if common1 = None then (resolve e 1 (ps ! 1), [Made_dir (ps ! 1)]) else (common1, []));
                      input = resolve e 2 (ps ! 2)
                  in if input = None then Some (ok (Returned 1, deeds))
                     else if resolve e 3 (ps ! 3) \<noteq> None then Some (ok (Returned 1, deeds))
                     else
                       let deeds = deeds @ [Made_dir (ps ! 3)];
                           cl = \<lparr> common_path = common, input_path = input, mirror_path = resolve e 4 (ps ! 3),
                                  log_path = None, freed = False \<rparr>
                       in (case ps ! 4 of
                             None \<Rightarrow> Some (crash NullDeref)
                           | Some max_buffsize \<Rightarrow>
                               if length max_buffsize \<ge> 32 then Some (crash BadIndex)
                               else if \<not> log_opens e then quit i cl deeds
                               else start_client e i max_buffsize (cl\<lparr>log_path := resolve e 5 (ps ! 5)\<rparr>) deeds)))"

section \<open>Starting a client\<close>

text \<open>The arguments and directories with which main gets as far as the log file.\<close>

definition good_start :: "main_env \<Rightarrow> string list \<Rightarrow> string \<Rightarrow> string \<Rightarrow> string \<Rightarrow> bool" where
  "good_start e argv i d b \<longleftrightarrow> (\<exists>ps. use_mirror argv = ok (Some ps) \<and> ps ! 0 = Some i \<and> length i < 32 \<and> fst (strtol i) \<noteq> 0 \<and>
     (if resolve e 0 (ps ! 1) = None then resolve e 1 (ps ! 1) else resolve e 0 (ps ! 1)) = Some d \<and>
     resolve e 2 (ps ! 2) \<noteq> None \<and> resolve e 3 (ps ! 3) = None \<and> ps ! 4 = Some b \<and> length b < 32)"

lemma quit_faults: "common_path cl = Some d \<Longrightarrow> quit i cl deeds = Some (crash UseAfterFree)"
  using free_on_exec_correct [OF no_kids_ok] by (simp add: quit_def free_client_def delete_on_exit_def)

definition only_made :: "deed list \<Rightarrow> bool" where
  "only_made deeds \<longleftrightarrow> (\<forall>x \<in> set deeds. \<exists>p. x = Made_dir p)"

lemma main_starts:
  assumes "good_start e argv i d b"
  shows "\<exists>cl deeds. common_path cl = Some d \<and> \<not> freed cl \<and> only_made deeds \<and>
    mirror_main e argv = (if log_opens e then start_client e i b cl deeds else Some (crash UseAfterFree))"
proof -
  obtain ps where ps: "use_mirror argv = ok (Some ps)" "ps ! 0 = Some i" "length i < 32" "fst (strtol i) \<noteq> 0"
      "(if resolve e 0 (ps ! 1) = None then resolve e 1 (ps ! 1) else resolve e 0 (ps ! 1)) = Some d"
      "resolve e 2 (ps ! 2) \<noteq> None" "resolve e 3 (ps ! 3) = None" "ps ! 4 = Some b" "length b < 32"
    using assms unfolding good_start_def by blast
  define deeds where "deeds = (if resolve e 0 (ps ! 1) = None then [Made_dir (ps ! 1)] else []) @ [Made_dir (ps ! 3)]"
  define cl where "cl = \<lparr> common_path = Some d, input_path = resolve e 2 (ps ! 2), mirror_path = resolve e 4 (ps ! 3),
      log_path = None, freed = False \<rparr>"
  have "mirror_main e argv = (if \<not> log_opens e then quit i cl deeds else start_client e i b (cl\<lparr>log_path := resolve e 5 (ps ! 5)\<rparr>) deeds)"
    unfolding mirror_main_def ps(1) run_then_simps using ps(2-)
    by (cases "resolve e 0 (ps ! 1)") (auto simp: cl_def deeds_def)
  moreover have "quit i cl deeds = Some (crash UseAfterFree)" by (rule quit_faults) (simp add: cl_def)
  ultimately have "mirror_main e argv
      = (if log_opens e then start_client e i b (cl\<lparr>log_path := resolve e 5 (ps ! 5)\<rparr>) deeds else Some (crash UseAfterFree))"
    by simp
  moreover have "only_made deeds" by (auto simp: only_made_def deeds_def)
  ultimately show ?thesis
    by (intro exI [of _ "cl\<lparr>log_path := resolve e 5 (ps ! 5)\<rparr>"] exI [of _ deeds]) (simp add: cl_def)
qed

text \<open>
  Every error exit of main behind the creation of the mirror directory frees the paths before it
  removes what they name: when the log file cannot be opened, a client with the same ID runs, the ID
  file cannot be written, or a signal has arrived, the program uses freed memory.
\<close>

theorem late_errors_fault:
  assumes "good_start e argv i d b" "\<not> log_opens e \<or> id_file_exists e \<or> \<not> pid_written e \<or> interrupted e"
  shows "mirror_main e argv = Some (crash UseAfterFree)"
proof -
  obtain cl deeds where m: "common_path cl = Some d"
      "mirror_main e argv = (if log_opens e then start_client e i b cl deeds else Some (crash UseAfterFree))"
    using main_starts [OF assms(1)] by blast
  have "start_client e i b cl deeds = Some (crash UseAfterFree)" if "log_opens e"
    using assms(2) that by (auto simp: start_client_def m(1) quit_faults Let_def)
  then show ?thesis using m(2) by simp
qed

text \<open>What a run prints and does before it is in check\_common\_dir, and how it goes on from there.\<close>

lemma main_runs:
  assumes "good_start e argv i d b" "log_opens e" "\<not> id_file_exists e" "pid_written e" "\<not> interrupted e"
  shows "\<exists>cl deeds. common_path cl = Some d \<and> \<not> freed cl \<and> only_made deeds \<and>
    mirror_main e argv =
      run_then (check_common_dir (forks e) 0 (turns e) (new_mirror i)) (\<lambda>(r, m).
        case r of
          None \<Rightarrow> Some (ok (Running, deeds @ [Wrote_pid (append_to_rel_path d (i @ ''.id''))]))
        | Some new_id \<Rightarrow> after_scan e i b cl (deeds @ [Wrote_pid (append_to_rel_path d (i @ ''.id''))]) new_id m)"
proof -
  obtain cl deeds where m: "common_path cl = Some d" "\<not> freed cl" "only_made deeds"
      "mirror_main e argv = (if log_opens e then start_client e i b cl deeds else Some (crash UseAfterFree))"
    using main_starts [OF assms(1)] by blast
  then show ?thesis using assms(2-)
    by (intro exI [of _ cl] exI [of _ deeds]) (simp add: start_client_def new_mirror_def Let_def)
qed

lemma id_file_path: "append_to_rel_path d (i @ ''.id'') = d @ ''/'' @ i @ ''.id''"
  by (simp add: append_to_rel_path_def)

text \<open>
  When a client ends its run in check\_common\_dir because it was told to, and its list of
  children is empty or has one entry, it signals that child, removes its mirror directory and
  exactly the ID file it wrote, and returns 0; with two children it never ends.
\<close>

theorem client_ends:
  assumes "good_start e argv i d b" "log_opens e" "\<not> id_file_exists e" "pid_written e" "\<not> interrupted e"
    and "check_common_dir (forks e) 0 (turns e) (new_mirror i) = Some (ok (Some (-1), m))" "has_kids (children m) cs"
  shows "if length cs \<le> 1 then
      \<exists>deeds mp. only_made deeds \<and> mirror_main e argv = Some (ok (Returned 0, deeds @ [Wrote_pid (d @ ''/'' @ i @ ''.id'')]
        @ map (Killed \<circ> last_pid) cs @ [Removed_dir mp, Removed_file (d @ ''/'' @ i @ ''.id''), Printed (''Exiting client'' @ nl)]))
    else mirror_main e argv = None"
proof -
  obtain cl deeds where c: "common_path cl = Some d" "\<not> freed cl" "only_made deeds"
      "mirror_main e argv =
      run_then (check_common_dir (forks e) 0 (turns e) (new_mirror i)) (\<lambda>(r, m).
        case r of
          None \<Rightarrow> Some (ok (Running, deeds @ [Wrote_pid (append_to_rel_path d (i @ ''.id''))]))
        | Some new_id \<Rightarrow> after_scan e i b cl (deeds @ [Wrote_pid (append_to_rel_path d (i @ ''.id''))]) new_id m)"
    using main_runs [OF assms(1-5)] by blast
  then have main: "mirror_main e argv = after_scan e i b cl (deeds @ [Wrote_pid (append_to_rel_path d (i @ ''.id''))]) (-1) m"
    using assms(6) by simp
  note kill = kill_processes_outcome [OF assms(7)]
  show ?thesis
  proof (cases "length cs \<le> 1")
    case True
    then have "kill_processes (children m) = Some (ok (map last_pid cs))"
      using kill by (cases cs; cases "tl cs") auto
    then show ?thesis using True c(1-3) free_on_exec_correct [OF assms(7)] unfolding main
      by (auto simp: after_scan_def delete_on_exit_def free_client_def id_file_path intro!: exI [of _ deeds] exI [of _ "mirror_path cl"])
  next
    case False
    then have "kill_processes (children m) = None" using kill by (cases cs; cases "tl cs") auto
    then show ?thesis using False unfolding main by (simp add: after_scan_def)
  qed
qed

text \<open>
  A client accepts a negative ID.  Another client that meets the file of such an ID forks a
  child, and the child, whose ID is not positive, takes the way of a client that ends: it removes
  the mirror directory and the ID file of the running client.
\<close>

theorem negative_id_destroys:
  assumes "good_start e argv i d b" "log_opens e" "\<not> id_file_exists e" "pid_written e" "\<not> interrupted e"
    and "turns e = t # ts" "scanned t = (id_file neg, f) # es" "plain_id neg" "neg \<noteq> i" "atoi neg < -2" "forks e 0 = 0"
  shows "\<exists>deeds mp. only_made deeds \<and> mirror_main e argv = Some (ok (Returned 0, deeds @ [Wrote_pid (d @ ''/'' @ i @ ''.id''),
        Removed_dir mp, Removed_file (d @ ''/'' @ i @ ''.id''), Printed (''Exiting client'' @ nl)]))"
proof -
  obtain cl deeds where c: "common_path cl = Some d" "\<not> freed cl" "only_made deeds"
      "mirror_main e argv =
      run_then (check_common_dir (forks e) 0 (turns e) (new_mirror i)) (\<lambda>(r, m).
        case r of
          None \<Rightarrow> Some (ok (Running, deeds @ [Wrote_pid (append_to_rel_path d (i @ ''.id''))]))
        | Some new_id \<Rightarrow> after_scan e i b cl (deeds @ [Wrote_pid (append_to_rel_path d (i @ ''.id''))]) new_id m)"
    using main_runs [OF assms(1-5)] by blast
  have "already_synced no_kids neg = Some (ok False)" by (simp add: already_synced_def no_kids_def)
  then have "\<exists>m. visit_entry (forks e) (id_file neg) (new_mirror i) = Some (ok (atoi neg, m)) \<and> children m = no_kids"
    using id_file_facts [OF assms(8)] id_of_id_file [OF assms(8)] assms(9,11)
    by (simp add: visit_entry_def new_mirror_def synch_def write_log_def Let_def)
  then obtain m where "visit_entry (forks e) (id_file neg) (new_mirror i) = Some (ok (atoi neg, m))" and kids: "children m = no_kids"
    by blast
  then have "check_common_dir (forks e) 0 (turns e) (new_mirror i) = Some (ok (Some (atoi neg), m))"
    using assms(6,7,10) by simp
  then have "mirror_main e argv = after_scan e i b cl (deeds @ [Wrote_pid (append_to_rel_path d (i @ ''.id''))]) (atoi neg) m"
    using c(4) by simp
  moreover have "kill_processes no_kids = Some (ok [])" by (simp add: kill_processes_def no_kids_def)
  ultimately show ?thesis using c(1-3) assms(10) kids free_on_exec_correct [OF no_kids_ok]
    by (auto simp: after_scan_def delete_on_exit_def free_client_def id_file_path intro!: exI [of _ deeds] exI [of _ "mirror_path cl"])
qed

section \<open>A failed synchronisation\<close>

text \<open>
  The ID a failed sync process returns is its exit status, of which the mirror client sees the
  low eight bits: the retry is for the same client exactly when its ID is below 256.
\<close>

theorem failed_id_is_retried:
  assumes "sync e d (dec n) = Some (r, acts)" "Tell_parent \<in> set acts" "n < 2 ^ 31"
    and "cl_still_exists names (dec (n mod 256)) \<noteq> 0" "has_kids (children m) cs" "tries_of (dec (n mod 256)) cs \<le> 2"
  shows "(\<exists>m'. children m' = children m \<and>
      retry fork names (nat r) m = synch fork (dec (n mod 256)) (tries_of (dec (n mod 256)) cs) m')
    \<and> (dec (n mod 256) = dec n \<longleftrightarrow> n < 256)"
proof -
  have r: "r = int n" using fair_sync [OF assms(1)] assms(2) atoi_dec [OF assms(3)] by (auto simp: fair_def)
  have "n mod 256 = n \<longleftrightarrow> n < 256" by (metis mod_less mod_less_divisor zero_less_numeral)
  moreover have "\<exists>line. retry fork names (nat r) m
      = synch fork (dec (n mod 256)) (tries_of (dec (n mod 256)) cs) (write_log line m)"
    using assms(4,6) times_tried_correct [OF assms(5)] r by (auto simp: retry_def Let_def)
  ultimately show ?thesis by (metis dec_inj mirror_ok_fields(3))
qed

section \<open>A synchronisation as a whole\<close>

text \<open>The children of sync are the programs of SyncPipe, joined by the pipe.\<close>

definition runs_copies ::
    "sync_env \<Rightarrow> send_env \<Rightarrow> recv_env \<Rightarrow> nat \<Rightarrow> string \<Rightarrow> string \<Rightarrow> mirror_dir \<Rightarrow> bool" where
  "runs_copies e se re b this_id new_id m \<longleftrightarrow> send_execs e \<and> receive_execs e \<and>
     send_program e = map_option (Exited \<circ> fst) (sync_send se b new_id) \<and>
     (\<forall>ret st ret' m' s'. sync_send se b new_id = Some (ret, st) \<longrightarrow>
        sync_receive re b this_id m (piped st) = Some (ok (ret', m', s')) \<longrightarrow> receive_program e = Some (Exited ret'))"


section \<open>Witnesses\<close>

definition sample_argv :: "string list" where
  "sample_argv = [''mirror_client'', ''-n'', ''1'', ''-c'', ''common'', ''-i'', ''in'', ''-m'', ''mirror'', ''-b'', ''64'', ''-l'', ''log'']"

definition sample_main :: main_env where
  "sample_main = \<lparr> resolve = (\<lambda>k p. if k = 3 then None else p), log_opens = True, id_file_exists = False, pid_written = True,
     interrupted = False, exec_fails = False, forks = (\<lambda>k. 0), turns = [] \<rparr>"

definition sample_turn :: "string \<Rightarrow> turn" where
  "sample_turn name = \<lparr> scanned = [(name, 1)], failed = [], seen = None, wait_flag = 1, common_names = None, mirror_names = None \<rparr>"

lemma sample_start:
  "resolve e = resolve sample_main \<Longrightarrow> good_start e sample_argv ''1'' ''common'' ''64''"
proof -
  have "use_mirror sample_argv = ok (Some [Some ''1'', Some ''common'', Some ''in'', Some ''mirror'', Some ''64'', Some ''log''])"
    by code_simp
  moreover have "fst (strtol ''1'') = 1" by code_simp
  moreover assume "resolve e = resolve sample_main"
  ultimately show ?thesis unfolding good_start_def by (auto simp: sample_main_def)
qed

theorem late_errors_fault_witness:
  "mirror_main (sample_main\<lparr>id_file_exists := True\<rparr>) sample_argv = Some (crash UseAfterFree)"
  by (rule late_errors_fault [OF sample_start]) simp_all

theorem client_ends_witness:
  "\<exists>deeds mp. mirror_main (sample_main\<lparr>turns := [sample_turn ''x'']\<rparr>) sample_argv
    = Some (ok (Returned 0, deeds @ [Removed_dir mp, Removed_file ''common/1.id'', Printed (''Exiting client'' @ nl)]))"
proof -
  let ?e = "sample_main\<lparr>turns := [sample_turn ''x'']\<rparr>"
  have "check_common_dir (forks ?e) 0 (turns ?e) (new_mirror ''1'') = Some (ok (Some (-1), new_mirror ''1''))"
    by (simp add: sample_turn_def visit_entry_def is_id_file_def)
  from client_ends [OF sample_start _ _ _ _ this, of "[]"]
  obtain deeds mp where "mirror_main ?e sample_argv = Some (ok (Returned 0, deeds @ [Wrote_pid ''common/1.id'']
        @ [] @ [Removed_dir mp, Removed_file ''common/1.id'', Printed (''Exiting client'' @ nl)]))"
    by (auto simp: sample_main_def new_mirror_def no_kids_ok)
  then show ?thesis by (intro exI [of _ "deeds @ [Wrote_pid ''common/1.id'']"] exI [of _ mp]) simp
qed

theorem negative_id_destroys_witness:
  "\<exists>deeds mp. mirror_main (sample_main\<lparr>turns := [sample_turn (id_file ''-5'')]\<rparr>) sample_argv
    = Some (ok (Returned 0, deeds @ [Removed_dir mp, Removed_file ''common/1.id'', Printed (''Exiting client'' @ nl)]))"
proof -
  let ?e = "sample_main\<lparr>turns := [sample_turn (id_file ''-5'')]\<rparr>"
  have "atoi ''-5'' = -5" by code_simp
  moreover have "plain_id ''-5''" by (simp add: plain_id_def id_delim_def)
  ultimately obtain deeds mp where "mirror_main ?e sample_argv = Some (ok (Returned 0, deeds @ [Wrote_pid ''common/1.id'',
        Removed_dir mp, Removed_file ''common/1.id'', Printed (''Exiting client'' @ nl)]))"
    using negative_id_destroys [OF sample_start, of ?e "sample_turn (id_file ''-5'')" "[]" "''-5''" 1 "[]"]
    by (auto simp: sample_main_def sample_turn_def)
  then show ?thesis by (intro exI [of _ "deeds @ [Wrote_pid ''common/1.id'']"] exI [of _ mp]) simp
qed

definition failing_sync :: sync_env where
  "failing_sync = \<lparr> flag_at = (\<lambda>k. 0), send_forks = False, receive_forks = True, send_execs = True, receive_execs = True,
     send_program = None, receive_program = None, receive_polled = (\<lambda>k. False), send_polled = (\<lambda>k. False) \<rparr>"

theorem failed_id_is_retried_witness:
  "(\<exists>m'. children m' = no_kids \<and> retry (\<lambda>k. 7) None 300 (new_mirror ''1'') = synch (\<lambda>k. 7) ''44'' 0 m') \<and> ''44'' \<noteq> dec 300"
proof -
  have ends: "sync failing_sync ''m'' (dec 300) = Some (atoi (dec 300), [Write_pid, Tell_parent])"
    by (simp add: sync_def failing_sync_def give_up_def)
  moreover have "atoi (dec 300) = 300" "dec (300 mod 256) = ''44''" by code_simp+
  moreover have "has_kids (children (new_mirror ''1'')) []" by (simp add: new_mirror_def no_kids_ok)
  ultimately show ?thesis
    using failed_id_is_retried [of failing_sync "''m''" 300 300 "[Write_pid, Tell_parent]" None "new_mirror ''1''" "[]" "\<lambda>k. 7"]
    by (simp add: cl_still_exists_def new_mirror_def)
qed

definition sample_sync :: sync_env where
  "sample_sync = \<lparr> flag_at = (\<lambda>k. 0), send_forks = True, receive_forks = True, send_execs = True, receive_execs = True,
     send_program = Some (Exited 0), receive_program = Some (Exited 0), receive_polled = (\<lambda>k. k = 2), send_polled = (\<lambda>k. True) \<rparr>"


end
