(* ===== verification/FileList.thy ===== *)
theory FileList
  imports FileTransfer Paths
begin

text \<open>
  The list of its files a dropbox client sends to another one: get\_file\_list
  (SysPro\_Project3/src/dirControl.c), send\_file\_list and free\_file\_list
  (SysPro\_Project3/src/dropbox\_client.c), and the half of the worker thread that receives the list.
  What opendir and open say, the results of the writes and the tree at each attempt come from outside.
\<close>

section \<open>The linked list\<close>

record flist =
  fl_heap :: "file_tuple heap"
  list_head :: "nat option"
  list_last :: "nat option"
  num_of_files :: nat

definition no_files :: flist where
  "no_files = \<lparr> fl_heap = \<lparr> cells = Map.empty, brk = 0 \<rparr>, list_head = None, list_last = None, num_of_files = 0 \<rparr>"

definition append_tuple :: "file_tuple \<Rightarrow> flist \<Rightarrow> fault + flist" where
  "append_tuple ft st =
     (let new = brk (fl_heap st); n = num_of_files st + 1
      in case list_head st of
           None \<Rightarrow> ok \<lparr> fl_heap = put_first (fl_heap st) ft, list_head = Some new, list_last = Some new, num_of_files = n \<rparr>
         | Some a \<Rightarrow>
             (case list_last st of
                None \<Rightarrow> crash NullDeref
              | Some b \<Rightarrow>
                  (case cells (fl_heap st) b of
                     None \<Rightarrow> crash UseAfterFree
                   | Some nd \<Rightarrow> ok (st\<lparr>fl_heap := put_behind (fl_heap st) b nd ft, list_last := Some new, num_of_files := n\<rparr>))))"

section \<open>get\_file\_list\<close>

definition reserved :: "string \<Rightarrow> bool" where
  "reserved name \<longleftrightarrow> strcmp name ''.'' = 0 \<or> strcmp name ''..'' = 0 \<or> strcmp name ''__RSRVD'' = 0"

text \<open>
  The path is copied into an array of 129 bytes.  A file that cannot be opened has the descriptor
  -1, from which find\_version never returns.
\<close>

definition add_file :: "(string \<Rightarrow> nat list) \<Rightarrow> (string \<Rightarrow> bool) \<Rightarrow> string \<Rightarrow> string \<Rightarrow> flist \<Rightarrow> (fault + nat \<times> flist) option" where
  "add_file md5 opens path_buf content st =
     (if length path_buf \<ge> 129 then Some (crash BadIndex)
      else
        (case find_version md5 (if opens path_buf then Some (Regular content) else None) of
           None \<Rightarrow> None
         | Some v \<Rightarrow> Some (and_then (append_tuple \<lparr> pathname = path_buf, version = v \<rparr> st) (\<lambda>st. ok (0, st)))))"

definition add_dir :: "string \<Rightarrow> flist \<Rightarrow> (fault + nat \<times> flist) option" where
  "add_dir dir_path st =
     (if length dir_path \<ge> 129 then Some (crash BadIndex)
      else Some (and_then (append_tuple \<lparr> pathname = dir_path, version = ''DIR'' \<rparr> st) (\<lambda>st. ok (0, st))))"

text \<open>The loop over the entries with the flag file\_found; the first entry that fails ends it.\<close>

fun each_file ::
    "(string \<Rightarrow> node \<Rightarrow> flist \<Rightarrow> (fault + nat \<times> flist) option) \<Rightarrow> bool \<Rightarrow> (string \<times> node) list \<Rightarrow> flist
     \<Rightarrow> (fault + nat \<times> bool \<times> flist) option" where
  "each_file f file_found [] st = Some (ok (0, file_found, st))"
| "each_file f file_found ((d_name, t) # es) st =
     (if reserved d_name then each_file f file_found es st
      else run_then (f d_name t st) (\<lambda>(ret, st).
             if ret \<noteq> 0 then Some (ok (1, True, st)) else each_file f True es st))"

lemma each_file_cong [fundef_cong]:
  "es = es' \<Longrightarrow> (\<And>n t st. (n, t) \<in> set es' \<Longrightarrow> f n t st = g n t st) \<Longrightarrow> ff = ff' \<Longrightarrow> st = st' \<Longrightarrow>
    each_file f ff es st = each_file g ff' es' st'"
proof (induction es arbitrary: es' ff ff' st st')
  case (Cons e es)
  obtain n t where "e = (n, t)" by fastforce
  moreover have "each_file f b es = each_file g b es" for b using Cons by (intro ext) auto
  moreover have "f n t s = g n t s" for s using Cons.prems(1,2) calculation(1) by auto
  ultimately show ?case using Cons.prems by (auto simp: case_prod_unfold cong: if_cong)
qed simp

function get_file_list ::
    "(string \<Rightarrow> nat list) \<Rightarrow> (string \<Rightarrow> bool) \<Rightarrow> (string \<Rightarrow> bool) \<Rightarrow> string \<Rightarrow> (string \<times> node) list \<Rightarrow> bool \<Rightarrow> flist
     \<Rightarrow> (fault + nat \<times> flist) option" where
  "get_file_list md5 may opens dir_path es first_rec st =
     (if \<not> may dir_path then Some (ok (1, st))
      else
        run_then
          (each_file (\<lambda>d_name t st.
             let path_buf = (if first_rec then d_name else append_to_rel_path dir_path d_name)
             in case t of
                  Dir es' \<Rightarrow> get_file_list md5 may opens path_buf es' False st
                | File c \<Rightarrow> add_file md5 opens path_buf c st) False es st)
          (\<lambda>(ret, file_found, st).
             if ret \<noteq> 0 then Some (ok (1, st))
             else if \<not> file_found \<and> \<not> first_rec then add_dir dir_path st
             else Some (ok (0, st))))"
  by pat_completeness auto
termination
proof (relation "measure (\<lambda>(md5, may, opens, p, es, fr, st). size (Dir es))", simp, clarsimp)
  fix es name es'
  assume "(name, Dir es') \<in> set es"
  from entry_size [OF this]
  show "size_list (size_prod (\<lambda>x. 0) size) es' < size_list (size_prod (\<lambda>x. 0) size) es" by simp
qed

declare get_file_list.simps [simp del]

section \<open>send\_file\_list\<close>

datatype list_msg = LShort int | LCount int | LTuple file_tuple

text \<open>The directory as one attempt finds it.\<close>

record snapshot =
  opens_dir :: "string \<Rightarrow> bool"
  opens_file :: "string \<Rightarrow> bool"
  entries :: "(string \<times> node) list"

text \<open>The loop that tries again after a failure, with the list as the failed attempt left it.\<close>

partial_function (option) gather :: "(string \<Rightarrow> nat list) \<Rightarrow> (nat \<Rightarrow> snapshot) \<Rightarrow> string \<Rightarrow> nat \<Rightarrow> flist \<Rightarrow> (fault + flist) option" where
  "gather md5 now dir_path k st =
     run_then (get_file_list md5 (opens_dir (now k)) (opens_file (now k)) dir_path (entries (now k)) True st) (\<lambda>r.
       if fst r > 0 then gather md5 now dir_path (k + 1) (snd r) else Some (ok (snd r)))"

text \<open>The tuples of the list, one write each; w says which writes succeed.\<close>

partial_function (option) send_tuples ::
    "(nat \<Rightarrow> bool) \<Rightarrow> nat \<Rightarrow> file_tuple cells \<Rightarrow> nat \<Rightarrow> list_msg list \<Rightarrow> (fault + nat \<times> list_msg list) option" where
  "send_tuples w k h curr_node out =
     (case h curr_node of
        None \<Rightarrow> Some (crash UseAfterFree)
      | Some n \<Rightarrow>
          if \<not> w k then Some (ok (1, out))
          else
            (case next_cl n of
               None \<Rightarrow> Some (ok (0, out @ [LTuple (item n)]))
             | Some nxt \<Rightarrow> send_tuples w (k + 1) h nxt (out @ [LTuple (item n)])))"

definition free_file_list :: "flist \<Rightarrow> (fault + flist) option" where
  "free_file_list st =
     (case list_head st of
        None \<Rightarrow> Some (ok st)
      | Some curr_node \<Rightarrow>
          run_then (free_loop (cells (fl_heap st)) curr_node) (\<lambda>cs. Some (ok (st\<lparr>fl_heap := (fl_heap st)\<lparr>cells := cs\<rparr>\<rparr>))))"

definition free_after :: "nat \<Rightarrow> list_msg list \<Rightarrow> flist \<Rightarrow> (fault + nat \<times> list_msg list \<times> flist) option" where
  "free_after ret out st = run_then (free_file_list st) (\<lambda>st. Some (ok (ret, out, st)))"

definition send_file_list ::
    "(string \<Rightarrow> nat list) \<Rightarrow> (nat \<Rightarrow> snapshot) \<Rightarrow> string \<Rightarrow> (nat \<Rightarrow> bool) \<Rightarrow> (fault + nat \<times> list_msg list \<times> flist) option" where
  "send_file_list md5 now dir_path w =
     run_then (gather md5 now dir_path 0 no_files) (\<lambda>st.
       if \<not> w 0 then free_after 1 [] st
       else if \<not> w 1 then free_after 1 [LShort FILE_LIST] st
       else
         let out = [LShort FILE_LIST, LCount (int (num_of_files st))]
         in if num_of_files st = 0 then Some (ok (0, out, st))
            else
              (case list_head st of
                 None \<Rightarrow> Some (crash NullDeref)
               | Some f_list \<Rightarrow>
                   run_then (send_tuples w 2 (cells (fl_heap st)) f_list out) (\<lambda>(ret, out). free_after ret out st)))"

section \<open>The worker that asked for the list\<close>

text \<open>
  The loop over the announced number of tuples.  A read that fails is followed by continue, which
  goes on with the next tuple and leaves the element of the array as malloc made it (None).
\<close>

fun read_tuples :: "nat \<Rightarrow> list_msg list \<Rightarrow> file_tuple option list" where
  "read_tuples 0 ms = []"
| "read_tuples (Suc n) (LTuple ft # ms) = Some ft # read_tuples n ms"
| "read_tuples (Suc n) ms = None # read_tuples n ms"

text \<open>The elements the worker pushes; None when it goes back to the buffer before that.\<close>

definition receive_file_list :: "list_msg list \<Rightarrow> file_tuple option list option" where
  "receive_file_list answer =
     (case answer of
        LShort msg # rest \<Rightarrow>
          if msg \<noteq> OK then None
          else
            (case rest of
               LShort msg # rest \<Rightarrow>
                 if msg \<noteq> FILE_LIST then None
                 else (case rest of LCount n # rest \<Rightarrow> Some (read_tuples (nat n) rest) | _ \<Rightarrow> None)
             | _ \<Rightarrow> None)
      | _ \<Rightarrow> None)"

section \<open>What the list holds\<close>

definition holds_list :: "flist \<Rightarrow> file_tuple list \<Rightarrow> bool" where
  "holds_list st fts \<longleftrightarrow> (\<exists>as. dseg (cells (fl_heap st)) None (list_head st) as fts None \<and> distinct as
     \<and> dom (cells (fl_heap st)) = set as \<and> (\<forall>a \<in> set as. a < brk (fl_heap st))
     \<and> list_last st = last_of None as \<and> num_of_files st = length fts)"

lemma holds_list_no_files: "holds_list no_files []"
  by (auto simp: holds_list_def no_files_def last_of_def intro!: exI [of _ "[]"])

lemma holds_list_represents: "holds_list st fts \<Longrightarrow> represents (fl_heap st) (list_head st) fts \<and> num_of_files st = length fts"
  by (auto simp: holds_list_def represents_def)

lemma append_tuple_holds:
  assumes "holds_list st fts"
  shows "\<exists>st'. append_tuple ft st = ok st' \<and> holds_list st' (fts @ [ft])"
proof -
  obtain as where as: "dseg (cells (fl_heap st)) None (list_head st) as fts None" "distinct as"
      "dom (cells (fl_heap st)) = set as" "\<forall>a \<in> set as. a < brk (fl_heap st)"
      "list_last st = last_of None as" "num_of_files st = length fts"
    using assms by (auto simp: holds_list_def)
  have new: "brk (fl_heap st) \<notin> set as" using as(4) by auto
  show ?thesis
  proof (cases "list_head st")
    case None
    then have "as = []" "fts = []" using as(1) by (cases as; cases fts; auto)+
    define st' where "st' = \<lparr> fl_heap = put_first (fl_heap st) ft, list_head = Some (brk (fl_heap st)),
        list_last = Some (brk (fl_heap st)), num_of_files = num_of_files st + 1 \<rparr>"
    have "append_tuple ft st = ok st'" using None by (simp add: append_tuple_def st'_def Let_def)
    moreover have "holds_list st' (fts @ [ft])" unfolding holds_list_def
      using None as(3,6) \<open>as = []\<close> \<open>fts = []\<close>
      by (intro exI [of _ "[brk (fl_heap st)]"]) (auto simp: st'_def put_first_def new_node_def last_of_def)
    ultimately show ?thesis by blast
  next
    case (Some a)
    then obtain bs b where bs: "as = bs @ [b]" using as(1) by (cases as rule: rev_cases; cases fts) auto
    obtain us t where us: "fts = us @ [t]" using dseg_length [OF as(1)] bs by (cases fts rule: rev_cases) auto
    obtain n where n: "cells (fl_heap st) b = Some n" "next_cl n = None"
        "dseg ((cells (fl_heap st))(b \<mapsto> n\<lparr>next_cl := Some (brk (fl_heap st))\<rparr>)) None (Some a) as fts (Some (brk (fl_heap st)))"
      using dseg_redirect_last [of "cells (fl_heap st)" None "Some a" bs b us t None] as(1,2) bs us Some by auto
    define h where "h = put_behind (fl_heap st) b n ft"
    define st' where "st' = st\<lparr>fl_heap := h, list_last := Some (brk (fl_heap st)), num_of_files := num_of_files st + 1\<rparr>"
    have "dseg (cells h) None (Some a) as fts (Some (brk (fl_heap st)))"
      using n(3) new by (simp add: dseg_frame h_def put_behind_def)
    then have "dseg (cells h) None (Some a) (as @ [brk (fl_heap st)]) (fts @ [ft]) None"
      unfolding dseg_append [OF dseg_length [OF as(1)]] using bs
      by (intro exI [of _ "Some (brk (fl_heap st))"]) (simp add: last_of_def h_def put_behind_def new_node_def)
    moreover have "dom (cells h) = set (as @ [brk (fl_heap st)])" "brk h = Suc (brk (fl_heap st))"
      using as(3) bs by (auto simp: h_def put_behind_def)
    ultimately have "holds_list st' (fts @ [ft])" unfolding holds_list_def st'_def
      using as(2,4,6) new Some by (intro exI [of _ "as @ [brk (fl_heap st)]"]) (auto simp: less_Suc_eq last_of_def)
    moreover have "append_tuple ft st = ok st'"
      using Some as(5) bs n(1) by (simp add: append_tuple_def last_of_def st'_def h_def Let_def)
    ultimately show ?thesis by blast
  qed
qed

text \<open>The tree the list shows: without the reserved names, at every level.\<close>

fun shown :: "node \<Rightarrow> node" where
  "shown (File c) = File c"
| "shown (Dir es) = Dir (map (\<lambda>(n, t). (n, shown t)) (filter (\<lambda>e. \<not> reserved (fst e)) es))"

definition shown_entries :: "(string \<times> node) list \<Rightarrow> (string \<times> node) list" where
  "shown_entries es = map (\<lambda>(n, t). (n, shown t)) (filter (\<lambda>e. \<not> reserved (fst e)) es)"

lemma shown_Dir: "shown (Dir es) = Dir (shown_entries es)"
  by (simp add: shown_entries_def)

declare shown.simps(2) [simp del]

lemma shown_entries_simps [simp]:
  "shown_entries [] = []"
  "shown_entries ((n, t) # es) = (if reserved n then shown_entries es else (n, shown t) # shown_entries es)"
  by (simp_all add: shown_entries_def)

text \<open>What is listed for the entries of a directory, and for the directory.\<close>

definition below :: "string list \<Rightarrow> (string \<times> node) list \<Rightarrow> (string list \<times> string option) list" where
  "below ns es = concat (map (\<lambda>(n, t). leaves_of (ns @ [n]) t) (shown_entries es))"

definition listed :: "string list \<Rightarrow> (string \<times> node) list \<Rightarrow> (string list \<times> string option) list" where
  "listed ns es = (if shown_entries es = [] \<and> ns \<noteq> [] then [(ns, None)] else below ns es)"

definition tuple_of :: "(string \<Rightarrow> nat list) \<Rightarrow> string list \<times> string option \<Rightarrow> file_tuple" where
  "tuple_of md5 l = \<lparr> pathname = join (fst l),
     version = (case snd l of None \<Rightarrow> ''DIR'' | Some c \<Rightarrow> the (find_version md5 (Some (Regular c)))) \<rparr>"

lemma below_simps:
  "below ns [] = []"
  "below ns ((n, t) # es) = (if reserved n then [] else leaves_of (ns @ [n]) (shown t)) @ below ns es"
  by (simp_all add: below_def)

lemma listed_leaves: "ns \<noteq> [] \<Longrightarrow> leaves_of ns (shown (Dir es)) = listed ns es"
  by (simp add: shown_Dir listed_def below_def)

lemma listed_top: "listed [] es = top_leaves (shown_entries es)"
  by (simp add: listed_def below_def top_leaves_def)

section \<open>What get\_file\_list adds\<close>

text \<open>A call that returns has added a prefix of the leaves, and all of them when it returns 0.\<close>

definition adds_leaves :: "(string \<Rightarrow> nat list) \<Rightarrow> file_tuple list \<Rightarrow> (string list \<times> string option) list \<Rightarrow> nat \<Rightarrow> flist \<Rightarrow> bool" where
  "adds_leaves md5 fts ls ret st' \<longleftrightarrow> (\<exists>ts. prefix ts (map (tuple_of md5) ls) \<and>
     (ret = 0 \<longrightarrow> ts = map (tuple_of md5) ls) \<and> holds_list st' (fts @ ts))"

lemma adds_leavesI: "holds_list st' (fts @ map (tuple_of md5) ls) \<Longrightarrow> adds_leaves md5 fts ls ret st'"
  by (auto simp: adds_leaves_def)

lemma adds_leaves_then:
  assumes "adds_leaves md5 fts ls 0 st1" "\<And>ts. holds_list st1 (fts @ ts) \<Longrightarrow> adds_leaves md5 (fts @ ts) ls' ret st'"
  shows "adds_leaves md5 fts (ls @ ls') ret st'"
proof -
  have "holds_list st1 (fts @ map (tuple_of md5) ls)" using assms(1) by (auto simp: adds_leaves_def)
  from assms(2) [OF this] obtain ts where ts: "prefix ts (map (tuple_of md5) ls')" "ret = 0 \<longrightarrow> ts = map (tuple_of md5) ls'"
      "holds_list st' ((fts @ map (tuple_of md5) ls) @ ts)"
    by (auto simp: adds_leaves_def)
  then show ?thesis unfolding adds_leaves_def by (intro exI [of _ "map (tuple_of md5) ls @ ts"]) auto
qed

lemma adds_leaves_stop: "adds_leaves md5 fts ls ret st' \<Longrightarrow> adds_leaves md5 fts (ls @ ls') 1 st'"
  by (auto simp: adds_leaves_def intro: prefix_prefix)

lemma adds_leaves_none: "holds_list st' fts \<Longrightarrow> ret \<noteq> 0 \<Longrightarrow> adds_leaves md5 fts ls ret st'"
  by (auto simp: adds_leaves_def intro!: exI [of _ "[]"])

lemma add_file_adds:
  assumes "holds_list st fts" "add_file md5 opens (join ns) c st = Some (ok (ret, st'))"
  shows "adds_leaves md5 fts [(ns, Some c)] ret st'"
proof -
  obtain v where v: "opens (join ns)" "find_version md5 (Some (Regular c)) = Some v"
      "append_tuple \<lparr> pathname = join ns, version = v \<rparr> st = ok st'"
    using assms(2) by (auto simp: add_file_def and_then_ok_iff split: if_splits option.splits)
  moreover have "tuple_of md5 (ns, Some c) = \<lparr> pathname = join ns, version = v \<rparr>" using v by (simp add: tuple_of_def)
  ultimately show ?thesis using append_tuple_holds [OF assms(1), of "tuple_of md5 (ns, Some c)"]
    by (intro adds_leavesI) auto
qed

lemma add_dir_adds:
  assumes "holds_list st fts" "add_dir (join ns) st = Some (ok (ret, st'))"
  shows "adds_leaves md5 fts [(ns, None)] ret st'"
proof -
  have "append_tuple \<lparr> pathname = join ns, version = ''DIR'' \<rparr> st = ok st'"
    using assms(2) by (auto simp: add_dir_def and_then_ok_iff split: if_splits)
  moreover have "tuple_of md5 (ns, None) = \<lparr> pathname = join ns, version = ''DIR'' \<rparr>" by (simp add: tuple_of_def)
  ultimately show ?thesis using append_tuple_holds [OF assms(1), of "tuple_of md5 (ns, None)"]
    by (intro adds_leavesI) auto
qed

lemma each_file_adds:
  assumes "\<And>n t st fts ret st'. (n, t) \<in> set es \<Longrightarrow> holds_list st fts \<Longrightarrow> f n t st = Some (ok (ret, st')) \<Longrightarrow>
      adds_leaves md5 fts (leaves_of (ns @ [n]) (shown t)) ret st'"
    and "holds_list st fts" "each_file f ff es st = Some (ok (ret, ff', st'))"
  shows "adds_leaves md5 fts (below ns es) ret st' \<and> ret \<le> 1 \<and> (ret = 0 \<longrightarrow> ff' = (ff \<or> shown_entries es \<noteq> []))"
  using assms
proof (induction es arbitrary: ff st fts)
  case Nil
  then show ?case by (auto intro!: adds_leavesI simp: below_simps)
next
  case (Cons e es)
  obtain n t where e: "e = (n, t)" by fastforce
  have IH: "adds_leaves md5 fts (below ns es) ret st' \<and> ret \<le> 1 \<and> (ret = 0 \<longrightarrow> ff' = (ff \<or> shown_entries es \<noteq> []))"
    if "holds_list st fts" "each_file f ff es st = Some (ok (ret, ff', st'))" for st fts ff
    by (rule Cons.IH) (use Cons.prems(1) that in auto)
  show ?case
  proof (cases "reserved n")
    case True
    with IH [OF Cons.prems(2), of ff] Cons.prems(3) e show ?thesis by (simp add: below_simps)
  next
    case False
    then obtain ret1 st1 where r: "f n t st = Some (ok (ret1, st1))"
        "if ret1 \<noteq> 0 then (ret, ff', st') = (1, True, st1) else each_file f True es st1 = Some (ok (ret, ff', st'))"
      using Cons.prems(3) e by (auto simp: run_then_ok_iff split: if_split_asm)
    have a: "adds_leaves md5 fts (leaves_of (ns @ [n]) (shown t)) ret1 st1"
      using Cons.prems(1) [OF _ Cons.prems(2) r(1)] e by simp
    show ?thesis
    proof (cases "ret1 = 0")
      case True
      then have next1: "each_file f True es st1 = Some (ok (ret, ff', st'))" using r(2) by simp
      have "adds_leaves md5 fts (leaves_of (ns @ [n]) (shown t) @ below ns es) ret st'"
        using a True IH [OF _ next1] by (intro adds_leaves_then [of md5 fts _ st1]) blast+
      moreover have "ret \<le> 1 \<and> (ret = 0 \<longrightarrow> ff')"
        using IH [OF _ next1] a by (auto simp: adds_leaves_def)
      ultimately show ?thesis using False e by (simp add: below_simps)
    next
      case ret: False
      then show ?thesis using adds_leaves_stop [OF a] r(2) False e by (simp add: below_simps)
    qed
  qed
qed

definition root_or :: "bool \<Rightarrow> string \<Rightarrow> string list \<Rightarrow> bool" where
  "root_or first_rec dir_path ns \<longleftrightarrow> (if first_rec then ns = [] else ns \<noteq> [] \<and> dir_path = join ns)"

lemma root_or_path: "root_or fr p ns \<Longrightarrow> (if fr then n else append_to_rel_path p n) = join (ns @ [n])"
  by (auto simp: root_or_def join_snoc split: if_splits)

lemma get_file_list_adds:
  assumes "holds_list st fts" "root_or fr p ns" "get_file_list md5 may opens p es fr st = Some (ok (ret, st'))"
  shows "adds_leaves md5 fts (listed ns es) ret st'"
  using assms
proof (induction md5 may opens p es fr st arbitrary: ns fts ret st' rule: get_file_list.induct)
  case (1 md5 may opens p es fr st)
  note prems = \<open>holds_list st fts\<close> \<open>root_or fr p ns\<close> \<open>get_file_list md5 may opens p es fr st = Some (ok (ret, st'))\<close>
  show ?case
  proof (cases "may p")
    case False
    then show ?thesis using prems by (auto simp: get_file_list.simps [of md5 may] intro: adds_leaves_none)
  next
    case True
    let ?f = "\<lambda>d_name t st. let path_buf = (if fr then d_name else append_to_rel_path p d_name)
             in case t of Dir es' \<Rightarrow> get_file_list md5 may opens path_buf es' False st
                | File c \<Rightarrow> add_file md5 opens path_buf c st"
    have each: "adds_leaves md5 fts (leaves_of (ns @ [n]) (shown t)) ret st'"
      if "(n, t) \<in> set es" "holds_list st fts" "?f n t st = Some (ok (ret, st'))" for n t st fts ret st'
    proof (cases t)
      case (File c)
      with that add_file_adds [of st fts md5 opens "ns @ [n]" c] root_or_path [OF prems(2)] show ?thesis by (simp add: Let_def)
    next
      case (Dir es')
      have "get_file_list md5 may opens (join (ns @ [n])) es' False st = Some (ok (ret, st'))"
        using that(3) Dir root_or_path [OF prems(2)] by (simp add: Let_def)
      then have "adds_leaves md5 fts (listed (ns @ [n]) es') ret st'"
        using 1(1) [OF _ that(1) refl Dir that(2), of "ns @ [n]"] True root_or_path [OF prems(2), of n]
        by (simp add: root_or_def)
      then show ?thesis using Dir by (simp add: listed_leaves)
    qed
    obtain ret1 ff st1 where r: "each_file ?f False es st = Some (ok (ret1, ff, st1))"
        "(if ret1 \<noteq> 0 then Some (ok (1, st1)) else if \<not> ff \<and> \<not> fr then add_dir p st1 else Some (ok (0, st1))) = Some (ok (ret, st'))"
      using prems(3) True by (auto simp: get_file_list.simps [of md5 may] run_then_ok_iff)
    from each_file_adds [of es ?f md5 ns, OF each prems(1) r(1)]
    have a: "adds_leaves md5 fts (below ns es) ret1 st1" "ret1 = 0 \<longrightarrow> ff = (shown_entries es \<noteq> [])" by auto
    show ?thesis
    proof (cases "shown_entries es = [] \<and> ns \<noteq> []")
      case True
      then have l: "listed ns es = [(ns, None)]" "below ns es = []" by (auto simp: listed_def below_def)
      show ?thesis
      proof (cases "ret1 = 0")
        case ok: True
        have "holds_list st1 fts" using a(1) l(2) ok by (auto simp: adds_leaves_def)
        moreover have "add_dir (join ns) st1 = Some (ok (ret, st'))"
          using r(2) ok a(2) True prems(2) by (auto simp: root_or_def split: if_splits)
        ultimately show ?thesis unfolding l(1) by (rule add_dir_adds)
      next
        case False
        have "holds_list st' fts \<and> ret = 1" using a(1) l(2) False r(2) by (auto simp: adds_leaves_def)
        then show ?thesis by (intro adds_leaves_none) auto
      qed
    next
      case False
      then have "listed ns es = below ns es" by (auto simp: listed_def)
      moreover have "st' = st1 \<and> ret = ret1" if "ret1 = 0"
        using r(2) that a(2) False prems(2) by (auto simp: root_or_def split: if_splits)
      moreover have "st' = st1 \<and> ret = 1" if "ret1 \<noteq> 0" using r(2) that by simp
      ultimately show ?thesis using a(1) by (cases "ret1 = 0") (auto simp: adds_leaves_def)
    qed
  qed
qed

section \<open>When get\_file\_list returns\<close>

definition readable :: "(string \<Rightarrow> bool) \<Rightarrow> (string list \<times> string option) list \<Rightarrow> bool" where
  "readable opens ls \<longleftrightarrow> (\<forall>l \<in> set ls. snd l = None \<or> opens (join (fst l)))"

definition short_paths :: "(string list \<times> string option) list \<Rightarrow> bool" where
  "short_paths ls \<longleftrightarrow> (\<forall>l \<in> set ls. length (join (fst l)) < 129)"

lemma readable_simps [simp]:
  "readable opens []" "readable opens (xs @ ys) \<longleftrightarrow> readable opens xs \<and> readable opens ys"
  "readable opens [(ns, None)]" "readable opens [(ns, Some c)] \<longleftrightarrow> opens (join ns)"
  by (auto simp: readable_def)

lemma short_paths_simps [simp]:
  "short_paths []" "short_paths (xs @ ys) \<longleftrightarrow> short_paths xs \<and> short_paths ys"
  "short_paths [l] \<longleftrightarrow> length (join (fst l)) < 129"
  by (auto simp: short_paths_def)

definition completes ::
    "bool \<Rightarrow> (string \<Rightarrow> nat list) \<Rightarrow> file_tuple list \<Rightarrow> (string list \<times> string option) list \<Rightarrow> (fault + nat \<times> flist) option \<Rightarrow> bool" where
  "completes good md5 fts ls r \<longleftrightarrow>
     (if good then \<exists>st'. r = Some (ok (0, st')) \<and> holds_list st' (fts @ map (tuple_of md5) ls) else r = None)"

lemma add_file_completes:
  assumes "holds_list st fts" "length (join ns) < 129"
  shows "completes (opens (join ns)) md5 fts [(ns, Some c)] (add_file md5 opens (join ns) c st)"
  using append_tuple_holds [OF assms(1), of "tuple_of md5 (ns, Some c)"] assms(2)
  by (auto simp: completes_def add_file_def find_version_digits tuple_of_def)

lemma add_dir_completes:
  assumes "holds_list st fts" "length (join ns) < 129"
  shows "completes True md5 fts [(ns, None)] (add_dir (join ns) st)"
  using append_tuple_holds [OF assms(1), of "tuple_of md5 (ns, None)"] assms(2)
  by (auto simp: completes_def add_dir_def tuple_of_def)

lemma each_file_completes:
  assumes "\<And>n t st fts. (n, t) \<in> set es \<Longrightarrow> holds_list st fts \<Longrightarrow> \<not> reserved n \<Longrightarrow>
      completes (readable opens (leaves_of (ns @ [n]) (shown t))) md5 fts (leaves_of (ns @ [n]) (shown t)) (f n t st)"
    and "holds_list st fts"
  shows "if readable opens (below ns es) then
      \<exists>st'. each_file f ff es st = Some (ok (0, ff \<or> shown_entries es \<noteq> [], st')) \<and> holds_list st' (fts @ map (tuple_of md5) (below ns es))
    else each_file f ff es st = None"
  using assms
proof (induction es arbitrary: ff st fts)
  case Nil
  then show ?case by (simp add: below_simps)
next
  case (Cons e es)
  obtain n t where e: "e = (n, t)" by fastforce
  have IH: "if readable opens (below ns es) then
      \<exists>st'. each_file f ff es st = Some (ok (0, ff \<or> shown_entries es \<noteq> [], st')) \<and> holds_list st' (fts @ map (tuple_of md5) (below ns es))
    else each_file f ff es st = None" if "holds_list st fts" for st fts ff
    by (rule Cons.IH) (use Cons.prems(1) that in auto)
  show ?case
  proof (cases "reserved n")
    case True
    with IH [OF Cons.prems(2), of ff] e show ?thesis by (simp add: below_simps)
  next
    case False
    let ?ls = "leaves_of (ns @ [n]) (shown t)"
    have c: "completes (readable opens ?ls) md5 fts ?ls (f n t st)"
      using Cons.prems(1) [OF _ Cons.prems(2) False] e by simp
    show ?thesis
    proof (cases "readable opens ?ls")
      case True
      then obtain st1 where st1: "f n t st = Some (ok (0, st1))" "holds_list st1 (fts @ map (tuple_of md5) ?ls)"
        using c by (auto simp: completes_def)
      from IH [OF this(2), of True] st1(1) True False e show ?thesis
        by (cases "readable opens (below ns es)") (simp_all add: below_simps)
    next
      case bad: False
      then have "f n t st = None" using c by (simp add: completes_def)
      with bad False e show ?thesis by (simp add: below_simps)
    qed
  qed
qed

lemma listed_below: "set (below ns es) \<subseteq> set (listed ns es)"
  by (auto simp: listed_def below_def)

lemma get_file_list_completes:
  assumes "holds_list st fts" "root_or fr p ns" "\<forall>q. may q" "short_paths (listed ns es)"
  shows "completes (readable opens (listed ns es)) md5 fts (listed ns es) (get_file_list md5 may opens p es fr st)"
  using assms
proof (induction md5 may opens p es fr st arbitrary: ns fts rule: get_file_list.induct)
  case (1 md5 may opens p es fr st)
  note prems = \<open>holds_list st fts\<close> \<open>root_or fr p ns\<close> \<open>\<forall>q. may q\<close> \<open>short_paths (listed ns es)\<close>
  let ?f = "\<lambda>d_name t st. let path_buf = (if fr then d_name else append_to_rel_path p d_name)
             in case t of Dir es' \<Rightarrow> get_file_list md5 may opens path_buf es' False st
                | File c \<Rightarrow> add_file md5 opens path_buf c st"
  have m: "\<not> \<not> may p" using prems(3) by simp
  have each: "completes (readable opens (leaves_of (ns @ [n]) (shown t))) md5 fts (leaves_of (ns @ [n]) (shown t)) (?f n t st)"
    if "(n, t) \<in> set es" "holds_list st fts" "\<not> reserved n" for n t st fts
  proof -
    have "set (leaves_of (ns @ [n]) (shown t)) \<subseteq> set (listed ns es)"
      using that(1,3) listed_below [of ns es] by (fastforce simp: below_def shown_entries_def)
    then have short: "short_paths (leaves_of (ns @ [n]) (shown t))" using prems(4) by (auto simp: short_paths_def)
    show ?thesis
    proof (cases t)
      case (File c)
      with that short add_file_completes [of st fts "ns @ [n]" opens md5 c] root_or_path [OF prems(2)] show ?thesis
        by (simp add: Let_def)
    next
      case (Dir es')
      then have "completes (readable opens (listed (ns @ [n]) es')) md5 fts (listed (ns @ [n]) es')
          (get_file_list md5 may opens (join (ns @ [n])) es' False st)"
        using 1(1) [OF m that(1) refl Dir that(2) _ prems(3), of "ns @ [n]"] root_or_path [OF prems(2), of n] short
        by (simp add: root_or_def listed_leaves)
      then show ?thesis using Dir root_or_path [OF prems(2)] by (simp add: listed_leaves Let_def)
    qed
  qed
  have gfl: "get_file_list md5 may opens p es fr st = run_then (each_file ?f False es st) (\<lambda>(ret, file_found, st).
             if ret \<noteq> 0 then Some (ok (1, st))
             else if \<not> file_found \<and> \<not> fr then add_dir p st
             else Some (ok (0, st)))"
    using prems(3) by (simp add: get_file_list.simps [of md5 may])
  show ?case
  proof (cases "readable opens (below ns es)")
    case True
    with each_file_completes [of es opens ns md5 ?f, OF each prems(1), of False]
    obtain st1 where st1: "each_file ?f False es st = Some (ok (0, shown_entries es \<noteq> [], st1))"
        "holds_list st1 (fts @ map (tuple_of md5) (below ns es))" by auto
    show ?thesis
    proof (cases "shown_entries es = [] \<and> ns \<noteq> []")
      case True
      then have "listed ns es = [(ns, None)]" "below ns es = []" "p = join ns" "\<not> fr"
        using prems(2) by (auto simp: listed_def below_def root_or_def split: if_splits)
      with True st1 prems(4) add_dir_completes [of st1 fts ns md5] show ?thesis unfolding gfl by simp
    next
      case False
      then have "listed ns es = below ns es" "shown_entries es \<noteq> [] \<or> fr"
        using prems(2) by (auto simp: listed_def root_or_def split: if_splits)
      with st1 True show ?thesis unfolding gfl by (auto simp: completes_def)
    qed
  next
    case False
    with each_file_completes [of es opens ns md5 ?f, OF each prems(1), of False]
    have "get_file_list md5 may opens p es fr st = None" unfolding gfl by simp
    moreover have "\<not> readable opens (listed ns es)" using False listed_below [of ns es] by (auto simp: readable_def)
    ultimately show ?thesis by (simp add: completes_def)
  qed
qed

section \<open>From one client to the other\<close>

lemma send_tuples_outcome:
  assumes "dseg h prev (Some a) as ts None" "\<forall>j < n. w (k + j)" "n < length ts \<longrightarrow> \<not> w (k + n)"
  shows "send_tuples w k h a out = Some (ok (if n < length ts then 1 else 0, out @ map LTuple (take n ts)))"
  using assms
proof (induction ts arbitrary: prev a as k n out)
  case Nil
  then show ?case by (cases as) auto
next
  case (Cons t ts)
  then obtain as' nx where as: "as = a # as'" "h a = Some \<lparr> item = t, next_cl = nx, previous = prev \<rparr>"
      "dseg h (Some a) nx as' ts None" by (cases as) auto
  show ?case
  proof (cases n)
    case 0
    then show ?thesis using Cons.prems(3) as(2) by (simp add: send_tuples.simps [of w k])
  next
    case (Suc m)
    then have "w k" using Cons.prems(2) by (metis add_0_right zero_less_Suc)
    show ?thesis
    proof (cases nx)
      case None
      then have "ts = []" using as(3) by (cases as'; cases ts) auto
      with None Suc \<open>w k\<close> as(2) show ?thesis by (simp add: send_tuples.simps [of w k])
    next
      case (Some b)
      have "send_tuples w (k + 1) h b (out @ [LTuple t])
          = Some (ok (if m < length ts then 1 else 0, (out @ [LTuple t]) @ map LTuple (take m ts)))"
        using Cons.prems(2,3) Suc as(3) Some by (intro Cons.IH) auto
      with Some Suc \<open>w k\<close> as(2) show ?thesis by (simp add: send_tuples.simps [of w k])
    qed
  qed
qed

lemma free_file_list_all:
  assumes "holds_list st fts"
  shows "\<exists>st'. free_file_list st = Some (ok st') \<and> cells (fl_heap st') = Map.empty"
proof (cases "list_head st")
  case None
  have r: "represents (fl_heap st) None fts" using holds_list_represents [OF assms] None by simp
  then have "cells (fl_heap st) = Map.empty" by (auto simp: represents_def elim: dseg.elims)
  with None show ?thesis by (simp add: free_file_list_def)
next
  case (Some a)
  have "represents (fl_heap st) (Some a) fts" using holds_list_represents [OF assms] Some by simp
  from free_loop_all [OF this] Some show ?thesis by (simp add: free_file_list_def)
qed

text \<open>The messages for a list; the n-th of the tuples is the first whose write fails.\<close>

definition list_messages :: "nat \<Rightarrow> file_tuple list \<Rightarrow> list_msg list" where
  "list_messages n fts = [LShort FILE_LIST, LCount (int (length fts))] @ map LTuple (take n fts)"

lemma send_list_outcome:
  assumes "gather md5 now p 0 no_files = Some (ok st)" "holds_list st fts" "\<forall>j < 2 + n. w j" "n < length fts \<longrightarrow> \<not> w (2 + n)"
  shows "\<exists>st'. send_file_list md5 now p w = Some (ok (if n < length fts then 1 else 0, list_messages n fts, st'))
    \<and> cells (fl_heap st') = Map.empty"
proof -
  have w: "w 0" "w 1" using assms(3) by auto
  obtain st' where freed: "free_file_list st = Some (ok st')" "cells (fl_heap st') = Map.empty"
    using free_file_list_all [OF assms(2)] by blast
  note rep = holds_list_represents [OF assms(2)]
  show ?thesis
  proof (cases "fts = []")
    case True
    then have "list_head st = None" using rep by (auto elim: represents_cases)
    then have "cells (fl_heap st) = Map.empty" using freed by (simp add: free_file_list_def)
    then show ?thesis using True rep w assms(1) by (simp add: send_file_list_def list_messages_def)
  next
    case False
    then obtain a where a: "list_head st = Some a" using rep by (auto elim: represents_cases)
    obtain as where "dseg (cells (fl_heap st)) None (Some a) as fts None" using assms(2) a by (auto simp: holds_list_def)
    from send_tuples_outcome [OF this, of n w 2] assms(3,4)
    have "send_tuples w 2 (cells (fl_heap st)) a [LShort FILE_LIST, LCount (int (num_of_files st))]
        = Some (ok (if n < length fts then 1 else 0, list_messages n fts))"
      using rep by (simp add: list_messages_def)
    then show ?thesis using False a w rep assms(1) freed
      by (simp add: send_file_list_def free_after_def Let_def)
  qed
qed

lemma read_tuples_cut:
  "length ts \<le> n \<Longrightarrow> read_tuples n (map LTuple ts) = map Some ts @ replicate (n - length ts) None"
proof (induction n arbitrary: ts)
  case (Suc n)
  show ?case
  proof (cases ts)
    case Nil
    then show ?thesis using Suc.IH [of "[]"] by simp
  next
    case (Cons t ts')
    then show ?thesis using Suc by simp
  qed
qed simp

lemma receive_messages:
  "receive_file_list (LShort OK # list_messages n fts)
    = Some (map Some (take n fts) @ replicate (length fts - n) None)"
  using read_tuples_cut [of "take n fts" "length fts"]
  by (simp add: receive_file_list_def list_messages_def message_codes min_def)

text \<open>What is listed of a whole client directory.\<close>

definition files_of :: "(string \<Rightarrow> nat list) \<Rightarrow> snapshot \<Rightarrow> file_tuple list" where
  "files_of md5 s = map (tuple_of md5) (top_leaves (shown_entries (entries s)))"

definition listable :: "snapshot \<Rightarrow> bool" where
  "listable s \<longleftrightarrow> (\<forall>q. opens_dir s q) \<and> short_paths (top_leaves (shown_entries (entries s)))
     \<and> readable (opens_file s) (top_leaves (shown_entries (entries s)))"

lemma attempt_succeeds:
  assumes "listable (now k)" "holds_list st fts"
  shows "\<exists>st'. gather md5 now p k st = Some (ok st') \<and> holds_list st' (fts @ files_of md5 (now k))"
proof -
  obtain st' where "get_file_list md5 (opens_dir (now k)) (opens_file (now k)) p (entries (now k)) True st = Some (ok (0, st'))"
      "holds_list st' (fts @ files_of md5 (now k))"
    using get_file_list_completes [OF assms(2), of True p "[]" "opens_dir (now k)" "entries (now k)" "opens_file (now k)" md5] assms(1)
    by (auto simp: listed_top root_or_def listable_def completes_def files_of_def)
  then show ?thesis by (simp add: gather.simps [of md5 now p k])
qed

lemma attempt_fails:
  assumes "get_file_list md5 (opens_dir (now k)) (opens_file (now k)) p (entries (now k)) True st = Some (ok (1, st1))"
    and "holds_list st fts"
  shows "\<exists>ts. prefix ts (files_of md5 (now k)) \<and> holds_list st1 (fts @ ts)
    \<and> gather md5 now p k st = gather md5 now p (k + 1) st1"
  using get_file_list_adds [OF assms(2) _ assms(1), of "[]"] assms(1)
  by (auto simp: gather.simps [of md5 now p k] listed_top root_or_def adds_leaves_def files_of_def)


text \<open>
  When the first attempt to list the files fails, the second one goes on with the list the first
  one left: what the first attempt had listed is sent twice.
\<close>

theorem retry_repeats_files:
  assumes "get_file_list md5 (opens_dir (now 0)) (opens_file (now 0)) dir_path (entries (now 0)) True no_files = Some (ok (1, st1))"
    and "listable (now 1)" "\<forall>k. w k"
  shows "\<exists>ts msgs st. prefix ts (files_of md5 (now 0)) \<and> holds_list st1 ts \<and>
    send_file_list md5 now dir_path w = Some (ok (0, msgs, st)) \<and>
    receive_file_list (LShort OK # msgs) = Some (map Some (ts @ files_of md5 (now 1)))"
proof -
  obtain ts where ts: "prefix ts (files_of md5 (now 0))" "holds_list st1 ts"
      "gather md5 now dir_path 0 no_files = gather md5 now dir_path 1 st1"
    using attempt_fails [where now = now and k = 0 and fts = "[]", OF assms(1) holds_list_no_files] by auto
  obtain st where st: "gather md5 now dir_path 0 no_files = Some (ok st)" "holds_list st (ts @ files_of md5 (now 1))"
    using attempt_succeeds [where now = now and k = 1, OF assms(2) ts(2)] ts(3) by auto
  from send_list_outcome [OF st, of "length (ts @ files_of md5 (now 1))" w] assms(3) ts
  show ?thesis by (auto simp: receive_messages intro!: exI [of _ ts])
qed

lemma gather_spins:
  assumes "\<forall>k. \<not> opens_dir (now k) p"
  shows "gather md5 now p k st = None"
proof (rule ccontr)
  assume "gather md5 now p k st \<noteq> None"
  then obtain y where "gather md5 now p k st = Some y" by blast
  then have "\<exists>k. opens_dir (now k) p"
  proof (rule gather.raw_induct [where P = "\<lambda>md5 now p k st y. \<exists>k. opens_dir (now k) p", rotated])
    fix g :: "(string \<Rightarrow> nat list) \<Rightarrow> (nat \<Rightarrow> snapshot) \<Rightarrow> string \<Rightarrow> nat \<Rightarrow> flist \<Rightarrow> (fault + flist) option" and md5 now p k st y
    assume IH: "\<And>md5 now p k st y. g md5 now p k st = Some y \<Longrightarrow> \<exists>k. opens_dir (now k) p"
      and step: "run_then (get_file_list md5 (opens_dir (now k)) (opens_file (now k)) p (entries (now k)) True st)
        (\<lambda>r. if fst r > 0 then g md5 now p (k + 1) (snd r) else Some (ok (snd r))) = Some y"
    show "\<exists>k. opens_dir (now k) p"
    proof (cases "opens_dir (now k) p")
      case False
      with step have "g md5 now p (k + 1) st = Some y" by (simp add: get_file_list.simps [of md5 "opens_dir (now k)"])
      then show ?thesis by (rule IH)
    qed blast
  qed
  with assms show False by blast
qed

text \<open>
  The sender never answers when its directory cannot be opened any more, or when it contains a
  file that may not be read.
\<close>

theorem list_never_sent:
  assumes "(\<forall>k. \<not> opens_dir (now k) dir_path) \<or>
    ((\<forall>q. opens_dir (now 0) q) \<and> short_paths (top_leaves (shown_entries (entries (now 0))))
      \<and> \<not> readable (opens_file (now 0)) (top_leaves (shown_entries (entries (now 0)))))"
  shows "send_file_list md5 now dir_path w = None"
proof -
  have "gather md5 now dir_path 0 no_files = None"
    using assms
  proof
    assume "\<forall>k. \<not> opens_dir (now k) dir_path"
    then show ?thesis by (rule gather_spins)
  next
    assume "(\<forall>q. opens_dir (now 0) q) \<and> short_paths (top_leaves (shown_entries (entries (now 0))))
      \<and> \<not> readable (opens_file (now 0)) (top_leaves (shown_entries (entries (now 0))))"
    with get_file_list_completes [OF holds_list_no_files, of True dir_path "[]" "opens_dir (now 0)" "entries (now 0)"
        "opens_file (now 0)" md5]
    show ?thesis by (simp add: gather.simps [of md5 now dir_path 0] listed_top root_or_def completes_def)
  qed
  then show ?thesis by (simp add: send_file_list_def)
qed

text \<open>
  When the connection breaks after n tuples the sender frees its list and reports the failure, and
  the worker pushes one element for every announced file, those beyond the n-th never written.
\<close>

theorem cut_list_leaves_junk:
  assumes "listable (now 0)" "n < length (files_of md5 (now 0))" "\<forall>j < 2 + n. w j" "\<not> w (2 + n)"
  shows "\<exists>msgs st. send_file_list md5 now dir_path w = Some (ok (1, msgs, st)) \<and> cells (fl_heap st) = Map.empty \<and>
    receive_file_list (LShort OK # msgs)
      = Some (map Some (take n (files_of md5 (now 0))) @ replicate (length (files_of md5 (now 0)) - n) None)"
proof -
  obtain st where st: "gather md5 now dir_path 0 no_files = Some (ok st)" "holds_list st (files_of md5 (now 0))"
    using attempt_succeeds [where now = now and k = 0 and fts = "[]", OF assms(1) holds_list_no_files] by auto
  from send_list_outcome [OF st, of n w] assms(2-4) show ?thesis by (auto simp: receive_messages)
qed

section \<open>Witnesses\<close>

definition sample_files :: "(string \<times> node) list" where
  "sample_files = [(''a'', File ''x''), (''__RSRVD'', Dir [(''b'', File [])]), (''d'', Dir [(''e'', Dir []), (''f'', File ''y'')])]"

definition sample_dir :: "nat \<Rightarrow> snapshot" where
  "sample_dir k = \<lparr> opens_dir = (\<lambda>q. True), opens_file = (\<lambda>q. True), entries = sample_files \<rparr>"

definition locked_dir :: "nat \<Rightarrow> snapshot" where
  "locked_dir k = \<lparr> opens_dir = (\<lambda>q. k \<noteq> 0 \<or> q \<noteq> ''d''), opens_file = (\<lambda>q. True), entries = sample_files \<rparr>"

lemma sample_leaves:
  "top_leaves (shown_entries sample_files) = [([''a''], Some ''x''), ([''d'', ''e''], None), ([''d'', ''f''], Some ''y'')]"
  by (simp add: sample_files_def reserved_def top_leaves_def shown_Dir)

lemma sample_listable: "listable (sample_dir k)" "listable (locked_dir (Suc k))"
  by (simp_all add: listable_def sample_dir_def locked_dir_def sample_leaves short_paths_def readable_def)

lemma sample_names:
  "map pathname (files_of md5 (sample_dir k)) = [''a'', ''d/e'', ''d/f'']"
  "files_of md5 (locked_dir k) = files_of md5 (sample_dir k)"
  by (simp_all add: files_of_def sample_dir_def locked_dir_def sample_leaves tuple_of_def)

lemma sample_count: "length (files_of md5 (sample_dir k)) = 3"
  using arg_cong [OF sample_names(1), of length] by simp


lemma locked_fails:
  "\<exists>st1. get_file_list (\<lambda>s. replicate 16 0) (opens_dir (locked_dir 0)) (opens_file (locked_dir 0)) ''/home'' (entries (locked_dir 0))
      True no_files = Some (ok (1, st1)) \<and> list_head st1 \<noteq> None"
  by (simp add: get_file_list.simps locked_dir_def sample_files_def reserved_def add_file_def find_version_digits
      append_tuple_def no_files_def Let_def)

theorem retry_repeats_files_witness:
  "\<exists>ts msgs st. ts \<noteq> [] \<and> prefix ts (files_of (\<lambda>s. replicate 16 0) (sample_dir 0)) \<and>
    send_file_list (\<lambda>s. replicate 16 0) locked_dir ''/home'' (\<lambda>k. True) = Some (ok (0, msgs, st)) \<and>
    receive_file_list (LShort OK # msgs) = Some (map Some (ts @ files_of (\<lambda>s. replicate 16 0) (sample_dir 0)))"
proof -
  obtain st1 where st1: "get_file_list (\<lambda>s. replicate 16 0) (opens_dir (locked_dir 0)) (opens_file (locked_dir 0)) ''/home''
      (entries (locked_dir 0)) True no_files = Some (ok (1, st1))" "list_head st1 \<noteq> None"
    using locked_fails by blast
  from retry_repeats_files [where now = locked_dir and w = "\<lambda>k. True", OF st1(1)] sample_listable(2) [of 0]
  obtain ts msgs st where ts: "prefix ts (files_of (\<lambda>s. replicate 16 0) (locked_dir 0))" "holds_list st1 ts"
      "send_file_list (\<lambda>s. replicate 16 0) locked_dir ''/home'' (\<lambda>k. True) = Some (ok (0, msgs, st))"
      "receive_file_list (LShort OK # msgs) = Some (map Some (ts @ files_of (\<lambda>s. replicate 16 0) (locked_dir 1)))"
    by auto
  have "ts \<noteq> []" using holds_list_represents [OF ts(2)] st1(2) by (auto elim: represents_cases)
  moreover have "files_of md5 (locked_dir k) = files_of md5 (sample_dir 0)" for md5 k
    by (simp add: files_of_def sample_dir_def locked_dir_def)
  ultimately show ?thesis using ts(1,3,4) by (intro exI [of _ ts] exI [of _ msgs] exI [of _ st] conjI) simp_all
qed

theorem list_never_sent_witness:
  "send_file_list (\<lambda>s. replicate 16 0) (\<lambda>k. \<lparr> opens_dir = (\<lambda>q. True), opens_file = (\<lambda>q. q \<noteq> ''d/f''), entries = sample_files \<rparr>)
     ''/home'' (\<lambda>k. True) = None"
  by (rule list_never_sent) (simp add: sample_leaves short_paths_def readable_def)

theorem cut_list_leaves_junk_witness:
  "\<exists>msgs st. send_file_list (\<lambda>s. replicate 16 0) sample_dir ''/home'' (\<lambda>k. k < 3) = Some (ok (1, msgs, st)) \<and>
    map_option (map (map_option pathname)) (receive_file_list (LShort OK # msgs)) = Some [Some ''a'', None, None]"
proof -
  obtain msgs st where m: "send_file_list (\<lambda>s. replicate 16 0) sample_dir ''/home'' (\<lambda>k. k < 3) = Some (ok (1, msgs, st))"
      "receive_file_list (LShort OK # msgs) = Some (map Some (take 1 (files_of (\<lambda>s. replicate 16 0) (sample_dir 0))) @ replicate 2 None)"
    using cut_list_leaves_junk [of sample_dir 1 "\<lambda>s. replicate 16 0" "\<lambda>k. k < 3" "''/home''", OF sample_listable(1)]
    by (auto simp: sample_count)
  have "map (map_option pathname) (map Some (take 1 (files_of (\<lambda>s. replicate 16 0) (sample_dir 0))))
      = map Some (take 1 (map pathname (files_of (\<lambda>s. replicate 16 0) (sample_dir 0))))"
    by (simp add: take_map)
  then show ?thesis using m by (intro exI [of _ msgs] exI [of _ st]) (simp add: sample_names numeral_2_eq_2)
qed

end
