(* ===== verification/FetchTree.thy ===== *)
theory FetchTree
  imports FileList Digits
begin

text \<open>
  What a worker of the dropbox client does with an element that names a file
  (SysPro\_Project3/src/dropbox\_client.c, work): the directories it makes on the way to its copy, the
  whole exchange with the other client, and the composition with the list of FileList: all files of
  the other client arrive.  The success of connect, writes and open, the flag after each poll and the
  other client's answer come from outside.
\<close>

section \<open>Where the copies are\<close>

definition octet :: "nat \<Rightarrow> 32 word \<Rightarrow> nat" where
  "octet k ip = unat ip div 256 ^ k mod 256"

text \<open>Addresses and ports are in network order in the memory of a little-endian machine.\<close>

definition inet_ntoa :: "32 word \<Rightarrow> string" where
  "inet_ntoa ip = dec (octet 0 ip) @ ''.'' @ dec (octet 1 ip) @ ''.'' @ dec (octet 2 ip) @ ''.'' @ dec (octet 3 ip)"

definition ntohs :: "nat \<Rightarrow> nat" where
  "ntohs n = (n mod 256) * 256 + n div 256 mod 256"

definition clientName :: "client_tuple \<Rightarrow> string" where
  "clientName c = inet_ntoa (IP_Address c) @ ''@'' @ dec (ntohs (nat (portNum c mod 2 ^ 16)))"

text \<open>The files of this client, directories and files by their path.\<close>

record local_files =
  dirs :: "string set"
  contents :: "string \<Rightarrow> string option"

text \<open>
  mkdir takes one slash at the end, and does nothing when there is something, or nothing to put the
  directory in.
\<close>

definition no_slash :: "string \<Rightarrow> string" where
  "no_slash p = (if p \<noteq> [] \<and> last p = CHR ''/'' then butlast p else p)"

definition mkdir_at :: "string \<Rightarrow> local_files \<Rightarrow> local_files" where
  "mkdir_at p m =
     (if contents m (no_slash p) \<noteq> None \<or> dir_part (no_slash p) \<notin> dirs m then m
      else m\<lparr>dirs := insert (no_slash p) (dirs m)\<rparr>)"

text \<open>
  The loop that cuts the path at its slashes: it makes tree, and goes on behind the next slash.  The
  last name is not made; it is the token in the end.
\<close>

function walk :: "string \<Rightarrow> string \<Rightarrow> local_files \<Rightarrow> local_files \<times> string \<times> string" where
  "walk tree rest m =
     (let m = mkdir_at tree m;
          token = takeWhile (\<lambda>c. c \<noteq> CHR ''/'') rest;
          after = dropWhile (\<lambda>c. c \<noteq> CHR ''/'') rest
      in if after = [] then (m, tree, token)
         else walk (tree @ ''/'' @ token) (drop 1 after) m)"
  by pat_completeness auto
termination
proof (relation "measure (\<lambda>(tree, rest, m). length rest)", simp)
  fix rest after :: string
  assume "after = dropWhile (\<lambda>c. c \<noteq> CHR ''/'') rest" "after \<noteq> []"
  then have "length (drop 1 after) < length after" "length after \<le> length rest"
    by (simp_all add: length_dropWhile_le)
  then show "((tree', drop 1 after, m'), tree, rest, m) \<in> measure (\<lambda>(tree, rest, m). length rest)" for tree' m' tree m
    by simp
qed

declare walk.simps [simp del]

definition path_buf :: "string \<Rightarrow> client_tuple \<Rightarrow> string" where
  "path_buf dir_path c = dir_path @ ''/__RSRVD/'' @ clientName c @ ''/''"

text \<open>The target, None when the element is a directory and there is nothing to fetch.\<close>

definition prepare :: "string \<Rightarrow> element_t \<Rightarrow> local_files \<Rightarrow> local_files \<times> string option" where
  "prepare dir_path elem m =
     (let path_buf = path_buf dir_path (c_tuple elem);
          m = mkdir_at path_buf m;
          p = pathname (f_tuple elem);
          target = path_buf @ p;
          token = takeWhile (\<lambda>c. c \<noteq> CHR ''/'') p
      in if strcmp token p \<noteq> 0 then
           (case walk (path_buf @ token) (drop (length token + 1) p) m of (m, tree, token) \<Rightarrow>
              if strcmp (version (f_tuple elem)) ''DIR'' = 0 then (mkdir_at (tree @ ''/'' @ token) m, None)
              else (m, Some target))
         else if strcmp (version (f_tuple elem)) ''DIR'' = 0 then (mkdir_at target m, None)
         else (m, Some target))"

section \<open>The exchange\<close>

datatype after = Continue | Break

record exchange_env =
  connects :: bool
  term_at :: "nat \<Rightarrow> bool"
  write_works :: "nat \<Rightarrow> bool"
  first_msg :: "int option"
  answer_to :: "file_tuple \<Rightarrow> wire list option"
  target_opens :: bool

text \<open>
  The answer is None when the other client never sends one.  A read that gives nothing where the
  message OK is expected ends the thread; all other failures end this element only.  open creates
  the target if its directory is there.
\<close>

definition fetch_target ::
    "(string \<Rightarrow> nat list) \<Rightarrow> exchange_env \<Rightarrow> (nat \<Rightarrow> nat) \<Rightarrow> string \<Rightarrow> file_tuple \<Rightarrow> string \<Rightarrow> local_files \<Rightarrow> (after \<times> local_files) option" where
  "fetch_target md5 e r junk ft target m =
     (case get_version md5 (if target \<in> dirs m then Some Directory else map_option Regular (contents m target)) of
        None \<Rightarrow> None
      | Some get_vers \<Rightarrow>
          if \<not> connects e then Some (Continue, m)
          else if term_at e 0 then Some (Break, m)
          else if \<not> write_works e 0 then Some (Continue, m)
          else if \<not> write_works e 1 then Some (Continue, m)
          else if term_at e 1 then Some (Break, m)
          else
            (case first_msg e of
               None \<Rightarrow> Some (Break, m)
             | Some msg \<Rightarrow>
                 if msg \<noteq> OK then Some (Continue, m)
                 else if term_at e 2 then Some (Break, m)
                 else if \<not> write_works e 2 then Some (Continue, m)
                 else if term_at e 3 then Some (Break, m)
                 else
                   (case answer_to e (ft\<lparr>version := (case get_vers of None \<Rightarrow> [] | Some v \<Rightarrow> v)\<rparr>) of
                      None \<Rightarrow> None
                    | Some answer \<Rightarrow>
                        if target \<in> dirs m \<or> dir_part target \<notin> dirs m \<or> \<not> target_opens e then Some (Continue, m)
                        else map_option (\<lambda>f. (Continue, m\<lparr>contents := (contents m)(target := f)\<rparr>))
                               (receive_file r junk answer (contents m target)))))"

definition work_on ::
    "(string \<Rightarrow> nat list) \<Rightarrow> exchange_env \<Rightarrow> (nat \<Rightarrow> nat) \<Rightarrow> string \<Rightarrow> string \<Rightarrow> element_t \<Rightarrow> local_files \<Rightarrow> (after \<times> local_files) option" where
  "work_on md5 e r junk dir_path elem m =
     (case prepare dir_path elem m of
        (m, None) \<Rightarrow> Some (Continue, m)
      | (m, Some target) \<Rightarrow> fetch_target md5 e r junk (f_tuple elem) target m)"

fun work_all ::
    "(string \<Rightarrow> nat list) \<Rightarrow> exchange_env \<Rightarrow> (nat \<Rightarrow> nat) \<Rightarrow> string \<Rightarrow> string \<Rightarrow> element_t list \<Rightarrow> local_files \<Rightarrow> (after \<times> local_files) option" where
  "work_all md5 e r junk dir_path [] m = Some (Continue, m)"
| "work_all md5 e r junk dir_path (elem # elems) m =
     Option.bind (work_on md5 e r junk dir_path elem m) (\<lambda>(a, m).
       if a = Break then Some (Break, m) else work_all md5 e r junk dir_path elems m)"

section \<open>The directories on the way\<close>

definition base :: "string \<Rightarrow> client_tuple \<Rightarrow> string" where
  "base dir_path c = dir_path @ ''/__RSRVD/'' @ clientName c"

definition inside :: "string \<Rightarrow> string \<Rightarrow> string" where
  "inside b p = b @ ''/'' @ p"

lemma path_buf_base: "path_buf dir_path c = base dir_path c @ ''/''" "path_buf dir_path c @ p = inside (base dir_path c) p"
  by (simp_all add: path_buf_def base_def inside_def)

lemma inside_inj [simp]: "inside b p = inside b q \<longleftrightarrow> p = q"
  by (simp add: inside_def)

lemma dir_part_inside: "CHR ''/'' \<notin> set n \<Longrightarrow> dir_part (b @ ''/'' @ n) = b"
  using span_slash(4) [of "rev n" "rev b"] by (simp add: dir_part_def)

lemma inside_snoc: "ns \<noteq> [] \<Longrightarrow> inside b (join (ns @ [n])) = inside b (join ns) @ ''/'' @ n"
  by (simp add: inside_def join_snoc append_to_rel_path_def)

lemma dir_part_join_inside:
  assumes "path_ok (ns @ [n])"
  shows "dir_part (inside b (join (ns @ [n]))) = (if ns = [] then b else inside b (join ns))"
  using assms dir_part_inside [of n "inside b (join ns)"] dir_part_inside [of n b]
  by (cases "ns = []") (simp_all add: inside_snoc entry_name_def, simp add: inside_def)

lemma no_slash_join: "path_ok ns \<Longrightarrow> no_slash (inside b (join ns)) = inside b (join ns)"
  using join_last [of ns] by (auto simp: no_slash_def inside_def)

lemma mkdir_at_makes:
  assumes "contents m (no_slash p) = None" "dir_part (no_slash p) \<in> dirs m"
  shows "mkdir_at p m = m\<lparr>dirs := insert (no_slash p) (dirs m)\<rparr>"
  using assms by (simp add: mkdir_at_def)

lemma slash_split:
  assumes "CHR ''/'' \<notin> set n"
  shows "takeWhile (\<lambda>c. c \<noteq> CHR ''/'') (n @ ''/'' @ r) = n" "dropWhile (\<lambda>c. c \<noteq> CHR ''/'') (n @ ''/'' @ r) = ''/'' @ r"
  using span_slash(3,4) [OF assms, of r] by simp_all

lemma walk_last: "CHR ''/'' \<notin> set n \<Longrightarrow> walk tree n m = (mkdir_at tree m, tree, n)"
  using span_slash(1,2) [of n] by (subst walk.simps) simp

lemma walk_slash: "CHR ''/'' \<notin> set n \<Longrightarrow> walk tree (n @ ''/'' @ r) m = walk (tree @ ''/'' @ n) r (mkdir_at tree m)"
  using slash_split [of n r] by (subst walk.simps) (simp add: Let_def)

text \<open>The prefixes of a path that the walk makes.\<close>

definition made_from :: "string \<Rightarrow> string list \<Rightarrow> string list \<Rightarrow> string set" where
  "made_from b ms ns = (\<lambda>k. inside b (join (ms @ take k ns))) ` {..< length ns}"

lemma made_from_Cons: "ns \<noteq> [] \<Longrightarrow> made_from b ms (n # ns) = insert (inside b (join ms)) (made_from b (ms @ [n]) ns)"
proof -
  have "{..< Suc k} = insert 0 (Suc ` {..< k})" for k by (auto simp: lessThan_Suc_eq_insert_0)
  then show ?thesis by (simp add: made_from_def image_image)
qed

lemma walk_join:
  assumes "path_ok (ms @ ns)" "ms \<noteq> []" "ns \<noteq> []"
    and "dir_part (inside b (join ms)) \<in> dirs m" "\<forall>d \<in> made_from b ms ns. contents m d = None"
  shows "walk (inside b (join ms)) (join ns) m
    = (m\<lparr>dirs := dirs m \<union> made_from b ms ns\<rparr>, inside b (join (ms @ butlast ns)), last ns)"
  using assms
proof (induction ns arbitrary: ms m)
  case (Cons n ns)
  have n: "CHR ''/'' \<notin> set n" using Cons.prems(1) by (simp add: entry_name_def)
  have "path_ok ms" using Cons.prems(1,2) by auto
  then have ms: "no_slash (inside b (join ms)) = inside b (join ms)" by (rule no_slash_join)
  have "inside b (join ms) \<in> made_from b ms (n # ns)" by (auto simp: made_from_def intro!: image_eqI [of _ _ 0])
  then have mk: "mkdir_at (inside b (join ms)) m = m\<lparr>dirs := insert (inside b (join ms)) (dirs m)\<rparr>"
    using mkdir_at_makes [of m "inside b (join ms)"] Cons.prems(4,5) ms by simp
  show ?case
  proof (cases "ns = []")
    case True
    then show ?thesis using walk_last [OF n] mk by (simp add: made_from_def lessThan_Suc)
  next
    case False
    let ?m = "m\<lparr>dirs := insert (inside b (join ms)) (dirs m)\<rparr>"
    have "walk (inside b (join ms)) (join (n # ns)) m = walk (inside b (join (ms @ [n]))) (join ns) ?m"
      using walk_slash [OF n, of "inside b (join ms)" "join ns" m] Cons.prems(2) mk
      by (simp add: join_Cons [OF False] inside_snoc)
    also have "\<dots> = (?m\<lparr>dirs := dirs ?m \<union> made_from b (ms @ [n]) ns\<rparr>, inside b (join ((ms @ [n]) @ butlast ns)), last ns)"
    proof (rule Cons.IH)
      show "path_ok ((ms @ [n]) @ ns)" using Cons.prems(1) by auto
      show "dir_part (inside b (join (ms @ [n]))) \<in> dirs ?m"
        using dir_part_join_inside [of ms n b] Cons.prems(1,2) by auto
      show "\<forall>d \<in> made_from b (ms @ [n]) ns. contents ?m d = None"
        using Cons.prems(5) made_from_Cons [OF False] by auto
    qed (use False in auto)
    finally show ?thesis using False made_from_Cons [OF False, of b ms n] by simp
  qed
qed simp

text \<open>The directories the worker makes for one leaf.\<close>

definition leaf_element :: "(string \<Rightarrow> nat list) \<Rightarrow> client_tuple \<Rightarrow> string list \<times> string option \<Rightarrow> element_t" where
  "leaf_element md5 c l = \<lparr> f_tuple = tuple_of md5 l, c_tuple = c \<rparr>"

lemma tuple_is_dir: "version (tuple_of md5 l) = ''DIR'' \<longleftrightarrow> snd l = None"
proof (cases "snd l")
  case (Some c)
  have "length (concat (replicate k (hex2 n))) = 2 * k" for k n by (induction k) (simp_all add: hex2_def)
  then have "length (version (tuple_of md5 l)) = 32"
    using Some by (simp add: tuple_of_def find_version_digits del: replicate_Suc)
  then have "version (tuple_of md5 l) \<noteq> ''DIR''" by auto
  with Some show ?thesis by simp
qed (simp add: tuple_of_def)

lemma clientName_plain: "CHR ''/'' \<notin> set (clientName c)"
proof -
  have "CHR ''/'' \<notin> set (dec n)" for n using dec_digits [of "CHR ''/''" n] by (auto simp: is_digit_def char_code_def)
  then show ?thesis by (simp add: clientName_def inet_ntoa_def)
qed

lemma dir_part_base: "dir_part (base dir_path c) = dir_path @ ''/__RSRVD''"
  using dir_part_inside [OF clientName_plain, of "dir_path @ ''/__RSRVD''" c] by (simp add: base_def)

lemma made_from_take: "made_from b [n] ns = inside b ` (\<lambda>k. join (take k (n # ns))) ` {1..length ns}"
proof -
  have "{1..k} = Suc ` {..< k}" for k by (simp add: lessThan_atLeast0 atLeastLessThanSuc_atLeastAtMost)
  then show ?thesis by (simp add: made_from_def image_image)
qed

lemma leaf_dirs_Cons:
  "inside b ` leaf_dirs (n # ns, x)
    = (if x = None then insert (inside b (join (n # ns))) (made_from b [n] ns) else made_from b [n] ns)"
  by (simp add: made_from_take leaf_dirs_def levels_def atLeastAtMostSuc_conv)

lemma prepare_inside:
  "prepare dir_path elem m =
     (let b = base dir_path (c_tuple elem); m = mkdir_at (b @ ''/'') m; p = pathname (f_tuple elem);
          token = takeWhile (\<lambda>c. c \<noteq> CHR ''/'') p
      in if token \<noteq> p then
           (case walk (inside b token) (drop (length token + 1) p) m of (m, tree, token) \<Rightarrow>
              if version (f_tuple elem) = ''DIR'' then (mkdir_at (tree @ ''/'' @ token) m, None)
              else (m, Some (inside b p)))
         else if version (f_tuple elem) = ''DIR'' then (mkdir_at (inside b p) m, None)
         else (m, Some (inside b p)))"
  by (simp add: prepare_def path_buf_base(1) inside_def Let_def)

lemma prepare_leaf:
  assumes "path_ok (fst l)" "dir_path @ ''/__RSRVD'' \<in> dirs m"
    and "contents m (base dir_path c) = None" "\<forall>d \<in> leaf_dirs l. contents m (inside (base dir_path c) d) = None"
  shows "prepare dir_path (leaf_element md5 c l) m
    = (m\<lparr>dirs := insert (base dir_path c) (dirs m) \<union> inside (base dir_path c) ` leaf_dirs l\<rparr>,
       if snd l = None then None else Some (inside (base dir_path c) (join (fst l))))"
proof -
  define b where "b = base dir_path c"
  define m1 where "m1 = m\<lparr>dirs := insert b (dirs m)\<rparr>"
  obtain n ns x where l: "l = (n # ns, x)" using assms(1) by (cases l; cases "fst l") auto
  have n: "CHR ''/'' \<notin> set n" "path_ok (n # ns)" using assms(1) l by (simp_all add: entry_name_def)
  have "no_slash (b @ ''/'') = b" by (simp add: no_slash_def)
  then have m1: "mkdir_at (b @ ''/'') m = m1"
    using mkdir_at_makes [of m "b @ ''/''"] assms(2,3) by (simp add: b_def m1_def dir_part_base)
  have none: "contents m1 d = None" if "d \<in> inside b ` leaf_dirs (n # ns, x)" for d
    using assms(4) that by (auto simp: l m1_def b_def)
  have free: "contents m1 (inside b (join (n # ns))) = None" if "x = None"
    using that leaf_dirs_Cons [of b n ns x] by (intro none) simp
  have walked: "\<forall>d \<in> made_from b [n] ns. contents m1 d = None"
    using leaf_dirs_Cons [of b n ns x] by (intro ballI none) simp
  have p: "pathname (f_tuple (leaf_element md5 c l)) = join (n # ns)" "c_tuple (leaf_element md5 c l) = c"
      "version (f_tuple (leaf_element md5 c l)) = ''DIR'' \<longleftrightarrow> x = None"
    using tuple_is_dir [of md5 l] by (simp_all add: leaf_element_def tuple_of_def l)
  show ?thesis
  proof (cases "ns = []")
    case True
    have tok: "takeWhile (\<lambda>c. c \<noteq> CHR ''/'') n = n" using span_slash(1) [OF n(1)] .
    have "mkdir_at (inside b n) m1 = m1\<lparr>dirs := insert (inside b n) (dirs m1)\<rparr>" if "x = None"
      using mkdir_at_makes [of m1 "inside b n"] no_slash_join [of "[n]" b] dir_part_join_inside [of "[]" n b] free n(2) that True
      by (simp add: m1_def)
    moreover have "prepare dir_path (leaf_element md5 c l) m
        = (if x = None then (mkdir_at (inside b n) m1, None) else (m1, Some (inside b n)))"
      using True tok p m1 n(1) by (simp add: prepare_inside b_def [symmetric] Let_def)
    ultimately show ?thesis using leaf_dirs_Cons [of b n ns x] True
      by (cases x) (simp_all add: b_def [symmetric] l m1_def made_from_def insert_commute)
  next
    case False
    have j: "join (n # ns) = n @ ''/'' @ join ns" using join_Cons [OF False] .
    have tok: "takeWhile (\<lambda>c. c \<noteq> CHR ''/'') (join (n # ns)) = n" "n \<noteq> join (n # ns)" "drop (length n + 1) (join (n # ns)) = join ns"
      using slash_split(1) [OF n(1), of "join ns"] by (simp_all add: j)
    have w: "walk (inside b n) (join ns) m1 = (m1\<lparr>dirs := dirs m1 \<union> made_from b [n] ns\<rparr>, inside b (join (n # butlast ns)), last ns)"
      using walk_join [of "[n]" ns b m1] n(2) False walked dir_part_join_inside [of "[]" n b] by (simp add: m1_def)
    have split: "n # ns = (n # butlast ns) @ [last ns]" using False by simp
    have tree: "inside b (join (n # butlast ns)) @ ''/'' @ last ns = inside b (join (n # ns))"
      using inside_snoc [of "n # butlast ns" b "last ns"] False by simp
    have up: "inside b (join (n # butlast ns)) \<in> made_from b [n] ns"
      using False by (auto simp: made_from_def butlast_conv_take intro!: image_eqI [of _ _ "length ns - 1"])
    have "mkdir_at (inside b (join (n # ns))) (m1\<lparr>dirs := dirs m1 \<union> made_from b [n] ns\<rparr>)
        = m1\<lparr>dirs := insert (inside b (join (n # ns))) (dirs m1 \<union> made_from b [n] ns)\<rparr>" if "x = None"
      using mkdir_at_makes [of "m1\<lparr>dirs := dirs m1 \<union> made_from b [n] ns\<rparr>" "inside b (join (n # ns))"]
        no_slash_join [OF n(2), of b] dir_part_join_inside [of "n # butlast ns" "last ns" b] split n(2) free [OF that] up
      by simp
    moreover have "prepare dir_path (leaf_element md5 c l) m
        = (if x = None then (mkdir_at (inside b (join (n # ns))) (m1\<lparr>dirs := dirs m1 \<union> made_from b [n] ns\<rparr>), None)
           else (m1\<lparr>dirs := dirs m1 \<union> made_from b [n] ns\<rparr>, Some (inside b (join (n # ns)))))"
      unfolding prepare_inside p(1,2) b_def [symmetric] m1 Let_def tok(1,3) using tok(2) p(3) w tree by simp
    ultimately show ?thesis using leaf_dirs_Cons [of b n ns x]
      by (cases x) (simp_all add: b_def [symmetric] l m1_def)
  qed
qed

section \<open>One element\<close>

text \<open>The files of the other client as its open sees them.\<close>

definition remote :: "(string \<times> node) list \<Rightarrow> string \<Rightarrow> fnode option" where
  "remote es p = (case at_path (Dir es) (path_tokens p) of
     None \<Rightarrow> None | Some (File c) \<Rightarrow> Some (Regular c) | Some (Dir ds) \<Rightarrow> Some Directory)"

definition undisturbed :: "(string \<Rightarrow> nat list) \<Rightarrow> (string \<Rightarrow> fnode option) \<Rightarrow> string \<Rightarrow> exchange_env \<Rightarrow> bool" where
  "undisturbed md5 fs junk e \<longleftrightarrow> connects e \<and> (\<forall>k. \<not> term_at e k) \<and> (\<forall>k. write_works e k) \<and> first_msg e = Some OK \<and> target_opens e \<and>
     answer_to e = (\<lambda>ft. map_option snd (send_file md5 fs (\<lambda>k. True) (\<lambda>k. True) False (\<lambda>k. False) junk (Some ft)))"

lemma fetch_target_undisturbed:
  assumes "undisturbed md5 fs junk1 e" "target \<notin> dirs m" "dir_part target \<in> dirs m"
  shows "fetch_target md5 e r junk2 ft target m
    = map_option (\<lambda>f. (Continue, m\<lparr>contents := (contents m)(target := f)\<rparr>)) (fetch md5 fs r junk1 junk2 (pathname ft) (contents m target))"
proof -
  have req: "ft\<lparr>version := v\<rparr> = \<lparr> pathname = pathname ft, version = v \<rparr>" for v by simp
  show ?thesis using assms unfolding fetch_target_def fetch_def undisturbed_def req
    by (auto split: option.splits prod.splits)
qed

lemma shown_map_of: "map_of (shown_entries es) n = (if reserved n then None else map_option shown (map_of es n))"
  by (induction es) auto

lemma shown_file: "at_path (shown t) ns = Some (File c) \<Longrightarrow> at_path t ns = Some (File c)"
proof (induction ns arbitrary: t)
  case Nil
  then show ?case by (cases t) (simp_all add: shown_Dir)
next
  case (Cons n ns)
  show ?case
  proof (cases t)
    case (File d)
    with Cons.prems show ?thesis by simp
  next
    case (Dir es)
    then obtain t' where t': "map_of es n = Some t'" "at_path (shown t') ns = Some (File c)"
      using Cons.prems by (auto simp: shown_Dir shown_map_of split: option.splits if_splits)
    from Cons.IH [OF this(2)] t'(1) Dir show ?thesis by simp
  qed
qed

lemma shown_ok: "node_ok t \<Longrightarrow> node_ok (shown t)"
proof (induction t)
  case (Dir es)
  have "node_ok (shown t)" "entry_name n" if "(n, t) \<in> set es" for n t
    using Dir.IH [OF that, of t] Dir.prems that by (auto simp: snds.simps)
  moreover have "map fst (shown_entries es) = filter (\<lambda>n. \<not> reserved n) (map fst es)"
    by (induction es) auto
  ultimately show ?case using Dir.prems by (auto simp: shown_Dir shown_entries_def)
qed simp

text \<open>The leaves of the tree of the other client, as far as it is shown.\<close>

definition tree_leaves :: "(string \<times> node) list \<Rightarrow> (string list \<times> string option) set" where
  "tree_leaves es = set (top_leaves (shown_entries es))"

lemma tree_leaf:
  assumes "node_ok (Dir es)" "l \<in> tree_leaves es"
  shows "path_ok (fst l)" "l \<in> set (leaves_of [] (shown (Dir es)))"
proof -
  have ne: "shown_entries es \<noteq> []" using assms(2) by (auto simp: tree_leaves_def top_leaves_def)
  then show l: "l \<in> set (leaves_of [] (shown (Dir es)))"
    using assms(2) top_leaves_eq [OF ne] by (simp add: tree_leaves_def shown_Dir)
  note ok = shown_ok [OF assms(1)]
  have "fst l \<noteq> []" using leaf_of_dir [OF ne, of "fst l" "snd l"] l ok by (auto simp: shown_Dir)
  moreover have "\<forall>n \<in> set (fst l). entry_name n" using leaf_names [OF ok, of "fst l" "snd l"] l by auto
  ultimately show "path_ok (fst l)" by blast
qed

lemma file_or_dir:
  assumes "node_ok (Dir es)" "(ns, Some c) \<in> tree_leaves es" "l \<in> tree_leaves es" "d \<in> leaf_dirs l"
  shows "join ns \<noteq> d"
proof
  assume eq: "join ns = d"
  note ok = shown_ok [OF assms(1)]
  have "fst l \<noteq> []" using tree_leaf(1) [OF assms(1,3)] by blast
  then obtain ms where ms: "d = join ms" "ms \<noteq> []" "on_way ms l" using assms(4) leaf_dirs_on_way [of l] by auto
  then obtain k where "fst l = ms @ k" by (auto simp: on_way_def prefix_def)
  then have "path_ok ms" using ms(2) tree_leaf(1) [OF assms(1,3)] by auto
  moreover have "path_ok ns" using tree_leaf(1) [OF assms(1,2)] by simp
  ultimately have "ns = ms" using eq ms(1) join_inj by blast
  moreover have "at_path (shown (Dir es)) ns = Some (File c)"
    using file_leaves [OF ok, of ns c] tree_leaf(2) [OF assms(1,2)] by simp
  moreover have "\<exists>ds. at_path (shown (Dir es)) ms = Some (Dir ds)"
    using dir_leaves [OF ok, of ms] tree_leaf(2) [OF assms(1,3)] ms(3) by blast
  ultimately show False by simp
qed

lemma same_file:
  assumes "node_ok (Dir es)" "(ns, Some c) \<in> tree_leaves es" "(ms, Some d) \<in> tree_leaves es" "join ns = join ms"
  shows "ns = ms \<and> c = d"
proof -
  have "path_ok ns" "path_ok ms" using tree_leaf(1) [OF assms(1)] assms(2,3) by fastforce+
  then have "ns = ms" using assms(4) join_inj by blast
  then show ?thesis
    using file_leaves [OF shown_ok [OF assms(1)]] tree_leaf(2) [OF assms(1,2)] tree_leaf(2) [OF assms(1,3)] by fastforce
qed

lemma remote_file: "node_ok (Dir es) \<Longrightarrow> (ns, Some c) \<in> tree_leaves es \<Longrightarrow> remote es (join ns) = Some (Regular c)"
proof -
  assume ok: "node_ok (Dir es)" and l: "(ns, Some c) \<in> tree_leaves es"
  have "path_tokens (join ns) = ns" using path_tokens_join tree_leaf(1) [OF ok l] by simp
  moreover have "at_path (Dir es) ns = Some (File c)"
    using file_leaves [OF shown_ok [OF ok], of ns c] tree_leaf(2) [OF ok l] shown_file by blast
  ultimately show ?thesis by (simp add: remote_def)
qed

section \<open>All of them\<close>

text \<open>What has been copied below b when the leaves in done have been worked on.\<close>

definition copied :: "string \<Rightarrow> (string list \<times> string option) set \<Rightarrow> local_files \<Rightarrow> local_files \<Rightarrow> bool" where
  "copied b ready m0 m \<longleftrightarrow>
     dirs m = dirs m0 \<union> (if ready = {} then {} else {b}) \<union> inside b ` (\<Union>l \<in> ready. leaf_dirs l) \<and>
     (\<forall>ns c. (ns, Some c) \<in> ready \<longrightarrow> contents m (inside b (join ns)) = Some c) \<and>
     (\<forall>p. (\<forall>ns c. (ns, Some c) \<in> ready \<longrightarrow> p \<noteq> inside b (join ns)) \<longrightarrow> contents m p = contents m0 p)"

definition untouched :: "string \<Rightarrow> local_files \<Rightarrow> bool" where
  "untouched b m \<longleftrightarrow> contents m b = None \<and> (\<forall>p. inside b p \<notin> dirs m \<and> contents m (inside b p) = None)"

lemma copied_start: "copied b {} m m"
  by (simp add: copied_def)

lemma inside_neq [simp]: "b \<noteq> inside b p" "inside b p \<noteq> b"
  by (simp_all add: inside_def)

lemma copied_free:
  assumes "node_ok (Dir es)" "ready \<subseteq> tree_leaves es" "copied b ready m0 m" "untouched b m0"
  shows "contents m b = None" "l \<in> tree_leaves es \<Longrightarrow> d \<in> leaf_dirs l \<Longrightarrow> contents m (inside b d) = None"
    "(ns, Some c) \<in> tree_leaves es \<Longrightarrow> inside b (join ns) \<notin> dirs m \<and> contents m (inside b (join ns)) \<in> {None, Some c}"
proof -
  have old: "contents m p = contents m0 p" if "\<forall>ns c. (ns, Some c) \<in> ready \<longrightarrow> p \<noteq> inside b (join ns)" for p
    using assms(3) that by (simp add: copied_def)
  show "contents m b = None" using old [of b] assms(4) by (simp add: untouched_def)
  show "contents m (inside b d) = None" if "l \<in> tree_leaves es" "d \<in> leaf_dirs l"
  proof -
    have "\<forall>ns c. (ns, Some c) \<in> ready \<longrightarrow> inside b d \<noteq> inside b (join ns)"
      using file_or_dir [OF assms(1) _ that] assms(2) by (simp only: inside_inj) blast
    then show ?thesis using old [of "inside b d"] assms(4) by (simp add: untouched_def)
  qed
  show "inside b (join ns) \<notin> dirs m \<and> contents m (inside b (join ns)) \<in> {None, Some c}" if l: "(ns, Some c) \<in> tree_leaves es"
  proof
    have "join ns \<notin> leaf_dirs l" if "l \<in> ready" for l using file_or_dir [OF assms(1) l] that assms(2) by blast
    then show "inside b (join ns) \<notin> dirs m" using assms(3,4) by (auto simp: copied_def untouched_def)
    show "contents m (inside b (join ns)) \<in> {None, Some c}"
    proof (cases "(ns, Some c) \<in> ready")
      case True
      then show ?thesis using assms(3) by (simp add: copied_def)
    next
      case False
      have "\<forall>ms d. (ms, Some d) \<in> ready \<longrightarrow> inside b (join ns) \<noteq> inside b (join ms)"
        using same_file [OF assms(1) l] False assms(2) by (simp only: inside_inj) blast
      then show ?thesis using old [of "inside b (join ns)"] assms(4) by (simp add: untouched_def)
    qed
  qed
qed

lemma file_parent:
  assumes "path_ok ns"
  shows "dir_part (inside b (join ns)) \<in> insert b (inside b ` leaf_dirs (ns, Some c))"
proof -
  obtain ms n where ns: "ns = ms @ [n]" using assms by (cases ns rule: rev_cases) auto
  have "join ms \<in> leaf_dirs (ns, Some c)" if "ms \<noteq> []"
    using leaf_dirs_on_way [of "(ns, Some c)"] ns that by (auto simp: on_way_def)
  then show ?thesis using dir_part_join_inside [of ms n b] assms ns by auto
qed

lemma copied_more:
  assumes "copied b ready m0 m" "snd l = None"
  shows "copied b (insert l ready) m0 (m\<lparr>dirs := insert b (dirs m) \<union> inside b ` leaf_dirs l\<rparr>)"
  using assms by (cases l) (auto simp: copied_def)

lemma copied_file:
  assumes "node_ok (Dir es)" "ready \<subseteq> tree_leaves es" "(ns, Some c) \<in> tree_leaves es" "copied b ready m0 m"
  shows "copied b (insert (ns, Some c) ready) m0
    (m\<lparr>dirs := insert b (dirs m) \<union> inside b ` leaf_dirs (ns, Some c),
       contents := (contents m)(inside b (join ns) := Some c)\<rparr>)"
proof -
  define m' where "m' = m\<lparr>dirs := insert b (dirs m) \<union> inside b ` leaf_dirs (ns, Some c),
       contents := (contents m)(inside b (join ns) := Some c)\<rparr>"
  have same: "d = c" if "(ms, Some d) \<in> ready" "join ms = join ns" for ms d
    using same_file [OF assms(1,3), of ms d] that assms(2) by auto
  have "dirs m' = dirs m0 \<union> {b} \<union> inside b ` (\<Union>l \<in> insert (ns, Some c) ready. leaf_dirs l)"
    using assms(4) by (auto simp: copied_def m'_def)
  moreover have "contents m' (inside b (join ms)) = Some d" if "(ms, Some d) \<in> insert (ns, Some c) ready" for ms d
    using assms(4) that same by (auto simp: copied_def m'_def)
  moreover have "contents m' p = contents m0 p"
    if "\<forall>ms d. (ms, Some d) \<in> insert (ns, Some c) ready \<longrightarrow> p \<noteq> inside b (join ms)" for p
  proof -
    have "p \<noteq> inside b (join ns)" using that by blast
    moreover have "contents m p = contents m0 p" using assms(4) that unfolding copied_def by blast
    ultimately show ?thesis by (simp add: m'_def)
  qed
  ultimately show ?thesis unfolding copied_def m'_def [symmetric] by auto
qed

lemma work_on_leaf:
  assumes "node_ok (Dir es)" "undisturbed md5 (remote es) junk1 e"
    and "\<forall>c. md5 c ! 0 < 256" "\<forall>k. 128 \<le> r k" "length junk1 \<ge> 128" "length junk2 \<ge> 128"
    and "dir_path @ ''/__RSRVD'' \<in> dirs m0" "untouched (base dir_path c) m0"
    and "ready \<subseteq> tree_leaves es" "l \<in> tree_leaves es" "copied (base dir_path c) ready m0 m"
  shows "\<exists>m'. work_on md5 e r junk2 dir_path (leaf_element md5 c l) m = Some (Continue, m') \<and> copied (base dir_path c) (insert l ready) m0 m'"
proof -
  define b where "b = base dir_path c"
  note free = copied_free [OF assms(1,9,11,8)]
  have root: "dir_path @ ''/__RSRVD'' \<in> dirs m" using assms(7,11) by (auto simp: copied_def)
  define m1 where "m1 = m\<lparr>dirs := insert b (dirs m) \<union> inside b ` leaf_dirs l\<rparr>"
  have prep: "prepare dir_path (leaf_element md5 c l) m = (m1, if snd l = None then None else Some (inside b (join (fst l))))"
    using prepare_leaf [OF tree_leaf(1) [OF assms(1,10)] root free(1)] free(2) [OF assms(10)] by (simp add: m1_def b_def)
  show ?thesis
  proof (cases "snd l")
    case None
    then have "work_on md5 e r junk2 dir_path (leaf_element md5 c l) m = Some (Continue, m1)" using prep by (simp add: work_on_def)
    then show ?thesis using copied_more [OF assms(11) None] by (simp add: m1_def b_def)
  next
    case (Some x)
    then obtain ns where l: "l = (ns, Some x)" by (cases l) simp
    let ?p = "inside b (join ns)"
    have in_tree: "(ns, Some x) \<in> tree_leaves es" using assms(10) l by simp
    have ns: "path_ok ns" using tree_leaf(1) [OF assms(1) in_tree] by simp
    have "?p \<notin> dirs m1" using free(3) [OF in_tree] file_or_dir [OF assms(1) in_tree in_tree] l by (auto simp: m1_def b_def)
    moreover have "dir_part ?p \<in> dirs m1" using file_parent [OF ns, of b x] l by (auto simp: m1_def)
    ultimately have "fetch_target md5 e r junk2 (tuple_of md5 l) ?p m1
        = map_option (\<lambda>f. (Continue, m1\<lparr>contents := (contents m1)(?p := f)\<rparr>)) (fetch md5 (remote es) r junk1 junk2 (join ns) (contents m1 ?p))"
      using fetch_target_undisturbed [OF assms(2), of ?p m1 r junk2 "tuple_of md5 l"] l by (simp add: tuple_of_def)
    also have "fetch md5 (remote es) r junk1 junk2 (join ns) (contents m1 ?p) = Some (Some x)"
      using fetch_result [of md5 r junk1 junk2 "remote es" "join ns" "contents m1 ?p", OF _ _ assms(5,6)]
        assms(3,4) remote_file [OF assms(1) in_tree] free(3) [OF in_tree] by (auto simp: m1_def b_def)
    finally have "work_on md5 e r junk2 dir_path (leaf_element md5 c l) m = Some (Continue, m1\<lparr>contents := (contents m1)(?p := Some x)\<rparr>)"
      using prep l by (simp add: work_on_def leaf_element_def fun_upd_def)
    then show ?thesis using copied_file [OF assms(1,9) in_tree assms(11)] l by (simp add: m1_def b_def)
  qed
qed

lemma work_all_leaves:
  assumes "node_ok (Dir es)" "undisturbed md5 (remote es) junk1 e"
    and "\<forall>c. md5 c ! 0 < 256" "\<forall>k. 128 \<le> r k" "length junk1 \<ge> 128" "length junk2 \<ge> 128"
    and "dir_path @ ''/__RSRVD'' \<in> dirs m0" "untouched (base dir_path c) m0"
    and "ready \<subseteq> tree_leaves es" "set ls \<subseteq> tree_leaves es" "copied (base dir_path c) ready m0 m"
  shows "\<exists>m'. work_all md5 e r junk2 dir_path (map (leaf_element md5 c) ls) m = Some (Continue, m') \<and>
    copied (base dir_path c) (set ls \<union> ready) m0 m'"
  using assms(9-)
proof (induction ls arbitrary: m ready)
  case (Cons l ls)
  have "l \<in> tree_leaves es" "set ls \<subseteq> tree_leaves es" using Cons.prems(2) by auto
  from work_on_leaf [OF assms(1-8) Cons.prems(1) this(1) Cons.prems(3)]
  obtain m1 where m1: "work_on md5 e r junk2 dir_path (leaf_element md5 c l) m = Some (Continue, m1)"
      "copied (base dir_path c) (insert l ready) m0 m1" by blast
  from Cons.IH [OF _ \<open>set ls \<subseteq> tree_leaves es\<close> m1(2)] Cons.prems(1) \<open>l \<in> tree_leaves es\<close>
  obtain m' where "work_all md5 e r junk2 dir_path (map (leaf_element md5 c) ls) m1 = Some (Continue, m')"
      "copied (base dir_path c) (set ls \<union> insert l ready) m0 m'" by auto
  with m1(1) show ?case by simp
qed simp

lemma tree_leaves_eq: "shown_entries es \<noteq> [] \<Longrightarrow> tree_leaves es = set (leaves_of [] (shown (Dir es)))"
  by (simp add: tree_leaves_def top_leaves_eq shown_Dir)

lemma at_path_empty: "ns \<noteq> [] \<Longrightarrow> at_path (Dir []) ns = None"
  by (cases ns) simp_all

lemma copied_whole:
  assumes "node_ok (Dir es)" "copied b (tree_leaves es) m0 m" "untouched b m0" "path_ok ns"
  shows "contents m (inside b (join ns)) = (case at_path (shown (Dir es)) ns of Some (File x) \<Rightarrow> Some x | _ \<Rightarrow> None)"
    "inside b (join ns) \<in> dirs m \<longleftrightarrow> (\<exists>ds. at_path (shown (Dir es)) ns = Some (Dir ds))"
proof -
  note ok = shown_ok [OF assms(1)]
  have leaf: "(ms, Some x) \<in> tree_leaves es \<longleftrightarrow> at_path (shown (Dir es)) ms = Some (File x)" if "ms \<noteq> []" for ms x
    using file_leaves [OF ok, of ms x] tree_leaves_eq [of es] at_path_empty [OF that]
    by (cases "shown_entries es = []") (auto simp: tree_leaves_def top_leaves_def shown_Dir)
  have other: "\<forall>ms x. (ms, Some x) \<in> tree_leaves es \<longrightarrow> inside b (join ns) \<noteq> inside b (join ms)"
    if "\<forall>x. at_path (shown (Dir es)) ns \<noteq> Some (File x)"
  proof (intro allI impI)
    fix ms x assume l: "(ms, Some x) \<in> tree_leaves es"
    then have "path_ok ms" using tree_leaf(1) [OF assms(1) l] by simp
    then have "join ns = join ms \<Longrightarrow> ns = ms" using join_inj [OF assms(4)] by blast
    then show "inside b (join ns) \<noteq> inside b (join ms)" using that l leaf [of ms x] \<open>path_ok ms\<close> by auto
  qed
  show "contents m (inside b (join ns)) = (case at_path (shown (Dir es)) ns of Some (File x) \<Rightarrow> Some x | _ \<Rightarrow> None)"
  proof (cases "\<exists>x. at_path (shown (Dir es)) ns = Some (File x)")
    case True
    then obtain x where "at_path (shown (Dir es)) ns = Some (File x)" by blast
    with leaf [of ns x] assms(2,4) show ?thesis by (auto simp: copied_def)
  next
    case False
    then have "contents m (inside b (join ns)) = None"
      using other assms(2,3) unfolding copied_def untouched_def by auto
    with False show ?thesis by (auto split: option.split node.split)
  qed
  have "inside b (join ns) \<in> dirs m \<longleftrightarrow> (\<exists>l \<in> tree_leaves es. join ns \<in> leaf_dirs l)"
    using assms(2,3) by (auto simp: copied_def untouched_def)
  also have "\<dots> \<longleftrightarrow> (\<exists>l \<in> tree_leaves es. on_way ns l)"
  proof (intro bex_cong refl)
    fix l assume l: "l \<in> tree_leaves es"
    have p: "path_ok (fst l)" using tree_leaf(1) [OF assms(1) l] .
    have eq: "join ns = join ms \<longleftrightarrow> ns = ms" if "ms \<noteq> []" "on_way ms l" for ms
      using join_inj [OF assms(4), of ms] that p by (auto simp: on_way_def prefix_def)
    have "fst l \<noteq> []" "ns \<noteq> []" using p assms(4) by simp_all
    from leaf_dirs_on_way [OF this(1)] have "join ns \<in> leaf_dirs l \<longleftrightarrow> (\<exists>ms. join ns = join ms \<and> ms \<noteq> [] \<and> on_way ms l)"
      by (simp only: mem_Collect_eq)
    then show "join ns \<in> leaf_dirs l \<longleftrightarrow> on_way ns l" using eq \<open>ns \<noteq> []\<close> by metis
  qed
  also have "\<dots> \<longleftrightarrow> (\<exists>ds. at_path (shown (Dir es)) ns = Some (Dir ds))"
    using dir_leaves [OF ok, of ns] tree_leaves_eq [of es] at_path_empty [of ns] assms(4)
    by (cases "shown_entries es = []") (auto simp: tree_leaves_def top_leaves_def shown_Dir)
  finally show "inside b (join ns) \<in> dirs m \<longleftrightarrow> (\<exists>ds. at_path (shown (Dir es)) ns = Some (Dir ds))" .
qed

text \<open>Different leaves have different tuples.\<close>

lemma tuple_of_inj:
  assumes "node_ok (Dir es)"
  shows "inj_on (tuple_of md5) (tree_leaves es)"
proof (rule inj_onI)
  fix l l' assume l: "l \<in> tree_leaves es" "l' \<in> tree_leaves es" "tuple_of md5 l = tuple_of md5 l'"
  then have "join (fst l) = join (fst l')" by (simp add: tuple_of_def)
  then have "fst l = fst l'" using join_inj tree_leaf(1) [OF assms] l(1,2) by blast
  then show "l = l'"
    using leaf_not_below [OF shown_ok [OF assms]] tree_leaf(2) [OF assms] l(1,2) by auto
qed

lemma work_all_tuples:
  assumes "node_ok (Dir es)" "undisturbed md5 (remote es) junk1 e"
    and "\<forall>c. md5 c ! 0 < 256" "\<forall>k. 128 \<le> r k" "length junk1 \<ge> 128" "length junk2 \<ge> 128"
    and "dir_path @ ''/__RSRVD'' \<in> dirs m" "untouched (base dir_path c) m" "set fts = tuple_of md5 ` tree_leaves es"
  shows "\<exists>m'. work_all md5 e r junk2 dir_path (map (\<lambda>ft. \<lparr> f_tuple = ft, c_tuple = c \<rparr>) fts) m = Some (Continue, m') \<and>
    copied (base dir_path c) (tree_leaves es) m m'"
proof -
  define g where "g = inv_into (tree_leaves es) (tuple_of md5)"
  have "tuple_of md5 (g ft) = ft" if "ft \<in> set fts" for ft
    using that assms(9) by (simp add: g_def f_inv_into_f)
  then have elems: "map (\<lambda>ft. \<lparr> f_tuple = ft, c_tuple = c \<rparr>) fts = map (leaf_element md5 c) (map g fts)"
    by (simp add: leaf_element_def)
  have all: "set (map g fts) = tree_leaves es" using assms(9) tuple_of_inj [OF assms(1)] by (auto simp: g_def image_image inv_into_f_f)
  then have "set (map g fts) \<subseteq> tree_leaves es" by simp
  from work_all_leaves [OF assms(1-8) _ this copied_start] show ?thesis unfolding elems all by simp
qed


text \<open>
  A worker whose peer closes the connection instead of answering OK ends for good, and leaves the
  rest of the elements to the others; after every other failure of the exchange it goes on.
\<close>

theorem silent_peer_ends_worker:
  assumes "work_on md5 e r junk dir_path elem m = Some (a, m')"
    and "prepare dir_path elem m = (m1, Some target)" "\<forall>k. \<not> term_at e k"
  shows "(a = Break \<longleftrightarrow> connects e \<and> write_works e 0 \<and> write_works e 1 \<and> first_msg e = None)
    \<and> (a = Break \<longrightarrow> work_all md5 e r junk dir_path (elem # elems) m = Some (Break, m1))"
proof -
  have "fetch_target md5 e r junk (f_tuple elem) target m1 = Some (a, m')"
    using assms(1,2) by (simp add: work_on_def)
  then have "(a = Break \<longleftrightarrow> connects e \<and> write_works e 0 \<and> write_works e 1 \<and> first_msg e = None) \<and> (a = Break \<longrightarrow> m' = m1)"
    using assms(3) by (auto simp: fetch_target_def split: option.splits if_splits)
  then show ?thesis using assms(1) by auto
qed

section \<open>Witnesses\<close>

definition plain_md5 :: "string \<Rightarrow> nat list" where
  "plain_md5 s = replicate 16 (length s mod 256)"

definition quiet_exchange :: "(string \<times> node) list \<Rightarrow> exchange_env" where
  "quiet_exchange es = \<lparr> connects = True, term_at = (\<lambda>k. False), write_works = (\<lambda>k. True), first_msg = Some OK,
     answer_to = (\<lambda>ft. map_option snd (send_file plain_md5 (remote es) (\<lambda>k. True) (\<lambda>k. True) False (\<lambda>k. False) (replicate 128 CHR ''x'') (Some ft))),
     target_opens = True \<rparr>"

definition empty_home :: local_files where
  "empty_home = \<lparr> dirs = {''h/__RSRVD''}, contents = Map.empty \<rparr>"

lemma empty_home_ok: "''h'' @ ''/__RSRVD'' \<in> dirs empty_home" "untouched (base ''h'' c) empty_home"
  by (auto simp: empty_home_def untouched_def base_def inside_def)

lemma sample_files_ok: "node_ok (Dir sample_files)"
  by (simp add: sample_files_def entry_name_def is_dots_def)


theorem silent_peer_ends_worker_witness:
  "work_all plain_md5 ((quiet_exchange [])\<lparr>first_msg := None\<rparr>) (\<lambda>k. 128) [] ''h''
      [\<lparr> f_tuple = \<lparr> pathname = ''a'', version = [] \<rparr>, c_tuple = client_at 1 \<rparr>, client_element (client_at 2)] empty_home
    = Some (Break, fst (prepare ''h'' \<lparr> f_tuple = \<lparr> pathname = ''a'', version = [] \<rparr>, c_tuple = client_at 1 \<rparr> empty_home))"
proof -
  let ?elem = "\<lparr> f_tuple = \<lparr> pathname = ''a'', version = [] \<rparr>, c_tuple = client_at 1 \<rparr>"
  let ?e = "(quiet_exchange [])\<lparr>first_msg := None\<rparr>"
  obtain m1 t where p: "prepare ''h'' ?elem empty_home = (m1, Some t)" by (simp add: prepare_def Let_def)
  have "m1 = mkdir_at (path_buf ''h'' (client_at 1)) empty_home" "t = path_buf ''h'' (client_at 1) @ ''a''"
    using p by (simp_all add: prepare_def Let_def)
  moreover have "contents (mkdir_at q empty_home) = Map.empty" for q by (simp add: mkdir_at_def empty_home_def)
  moreover have "t \<notin> dirs m1" using calculation
    by (auto simp: mkdir_at_def empty_home_def path_buf_base no_slash_def base_def inside_def)
  ultimately have "fetch_target plain_md5 ?e (\<lambda>k. 128) [] (f_tuple ?elem) t m1 = Some (Break, m1)"
    by (simp add: fetch_target_def get_version_def quiet_exchange_def)
  then have "work_on plain_md5 ?e (\<lambda>k. 128) [] ''h'' ?elem empty_home = Some (Break, m1)" using p by (simp add: work_on_def)
  from silent_peer_ends_worker [OF this p, of "[client_element (client_at 2)]"] p show ?thesis
    by (simp add: quiet_exchange_def)
qed

end
