(* ===== verification/ClientStart.thy ===== *)
theory ClientStart
  imports Threads Server Options Digits
begin

text \<open>
  The start of the dropbox client (SysPro\_Project3/src/dropbox\_client.c, main up to the loop that
  serves connections): the arguments, the exchanges with the server, the worker threads, and the
  list of the other clients, which goes into the client list and the ring buffer.  Which calls work,
  when a signal has set the flag, and what the server answers come from outside.
\<close>

section \<open>The arguments\<close>

text \<open>The program ends with a code and what it prints (for perror, its argument).\<close>

datatype quit = Quit int string

definition apostrophe :: string where "apostrophe = [CHR 0x27]"

record settings =
  home :: string
  port :: "16 word"
  workerThreads :: int
  bufferSize :: nat
  serverPort :: "16 word"

definition as_uint16 :: "string \<Rightarrow> 16 word" where
  "as_uint16 s = of_int (fst (strtol s))"

definition as_int :: "string \<Rightarrow> int" where
  "as_int s = to_int32 (fst (strtol s))"

definition as_size :: "string \<Rightarrow> nat" where
  "as_size s = nat (fst (strtol s) mod 2 ^ 64)"

definition minus_first :: "string \<Rightarrow> bool" where
  "minus_first s \<longleftrightarrow> s \<noteq> [] \<and> hd s = CHR ''-''"

text \<open>
  resolve is realpath, which returns NULL for NULL; strtol and gethostbyname read their argument.
\<close>

definition check_args :: "(string \<Rightarrow> string option) \<Rightarrow> (string \<Rightarrow> bool) \<Rightarrow> string list \<Rightarrow> fault + (quit + settings)" where
  "check_args resolve host_found argv =
     and_then (use_dropbox argv) (\<lambda>params.
       case params of
         None \<Rightarrow> ok (Inl (Quit 1 []))
       | Some ps \<Rightarrow>
           (case Option.bind (ps ! 0) resolve of
              None \<Rightarrow> ok (Inl (Quit 1 ''dir_path - realpath()''))
            | Some dir_path \<Rightarrow>
                (case ps ! 1 of
                   None \<Rightarrow> crash NullDeref
                 | Some p \<Rightarrow>
                     if minus_first p then ok (Inl (Quit 1 (''The client'' @ apostrophe @ ''s port number cannot be a negative number.'' @ nl)))
                     else if as_uint16 p < 1024 then ok (Inl (Quit 1 (''The port number is less than 1024.'' @ nl)))
                     else
                       (case ps ! 2 of
                          None \<Rightarrow> crash NullDeref
                        | Some w \<Rightarrow>
                            if as_int w \<le> 0 then ok (Inl (Quit 1 (''Invalid number of worker threads.'' @ nl)))
                            else
                              (case ps ! 3 of
                                 None \<Rightarrow> crash NullDeref
                               | Some b \<Rightarrow>
                                   if as_size b = 0 then ok (Inl (Quit 1 (''The buffer'' @ apostrophe @ ''s size cannot be 0.'' @ nl)))
                                   else
                                     (case ps ! 4 of
                                        None \<Rightarrow> crash NullDeref
                                      | Some sp \<Rightarrow>
                                          if minus_first sp then
                                            ok (Inl (Quit 1 (''The server'' @ apostrophe @ ''s port number cannot be a negative number.'' @ nl)))
                                          else
                                            (case ps ! 5 of
                                               None \<Rightarrow> crash NullDeref
                                             | Some sip \<Rightarrow>
                                                 if \<not> host_found sip then ok (Inl (Quit 1 ''gethostbyname''))
                                                 else ok (Inr \<lparr> home = dir_path, port = as_uint16 p, workerThreads = as_int w,
                                                                bufferSize = as_size b, serverPort = as_uint16 sp \<rparr>))))))))"

section \<open>Logging on\<close>

datatype call =
    Socket_server | Socket_clients | Setsockopt | Bind_socket | Listen_socket | Connect_server
  | Write_LOG_ON | Write_own_tuple | Read_server_tuple | Socket_again | Connect_again
  | Write_GET_CLIENTS | Write_own_again | Read_message | Read_count

text \<open>The places where the flag of the signal handler is tested.\<close>

datatype moment = After_args | Before_LOG_ON | Before_server_tuple | Before_GET_CLIENTS | After_GET_CLIENTS | Before_list

record start_env =
  works :: "call \<Rightarrow> bool"
  ended :: "moment \<Rightarrow> bool"
  server_says :: client_tuple
  answer_msg :: int
  answer_count :: int

definition exits :: string where "exits = ''The client is exiting.'' @ nl"
definition unreachable :: string where "unreachable = ''The server could not be reached.'' @ nl"

text \<open>What was written to the server comes with every result.\<close>

definition open_sockets :: "start_env \<Rightarrow> quit option" where
  "open_sockets e =
     (if ended e After_args then Some (Quit 0 exits)
      else if \<not> works e Socket_server then Some (Quit 1 ''Client socket with server could not be created'')
      else if \<not> works e Socket_clients then Some (Quit 1 ''Client socket with other clients could not be created'')
      else if \<not> works e Setsockopt then Some (Quit 1 ''Setsockopt'')
      else if \<not> works e Bind_socket then Some (Quit 1 ''Bind socket with other client'')
      else if \<not> works e Listen_socket then Some (Quit 1 ''Listen'')
      else if \<not> works e Connect_server then Some (Quit 1 ''Connection to server'')
      else None)"

definition log_on :: "start_env \<Rightarrow> client_tuple \<Rightarrow> (quit + client_tuple) \<times> packet list" where
  "log_on e this_client =
     (if ended e Before_LOG_ON then (Inl (Quit 1 []), [])
      else if \<not> works e Write_LOG_ON then (Inl (Quit 1 ''Write LOG_ON''), [])
      else if \<not> works e Write_own_tuple then (Inl (Quit 1 ''Write LOG_ON client_tuple''), [Msg LOG_ON])
      else
        let sent = [Msg LOG_ON, Tuple this_client]
        in if ended e Before_server_tuple then (Inl (Quit 1 []), sent)
           else if \<not> works e Read_server_tuple then (Inl (Quit 1 (''Read server'' @ apostrophe @ ''s tuple'')), sent)
           else (Inr (server_says e), sent))"

definition get_clients :: "start_env \<Rightarrow> client_tuple \<Rightarrow> (quit + int) \<times> packet list" where
  "get_clients e this_client =
     (if \<not> works e Socket_again then (Inl (Quit 1 ''Socket''), [])
      else if \<not> works e Connect_again then (Inl (Quit 1 ''Connection to server''), [])
      else if ended e Before_GET_CLIENTS then (Inl (Quit 1 []), [])
      else if \<not> works e Write_GET_CLIENTS then (Inl (Quit 1 ''write GET_CLIENTS''), [])
      else if \<not> works e Write_own_again then (Inl (Quit 1 ''write this_client tuple''), [Msg GET_CLIENTS])
      else
        let sent = [Msg GET_CLIENTS, Tuple this_client]
        in if ended e After_GET_CLIENTS then (Inl (Quit 0 exits), sent)
           else if ended e Before_list then (Inl (Quit 1 []), sent)
           else if \<not> works e Read_message then (Inl (Quit 1 unreachable), sent)
           else if answer_msg e \<noteq> CLIENT_LIST then
             (Inl (Quit 1 (''A problem occured while communicating with the server.'' @ nl)), sent)
           else if \<not> works e Read_count then (Inl (Quit 1 unreachable), sent)
           else (Inr (answer_count e), sent))"

section \<open>Worker threads\<close>

text \<open>
  Joining the threads js.  A worker that waits on a condition variable (asleep) goes on only after
  the signal handler's broadcast (woken); setting the flag alone does not wake it.
\<close>

record crew =
  crew_size :: nat
  asleep :: "nat \<Rightarrow> bool"
  creates :: "nat \<Rightarrow> bool"

fun join_threads :: "crew \<Rightarrow> bool \<Rightarrow> nat list \<Rightarrow> (fault + unit) option" where
  "join_threads c woken [] = Some (ok ())"
| "join_threads c woken (j # js) =
     (if j \<ge> crew_size c then Some (crash BadIndex)
      else if asleep c j \<and> \<not> woken then None
      else join_threads c woken js)"

definition quit_after :: "int \<Rightarrow> string \<Rightarrow> (fault + unit) option \<Rightarrow> (fault + quit + 'a) option" where
  "quit_after code msg r = run_then r (\<lambda>_. Some (ok (Inl (Quit code msg))))"

text \<open>When the i-th thread cannot be created, the flag is set and those before it are joined.\<close>

fun create_threads :: "crew \<Rightarrow> nat \<Rightarrow> nat \<Rightarrow> (fault + quit + unit) option" where
  "create_threads c i 0 = Some (ok (Inr ()))"
| "create_threads c i (Suc n) =
     (if creates c i then create_threads c (Suc i) n
      else quit_after 1 ''pthread_create'' (join_threads c False [0..<i]))"

section \<open>The list of clients\<close>

record peers_state =
  clients :: "client_tuple heap"
  first_client :: "nat option"
  ring :: "element_t buffer_t"

text \<open>Elements the workers take while the main thread is at the buffer.\<close>

fun taken :: "nat \<Rightarrow> 'e buffer_t \<Rightarrow> 'e buffer_t" where
  "taken 0 b = b"
| "taken (Suc n) b = (if buffer_is_empty b then b else taken n (snd (buffer_pop b)))"

text \<open>Waiting for room: None is a wait that never ends, Inl that the flag was set.\<close>

definition push_when_room :: "nat \<Rightarrow> bool \<Rightarrow> element_t \<Rightarrow> element_t buffer_t \<Rightarrow> (unit + element_t buffer_t) option" where
  "push_when_room pops flag_set el b =
     (if flag_set then Some (Inl ())
      else if buffer_is_full (taken pops b) then None
      else Some (Inr (buffer_push (taken pops b) el)))"

text \<open>
  What happens at the i-th tuple: the flag is set before it arrives, reading fails, or it arrives,
  and the workers take some elements before it is pushed, or the flag is set meanwhile.
\<close>

datatype arrival = Ended | Read_fails | Arrives client_tuple nat bool

fun receive_clients ::
    "crew \<Rightarrow> client_tuple \<Rightarrow> nat \<Rightarrow> arrival list \<Rightarrow> peers_state \<Rightarrow> (fault + quit + peers_state) option" where
  "receive_clients c this_client i [] s = Some (ok (Inr s))"
| "receive_clients c this_client i (Ended # as) s = quit_after 1 [] (join_threads c True [0..<Suc i])"
| "receive_clients c this_client i (Read_fails # as) s = quit_after 1 unreachable (join_threads c False [0..<Suc i])"
| "receive_clients c this_client i (Arrives ct pops flag_set # as) s =
     (if same_client ct this_client then receive_clients c this_client (Suc i) as s
      else
        run_then (client_list_add (clients s) (first_client s) ct) (\<lambda>(h, l).
          case push_when_room pops flag_set (client_element ct) (ring s) of
            None \<Rightarrow> None
          | Some (Inl _) \<Rightarrow> quit_after 1 [] (join_threads c True [0..<Suc i])
          | Some (Inr b) \<Rightarrow>
              receive_clients c this_client (Suc i) as \<lparr> clients = h, first_client = l, ring = b \<rparr>))"

section \<open>The start as a whole\<close>

text \<open>arrivals says what happens at each of the announced tuples.\<close>

definition start ::
    "settings \<Rightarrow> start_env \<Rightarrow> crew \<Rightarrow> client_tuple \<Rightarrow> (nat \<Rightarrow> arrival)
     \<Rightarrow> (fault + (quit + client_tuple \<times> peers_state)) option \<times> packet list" where
  "start ps e crew this_client arrivals =
     (let c = crew\<lparr>crew_size := nat (workerThreads ps)\<rparr> in
      case open_sockets e of
        Some q \<Rightarrow> (Some (ok (Inl q)), [])
      | None \<Rightarrow>
          (case log_on e this_client of
             (Inl q, sent) \<Rightarrow> (Some (ok (Inl q)), sent)
           | (Inr server_tuple, sent) \<Rightarrow>
               (case get_clients e this_client of
                  (Inl q, sent') \<Rightarrow> (Some (ok (Inl q)), sent @ sent')
                | (Inr number_of_clients, sent') \<Rightarrow>
                    (run_then (create_threads c 0 (crew_size c)) (\<lambda>r.
                       case r of
                         Inl q \<Rightarrow> Some (ok (Inl q))
                       | Inr _ \<Rightarrow>
                           run_then (receive_clients c this_client 0 (map arrivals [0..<nat number_of_clients])
                               \<lparr> clients = no_clients, first_client = None, ring = buffer_init (bufferSize ps) \<rparr>) (\<lambda>r.
                             Some (ok (map_sum id (\<lambda>s. (server_tuple, s)) r)))), sent @ sent'))))"

section \<open>Which arguments are accepted\<close>

definition command_line :: "string \<Rightarrow> nat \<Rightarrow> nat \<Rightarrow> nat \<Rightarrow> nat \<Rightarrow> string \<Rightarrow> string list" where
  "command_line d p w b q ip = [''dropbox_client'', ''-d'', d, ''-p'', dec p, ''-w'', dec w, ''-b'', dec b, ''-sp'', dec q, ''-sip'', ip]"

lemma dec_facts:
  assumes "n < 2 ^ 31"
  shows "as_uint16 (dec n) = of_nat n" "as_int (dec n) = int n" "as_size (dec n) = n" "\<not> minus_first (dec n)"
proof -
  have n: "strtol (dec n) = (int n, [])" using strtol_of_dec [of "[]" n] assms by simp
  have i: "int n < 2 ^ 31" using assms by (metis of_nat_less_iff of_nat_numeral of_nat_power)
  show "as_uint16 (dec n) = of_nat n" by (simp add: as_uint16_def n)
  show "as_int (dec n) = int n" using i by (simp add: as_int_def n to_int32_id)
  show "as_size (dec n) = n" using i by (simp add: as_size_def n)
  have "is_digit (hd (dec n))" using dec_digits [of "hd (dec n)" n] dec_nonempty [of n] by simp
  then show "\<not> minus_first (dec n)" by (auto simp: minus_first_def dest: digit_not_special)
qed

text \<open>
  The port numbers are cut to 16 bits before they are tested: with decimal arguments the client
  runs on port p mod 65536, and is refused exactly when this is below 1024 or one of the other
  numbers is 0, whatever p is.
\<close>

theorem port_is_cut:
  assumes "p < 2 ^ 31" "w < 2 ^ 31" "b < 2 ^ 31" "q < 2 ^ 31" "resolve d = Some dir" "host_found ip"
  shows "\<exists>r. check_args resolve host_found (command_line d p w b q ip) = ok r \<and>
    (if p mod 65536 < 1024 \<or> w = 0 \<or> b = 0 then \<exists>msg. r = Inl (Quit 1 msg)
     else \<exists>ps. r = Inr ps \<and> home ps = dir \<and> unat (port ps) = p mod 65536 \<and> workerThreads ps = int w \<and>
       bufferSize ps = b \<and> unat (serverPort ps) = q mod 65536)"
proof -
  have "use_dropbox (command_line d p w b q ip) = ok (Some [Some d, Some (dec p), Some (dec w), Some (dec b), Some (dec q), Some ip])"
    by (simp add: use_dropbox_def command_line_def dropbox_options_def numeral_eq_Suc)
  then have args: "check_args resolve host_found (command_line d p w b q ip) = ok
      (if (of_nat p :: 16 word) < 1024 then Inl (Quit 1 (''The port number is less than 1024.'' @ nl))
       else if w = 0 then Inl (Quit 1 (''Invalid number of worker threads.'' @ nl))
       else if b = 0 then Inl (Quit 1 (''The buffer'' @ apostrophe @ ''s size cannot be 0.'' @ nl))
       else Inr \<lparr> home = dir, port = of_nat p, workerThreads = int w, bufferSize = b, serverPort = of_nat q \<rparr>)"
    using assms(5,6) 
    by (simp add: check_args_def dec_facts [OF assms(1)] dec_facts [OF assms(2)] dec_facts [OF assms(3)] dec_facts [OF assms(4)])
  have u: "unat (of_nat n :: 16 word) = n mod 65536" for n by (simp add: unat_of_nat)
  have "(of_nat p :: 16 word) < 1024 \<longleftrightarrow> p mod 65536 < 1024" by (simp add: word_less_nat_alt u)
  then show ?thesis unfolding args by (auto simp: u)
qed

theorem port_is_cut_witness:
  "\<exists>ps. check_args Some (\<lambda>h. True) (command_line ''d'' 67000 2 8 9000 ''linux01'') = ok (Inr ps) \<and> unat (port ps) = 1464"
  using port_is_cut [of 67000 2 8 9000 Some "''d''" "''d''" "\<lambda>h. True" "''linux01''"] by auto

section \<open>The list a client starts with\<close>

lemma taken_ok:
  assumes "buffer_ok b"
  shows "buffer_ok (taken n b) \<and> bsize (taken n b) = bsize b \<and> (\<exists>took. buffer_contents b = took @ buffer_contents (taken n b))"
  using assms
proof (induction n b rule: taken.induct)
  case (2 n b)
  show ?case
  proof (cases "buffer_is_empty b")
    case True
    with 2 show ?thesis by simp
  next
    case False
    from 2(1) [OF False buffer_pop_ok [OF 2(2) False]] buffer_contents_unfold [OF 2(2) False] False
    show ?thesis by auto
  qed
qed simp

lemma push_when_room_ok:
  assumes "buffer_ok b" "buffer_count b < bsize b - 1"
  shows "\<exists>b'. push_when_room pops False el b = Some (Inr b') \<and> buffer_ok b' \<and> bsize b' = bsize b \<and> buffer_count b' \<le> Suc (buffer_count b) \<and>
    (\<exists>took. buffer_contents b @ [el] = took @ buffer_contents b')"
proof -
  obtain took where t: "buffer_ok (taken pops b)" "bsize (taken pops b) = bsize b" "buffer_contents b = took @ buffer_contents (taken pops b)"
    using taken_ok [OF assms(1), of pops] by blast
  have "buffer_count (taken pops b) \<le> buffer_count b" using arg_cong [OF t(3), of length] by simp
  then have room: "\<not> buffer_is_full (taken pops b)" using buffer_full_iff [OF t(1)] t(2) assms(2) by simp
  then show ?thesis
    using buffer_push_ok [OF t(1) room] buffer_push_contents [OF t(1) room, of el] buffer_count_push [OF t(1) room, of el] t(2,3)
      \<open>buffer_count (taken pops b) \<le> buffer_count b\<close>
    by (simp add: push_when_room_def)
qed

definition arrives :: "arrival list \<Rightarrow> client_tuple list \<Rightarrow> bool" where
  "arrives as ts \<longleftrightarrow> list_all2 (\<lambda>a t. \<exists>pops. a = Arrives t pops False) as ts"

definition others :: "client_tuple \<Rightarrow> client_tuple list \<Rightarrow> client_tuple list" where
  "others this_client ts = filter (\<lambda>t. t \<noteq> this_client) ts"

lemma receive_all:
  assumes "arrives as ts" "represents (clients s) (first_client s) us" "buffer_ok (ring s)"
    and "buffer_count (ring s) + length (others this_client ts) \<le> bsize (ring s) - 1"
  shows "\<exists>s'. receive_clients c this_client i as s = Some (ok (Inr s')) \<and>
    represents (clients s') (first_client s') (us @ others this_client ts) \<and> buffer_ok (ring s') \<and> bsize (ring s') = bsize (ring s) \<and>
    (\<exists>took. buffer_contents (ring s) @ map client_element (others this_client ts) = took @ buffer_contents (ring s'))"
  using assms
proof (induction as arbitrary: ts us i s)
  case Nil
  then show ?case by (simp add: arrives_def others_def)
next
  case (Cons a as)
  then obtain t ts' pops where t: "ts = t # ts'" "a = Arrives t pops False" "arrives as ts'"
    by (auto simp: arrives_def list_all2_Cons1)
  show ?case
  proof (cases "t = this_client")
    case True
    with Cons.IH [OF t(3) Cons.prems(2,3)] Cons.prems(4) t show ?thesis by (simp add: others_def)
  next
    case False
    then have o: "others this_client ts = t # others this_client ts'" using t(1) by (simp add: others_def)
    obtain h l where add: "client_list_add (clients s) (first_client s) t = Some (ok (h, l))" "represents h l (us @ [t])"
      using clients.add_law [OF Cons.prems(2)] by blast
    have "buffer_count (ring s) < bsize (ring s) - 1" using Cons.prems(4) o by simp
    from push_when_room_ok [OF Cons.prems(3) this, of pops "client_element t"]
    obtain b took where b: "push_when_room pops False (client_element t) (ring s) = Some (Inr b)" "buffer_ok b"
        "bsize b = bsize (ring s)" "buffer_count b \<le> Suc (buffer_count (ring s))"
        "buffer_contents (ring s) @ [client_element t] = took @ buffer_contents b"
      by blast
    let ?s = "\<lparr> clients = h, first_client = l, ring = b \<rparr>"
    have "receive_clients c this_client i (a # as) s = receive_clients c this_client (Suc i) as ?s"
      using t(2) False add(1) b(1) by simp
    moreover obtain s' took' where s': "receive_clients c this_client (Suc i) as ?s = Some (ok (Inr s'))"
        "represents (clients s') (first_client s') ((us @ [t]) @ others this_client ts')" "buffer_ok (ring s')"
        "bsize (ring s') = bsize b" "buffer_contents b @ map client_element (others this_client ts') = took' @ buffer_contents (ring s')"
      using Cons.IH [OF t(3), of ?s "us @ [t]" "Suc i"] add(2) b(2-4) Cons.prems(4) o by auto
    moreover have "buffer_contents (ring s) @ map client_element (others this_client ts) = (took @ took') @ buffer_contents (ring s')"
      using s'(5) arg_cong [OF b(5), of "\<lambda>x. x @ map client_element (others this_client ts')"] o by simp
    ultimately show ?thesis using b(3) o by auto
  qed
qed

lemma receive_append:
  "receive_clients c this_client i (as @ bs) s =
    run_then (receive_clients c this_client i as s) (\<lambda>r.
      case r of Inl q \<Rightarrow> Some (ok (Inl q)) | Inr s' \<Rightarrow> receive_clients c this_client (i + length as) bs s')"
proof (induction c this_client i as s rule: receive_clients.induct)
  case (4 c this_client i ct pops flag_set as s)
  show ?case
  proof (cases "same_client ct this_client")
    case True
    with 4(1) show ?thesis by (simp cong: sum.case_cong)
  next
    case False
    have q: "quit_after n msg r = run_then (quit_after n msg r) (\<lambda>r. case r of Inl q \<Rightarrow> Some (ok (Inl q)) | Inr s' \<Rightarrow> f s')"
      for n msg r and f :: "peers_state \<Rightarrow> (fault + quit + peers_state) option"
      by (simp add: quit_after_def run_then_assoc)
    show ?thesis using False 4(2) q
      by (auto simp: run_then_assoc intro!: arg_cong [where f = "run_then _"] split: option.split sum.split)
  qed
qed (simp_all add: quit_after_def run_then_assoc)

lemma others_fewer: "distinct ts \<Longrightarrow> this_client \<in> set ts \<Longrightarrow> length (others this_client ts) = length ts - 1"
proof (induction ts)
  case (Cons t ts)
  show ?case
  proof (cases "t = this_client")
    case True
    then have "filter (\<lambda>t. t \<noteq> this_client) ts = ts" using Cons.prems(1) by (auto simp: filter_id_conv)
    with True show ?thesis by (simp add: others_def)
  next
    case False
    then have "this_client \<in> set ts" using Cons.prems(2) by simp
    with Cons False show ?thesis using length_pos_if_in_set [of this_client ts] by (simp add: others_def)
  qed
qed simp

lemma create_threads_all: "\<forall>i. creates c i \<Longrightarrow> create_threads c i n = Some (ok (Inr ()))"
  by (induction n arbitrary: i) simp_all

text \<open>
  C31: Server and client agree on who is there.  When the server that has ts as its clients answers
  GET\_CLIENTS, and the buffer has at least as many slots as the server clients, the client starts
  without waiting for its workers: its list holds all clients but itself, in the server's order,
  and exactly these went into the buffer in this order.
\<close>

theorem start_knows_others:
  assumes "server_ok sv ts" "this_client \<in> set ts" "\<forall>k. writes env k"
    and "handle_request server_tuple env GET_CLIENTS this_client sv
      = Some (ok (sv', (Requester, Msg m) # (Requester, Count n) # map (\<lambda>t. (Requester, Tuple t)) got))"
    and "answer_msg e = m" "answer_count e = n" "\<forall>i < length got. \<exists>pops. arrivals i = Arrives (got ! i) pops False"
    and "\<forall>c. works e c" "\<forall>x. \<not> ended e x" "\<forall>i. creates crew i" "length ts \<le> bufferSize ps"
  shows "\<exists>s. start ps e crew this_client arrivals
      = (Some (ok (Inr (server_says e, s))), [Msg LOG_ON, Tuple this_client, Msg GET_CLIENTS, Tuple this_client]) \<and>
    represents (clients s) (first_client s) (others this_client ts) \<and> buffer_ok (ring s) \<and>
    (\<exists>took. map client_element (others this_client ts) = took @ buffer_contents (ring s))"
proof -
  have answer: "m = CLIENT_LIST" "n = int (length ts)" "map (\<lambda>t. (Requester, Tuple t)) got = map (\<lambda>t. (Requester, Tuple t)) ts"
    using client_list_answer [OF assms(1,3), of server_tuple this_client] assms(2,4) by auto
  have "inj (\<lambda>t. (Requester, Tuple t))" by (simp add: inj_def)
  with answer(3) have got: "got = ts" by (simp add: inj_map_eq_map)
  have distinct: "distinct ts" using assms(1) by (simp add: server_ok_def)
  have as: "arrives (map arrivals [0..<nat n]) ts"
    using assms(7) answer(2) got by (simp add: arrives_def list_all2_conv_all_nth)
  have "0 < length ts" using assms(2) by (cases ts) auto
  then have size: "0 < bufferSize ps" using assms(11) by linarith
  have bs: "bsize (buffer_init k :: element_t buffer_t) = k" for k by (simp add: buffer_init_def)
  have init: "buffer_ok (buffer_init (bufferSize ps) :: element_t buffer_t)" "buffer_contents (buffer_init (bufferSize ps) :: element_t buffer_t) = []"
    using buffer_init_ok [OF size] by blast+
  let ?c = "crew\<lparr>crew_size := nat (workerThreads ps)\<rparr>"
  let ?s = "\<lparr> clients = no_clients, first_client = None, ring = buffer_init (bufferSize ps) \<rparr>"
  have "buffer_count (buffer_init (bufferSize ps) :: element_t buffer_t) + length (others this_client ts) \<le> bufferSize ps - 1"
    using others_fewer [OF distinct assms(2)] assms(11) by (simp add: buffer_count_def buffer_init_def)
  then obtain s where s: "receive_clients ?c this_client 0 (map arrivals [0..<nat n]) ?s = Some (ok (Inr s))"
      "represents (clients s) (first_client s) (others this_client ts)" "buffer_ok (ring s)"
      "\<exists>took. map client_element (others this_client ts) = took @ buffer_contents (ring s)"
    using receive_all [OF as, of ?s "[]" this_client ?c 0] init no_clients_ok
    using \<open>buffer_count (buffer_init (bufferSize ps) :: element_t buffer_t) + length (others this_client ts) \<le> bufferSize ps - 1\<close> bs by auto
  have "start ps e crew this_client arrivals
      = (Some (ok (Inr (server_says e, s))), [Msg LOG_ON, Tuple this_client, Msg GET_CLIENTS, Tuple this_client])"
    using assms(5,6,8-10) answer(1) s(1)
    by (simp add: start_def open_sockets_def log_on_def get_clients_def Let_def create_threads_all)
  with s(2-4) show ?thesis by blast
qed

lemma join_threads_outcome:
  "join_threads c woken [k..<k + n] =
     (if woken \<or> (\<forall>j. k \<le> j \<and> j < k + n \<and> j < crew_size c \<longrightarrow> \<not> asleep c j)
      then Some (if n = 0 \<or> k + n \<le> crew_size c then ok () else crash BadIndex) else None)"
proof (induction n arbitrary: k)
  case (Suc n)
  have upt: "[k..<k + Suc n] = k # [Suc k..<Suc k + n]" by (simp add: upt_rec)
  have ex: "(\<forall>j. k \<le> j \<and> j < k + Suc n \<and> j < crew_size c \<longrightarrow> \<not> asleep c j) \<longleftrightarrow>
      (k < crew_size c \<longrightarrow> \<not> asleep c k) \<and> (\<forall>j. Suc k \<le> j \<and> j < Suc k + n \<and> j < crew_size c \<longrightarrow> \<not> asleep c j)"
    by (metis Suc_le_eq add_Suc_right add_Suc le_eq_less_or_eq less_add_Suc1)
  show ?case unfolding upt ex join_threads.simps Suc by auto
qed simp

text \<open>
  A start that ends while the list of clients arrives.  With i tuples received, a signal makes the
  main thread join the threads 0 to i, and it reads behind the array of threads when there are only i
  of them or fewer; when the server disappears instead, the flag is set without a broadcast, and the
  program hangs if one of the threads it joins waits for an element.
\<close>

theorem start_ends_early:
  assumes "receive_clients c this_client 0 pre s = Some (ok (Inr s'))"
  shows "receive_clients c this_client 0 (pre @ Ended # post) s
      = Some (if length pre < crew_size c then ok (Inl (Quit 1 [])) else crash BadIndex)
    \<and> receive_clients c this_client 0 (pre @ Read_fails # post) s
      = (if \<exists>j \<le> length pre. j < crew_size c \<and> asleep c j then None
         else Some (if length pre < crew_size c then ok (Inl (Quit 1 unreachable)) else crash BadIndex))"
proof
  note join = join_threads_outcome [of c _ 0 "Suc (length pre)"]
  show "receive_clients c this_client 0 (pre @ Ended # post) s
      = Some (if length pre < crew_size c then ok (Inl (Quit 1 [])) else crash BadIndex)"
    using join [of True] by (simp add: receive_append assms quit_after_def Suc_le_eq del: upt_Suc)
  show "receive_clients c this_client 0 (pre @ Read_fails # post) s
      = (if \<exists>j \<le> length pre. j < crew_size c \<and> asleep c j then None
         else Some (if length pre < crew_size c then ok (Inl (Quit 1 unreachable)) else crash BadIndex))"
    using join [of False] by (simp add: receive_append assms quit_after_def Suc_le_eq less_Suc_eq_le del: upt_Suc)
qed

section \<open>Witnesses\<close>

definition sample_settings :: settings where
  "sample_settings = \<lparr> home = ''d'', port = 2000, workerThreads = 1, bufferSize = 2, serverPort = 9000 \<rparr>"

definition sample_start_env :: start_env where
  "sample_start_env = \<lparr> works = (\<lambda>c. True), ended = (\<lambda>x. False), server_says = client_at 0, answer_msg = CLIENT_LIST, answer_count = 2 \<rparr>"

definition no_peers :: peers_state where
  "no_peers = \<lparr> clients = no_clients, first_client = None, ring = buffer_init 2 \<rparr>"

definition one_worker :: crew where
  "one_worker = \<lparr> crew_size = 1, asleep = (\<lambda>j. True), creates = (\<lambda>i. True) \<rparr>"

theorem start_knows_others_witness:
  "\<exists>s. fst (start sample_settings sample_start_env one_worker (client_at 2) (\<lambda>i. Arrives (client_at (int i + 1)) 0 False))
      = Some (ok (Inr (client_at 0, s))) \<and> represents (clients s) (first_client s) [client_at 1]"
proof -
  have "client_at 1 \<noteq> client_at 2" by (simp add: client_at_def)
  then have o: "others (client_at 2) [client_at 1, client_at 2] = [client_at 1]" by (simp add: others_def)
  have "\<exists>pops. Arrives (client_at (int i + 1)) 0 False = Arrives ([client_at 1, client_at 2] ! i) pops False" if "i < 2" for i
    using that by (cases i) simp_all
  then show ?thesis
    using start_knows_others [OF two_clients_ok, of "client_at 2" fine "client_at 0" two_clients CLIENT_LIST 2
        "[client_at 1, client_at 2]" sample_start_env "\<lambda>i. Arrives (client_at (int i + 1)) 0 False" one_worker sample_settings]
      client_list_answer [OF two_clients_ok, of fine "client_at 0" "client_at 2"] o
    by (auto simp: fine_def sample_start_env_def one_worker_def sample_settings_def)
qed

theorem start_ends_early_witness:
  "receive_clients one_worker (client_at 1) 0 [Arrives (client_at 1) 0 False, Ended] no_peers = Some (crash BadIndex)
    \<and> receive_clients one_worker (client_at 1) 0 [Arrives (client_at 1) 0 False, Read_fails] no_peers = None"
  using start_ends_early [of one_worker "client_at 1" "[Arrives (client_at 1) 0 False]" no_peers no_peers "[]"]
  by (auto simp: one_worker_def)

end
