(* ===== verification/ClientServe.thy ===== *)
theory ClientServe
  imports ClientStart FileList
begin

text \<open>
  The loop in which the dropbox client serves connections, and its end
  (SysPro\_Project3/src/dropbox\_client.c, main from its second half on, and sig\_h).  What a peer
  sends, which writes succeed, the flag at its tests and what the workers take meanwhile come from
  outside; send\_file\_list and send\_file are those of FileList and FileTransfer.
\<close>

section \<open>Messages to the user\<close>

definition not_in_list :: string where
  "not_in_list = ''The client trying to communicate is not in the client list.'' @ nl"
definition error_comm_client :: string where
  "error_comm_client = ''An error occured while communicating with another client.'' @ nl"
definition error_comm_server :: string where
  "error_comm_server = ''An error occured while communicating with the server.'' @ nl"
definition sth_wrong_client :: string where
  "sth_wrong_client = ''Something wrong came up from another client.'' @ nl"
definition error_file_client :: string where
  "error_file_client = ''An error occurred while sending a file to another client.'' @ nl"
definition error_list_client :: string where
  "error_list_client = ''An error occurred while sending file list to a client.'' @ nl"
definition wrong_server :: string where
  "wrong_server = ''A from-server kind of message was received, but not from this client'' @ apostrophe @ ''s server.'' @ nl"
definition problem_notifying :: string where
  "problem_notifying = ''There was a problem notifying another client that it is not in the client list.'' @ nl"

section \<open>One connection\<close>

text \<open>What happens while a request is dealt with.\<close>

record dealing =
  reply_works :: bool
  found_now :: "nat \<Rightarrow> snapshot"
  list_writes :: "nat \<Rightarrow> bool"
  open_at :: "string \<Rightarrow> fnode option"
  head_writes :: "nat \<Rightarrow> bool"
  flag_first :: bool
  chunk_writes :: "nat \<Rightarrow> bool"
  flag_chunks :: "nat \<Rightarrow> bool"
  old_buffer :: string
  requested :: "file_tuple option"
  flag_waiting :: bool
  follows :: "client_tuple option"
  popped_now :: nat
  flag_pushing :: bool
  flag_after :: bool

datatype reply = Code int | Listing "list_msg list" | Transfer "wire list"

text \<open>
  The state, the replies, what the loop prints to standard error, and how often the descriptor of
  the connection is closed.
\<close>

type_synonym served = "peers_state \<times> reply list \<times> string \<times> nat"

definition refuse_stranger :: "dealing \<Rightarrow> peers_state \<Rightarrow> served" where
  "refuse_stranger d s =
     (if reply_works d then (s, [Code IP_PORT_NOT_FOUND], not_in_list, 1) else (s, [], problem_notifying, 1))"

definition refuse_server :: "dealing \<Rightarrow> peers_state \<Rightarrow> served" where
  "refuse_server d s = (s, if reply_works d then [Code IP_PORT_NOT_FOUND] else [], wrong_server, 1)"

definition serve_list :: "(string \<Rightarrow> nat list) \<Rightarrow> string \<Rightarrow> client_tuple \<Rightarrow> dealing \<Rightarrow> peers_state \<Rightarrow> (fault + served) option" where
  "serve_list md5 dir_path ct d s =
     run_then (in_client_list (clients s) (first_client s) ct) (\<lambda>known.
       if \<not> known then Some (ok (refuse_stranger d s))
       else if \<not> reply_works d then Some (ok (s, [], error_comm_client, 1))
       else
         run_then (send_file_list md5 (found_now d) dir_path (list_writes d)) (\<lambda>(ret, msgs, st).
           Some (ok (s, [Code OK, Listing msgs], if ret \<noteq> 0 then error_list_client else [], 1))))"

definition serve_file :: "(string \<Rightarrow> nat list) \<Rightarrow> client_tuple \<Rightarrow> dealing \<Rightarrow> peers_state \<Rightarrow> (fault + served) option" where
  "serve_file md5 ct d s =
     run_then (in_client_list (clients s) (first_client s) ct) (\<lambda>known.
       if \<not> known then Some (ok (refuse_stranger d s))
       else if \<not> reply_works d then Some (ok (s, [], error_comm_client, 1))
       else
         (case send_file md5 (open_at d) (head_writes d) (chunk_writes d) (flag_first d) (flag_chunks d) (old_buffer d) (requested d) of
            None \<Rightarrow> None
          | Some (ret, out) \<Rightarrow> Some (ok (s, [Code OK, Transfer out], if ret \<noteq> 0 then error_file_client else [], 1))))"

text \<open>When a signal arrives while the new client's tuple is awaited, the descriptor is closed here and again behind the switch.\<close>

definition serve_user_on :: "client_tuple \<Rightarrow> client_tuple \<Rightarrow> dealing \<Rightarrow> peers_state \<Rightarrow> (fault + served) option" where
  "serve_user_on server_tuple ct d s =
     (if \<not> same_client server_tuple ct then Some (ok (refuse_server d s))
      else if \<not> reply_works d then Some (ok (s, [], error_comm_server, 1))
      else if flag_waiting d then Some (ok (s, [Code OK], [], 2))
      else
        (case follows d of
           None \<Rightarrow> Some (ok (s, [Code OK], error_comm_server, 1))
         | Some c \<Rightarrow>
             run_then (client_list_add (clients s) (first_client s) c) (\<lambda>(h, l).
               let s = s\<lparr>clients := h, first_client := l\<rparr>
               in (case push_when_room (popped_now d) (flag_pushing d) (client_element c) (ring s) of
                     None \<Rightarrow> None
                   | Some (Inl _) \<Rightarrow> Some (ok (s, [Code OK], [], 1))
                   | Some (Inr b) \<Rightarrow> Some (ok (s\<lparr>ring := b\<rparr>, [Code OK], [], 1))))))"

definition serve_user_off :: "client_tuple \<Rightarrow> client_tuple \<Rightarrow> dealing \<Rightarrow> peers_state \<Rightarrow> (fault + served) option" where
  "serve_user_off server_tuple ct d s =
     (if \<not> same_client server_tuple ct then Some (ok (refuse_server d s))
      else if \<not> reply_works d then Some (ok (s, [], error_comm_server, 1))
      else
        (case follows d of
           None \<Rightarrow> Some (ok (s, [Code OK], error_comm_server, 1))
         | Some c \<Rightarrow>
             run_then (delete_from_client_list (clients s) (first_client s) c) (\<lambda>(h, l).
               Some (ok (s\<lparr>clients := h, first_client := l\<rparr>, [Code OK], [], 1)))))"

definition serve_one ::
    "(string \<Rightarrow> nat list) \<Rightarrow> string \<Rightarrow> client_tuple \<Rightarrow> int \<Rightarrow> client_tuple \<Rightarrow> dealing \<Rightarrow> peers_state \<Rightarrow> (fault + served) option" where
  "serve_one md5 dir_path server_tuple received_msg ct d s =
     (if received_msg = GET_FILE_LIST then serve_list md5 dir_path ct d s
      else if received_msg = GET_FILE then serve_file md5 ct d s
      else if received_msg = USER_ON then serve_user_on server_tuple ct d s
      else if received_msg = USER_OFF then serve_user_off server_tuple ct d s
      else Some (ok (s, [], sth_wrong_client, 1)))"

section \<open>The loop\<close>

text \<open>A connection without a whole header is closed; a signal during one of the polls ends the loop.\<close>

datatype connection = Interrupts | No_header | Asks int client_tuple dealing

fun serve_all ::
    "(string \<Rightarrow> nat list) \<Rightarrow> string \<Rightarrow> client_tuple \<Rightarrow> connection list \<Rightarrow> peers_state \<Rightarrow> (fault + peers_state \<times> reply list) option" where
  "serve_all md5 dir_path server_tuple [] s = Some (ok (s, []))"
| "serve_all md5 dir_path server_tuple (Interrupts # cs) s = Some (ok (s, []))"
| "serve_all md5 dir_path server_tuple (No_header # cs) s = serve_all md5 dir_path server_tuple cs s"
| "serve_all md5 dir_path server_tuple (Asks msg ct d # cs) s =
     run_then (serve_one md5 dir_path server_tuple msg ct d s) (\<lambda>(s, replies, printed, closes).
       if flag_after d then Some (ok (s, replies))
       else run_then (serve_all md5 dir_path server_tuple cs s) (\<lambda>(s, more). Some (ok (s, replies @ more))))"

section \<open>Logging off\<close>

text \<open>
  workers\_end says whether all threads return; then connect is tried until it works or a second
  signal arrives.  received is what the last read leaves in received\_msg: the answer, or, when the
  read fails, the message of the last connection.
\<close>

record off_env =
  workers_end :: bool
  off_connects :: "nat \<Rightarrow> bool"
  off_flag :: "nat \<Rightarrow> bool"
  flag_before_write :: bool
  off_writes :: "nat \<Rightarrow> bool"
  off_read :: bool
  received :: int

partial_function (option) connect_loop :: "off_env \<Rightarrow> nat \<Rightarrow> bool option" where
  "connect_loop e k =
     (if off_connects e k then Some True
      else if off_flag e k then Some False
      else connect_loop e (k + 1))"

definition not_normally :: string where "not_normally = ''The client could not log off normally.'' @ nl"

definition log_off :: "off_env \<Rightarrow> client_tuple \<Rightarrow> peers_state \<Rightarrow> (fault + int \<times> string \<times> packet list \<times> client_tuple heap) option" where
  "log_off e this_client s =
     (if \<not> workers_end e then None
      else
        Option.bind (connect_loop e 0) (\<lambda>connected.
          let leave = (\<lambda>code printed sent.
                run_then (free_list (clients s) (first_client s)) (\<lambda>h. Some (ok (code, printed, sent, h))))
          in if \<not> connected then leave 1 (''The client exits without logging off.'' @ nl) []
             else if flag_before_write e then leave 1 not_normally []
             else if \<not> off_writes e 0 then leave 1 not_normally []
             else if \<not> off_writes e 1 then leave 1 not_normally [Msg LOG_OFF]
             else leave 0 ((if off_read e then [] else not_normally)
                    @ (if received e = IP_PORT_NOT_FOUND then not_normally else []) @ ''The client exits.'' @ nl)
                    [Msg LOG_OFF, Tuple this_client]))"

text \<open>The handler of SIGINT sets the flag and wakes all waiting threads.\<close>

definition sig_h :: "threads \<Rightarrow> threads" where
  "sig_h s = s\<lparr>workers := broadcast_nonempty (workers s), main_thread := broadcast_nonfull (main_thread s)\<rparr>"

section \<open>The list the requests work on\<close>

text \<open>The abstract list after one request.\<close>

definition peers_after :: "client_tuple \<Rightarrow> int \<Rightarrow> client_tuple \<Rightarrow> dealing \<Rightarrow> client_tuple list \<Rightarrow> client_tuple list" where
  "peers_after server_tuple msg ct d us =
     (if ct = server_tuple \<and> reply_works d then
        (case follows d of
           None \<Rightarrow> us
         | Some c \<Rightarrow> if msg = USER_ON \<and> \<not> flag_waiting d then us @ [c] else if msg = USER_OFF then remove1 c us else us)
      else us)"

lemma push_when_room_keeps: "push_when_room pops f el b = Some (Inr b') \<Longrightarrow> buffer_ok b \<Longrightarrow> buffer_ok b'"
  using taken_ok [of b pops] by (auto simp: push_when_room_def buffer_push_ok split: if_splits)

definition holds :: "peers_state \<Rightarrow> client_tuple list \<Rightarrow> bool" where
  "holds s us \<longleftrightarrow> represents (clients s) (first_client s) us \<and> buffer_ok (ring s)"

lemma holds_fields: "holds (s\<lparr>clients := h, first_client := l\<rparr>) us \<longleftrightarrow> represents h l us \<and> buffer_ok (ring s)"
  by (simp add: holds_def)

lemma serve_user_on_ok:
  assumes "holds s us"
  shows "(serve_user_on server_tuple ct d s = None \<and> ct = server_tuple \<and> buffer_is_full (taken (popped_now d) (ring s))) \<or> (\<exists>s' replies printed closes.
    serve_user_on server_tuple ct d s = Some (ok (s', replies, printed, closes)) \<and> holds s' (peers_after server_tuple USER_ON ct d us))"
proof (cases "same_client server_tuple ct \<and> reply_works d \<and> \<not> flag_waiting d \<and> follows d \<noteq> None")
  case False
  then show ?thesis using assms
    by (auto simp: serve_user_on_def peers_after_def refuse_server_def message_codes split: option.split)
next
  case True
  then obtain c where c: "follows d = Some c" by blast
  obtain h l where add: "client_list_add (clients s) (first_client s) c = Some (ok (h, l))" "represents h l (us @ [c])"
    using clients.add_law assms unfolding holds_def by blast
  show ?thesis
  proof (cases "push_when_room (popped_now d) (flag_pushing d) (client_element c) (ring s)")
    case None
    then have "buffer_is_full (taken (popped_now d) (ring s))" by (simp add: push_when_room_def split: if_splits)
    then show ?thesis using True c add(1) None by (simp add: serve_user_on_def)
  next
    case (Some r)
    show ?thesis
    proof (cases r)
      case (Inl u)
      then show ?thesis using True c add Some assms by (simp add: serve_user_on_def peers_after_def holds_def)
    next
      case (Inr b)
      then have "buffer_ok b" using push_when_room_keeps Some assms unfolding holds_def by blast
      then show ?thesis using True c add Some Inr by (simp add: serve_user_on_def peers_after_def holds_def)
    qed
  qed
qed

lemma serve_user_off_ok:
  assumes "holds s us"
  shows "\<exists>s' replies printed closes.
    serve_user_off server_tuple ct d s = Some (ok (s', replies, printed, closes)) \<and> holds s' (peers_after server_tuple USER_OFF ct d us)"
proof (cases "same_client server_tuple ct \<and> reply_works d \<and> follows d \<noteq> None")
  case False
  then show ?thesis using assms
    by (auto simp: serve_user_off_def peers_after_def refuse_server_def message_codes split: option.split)
next
  case True
  then obtain c where c: "follows d = Some c" by blast
  obtain h l where "delete_from_client_list (clients s) (first_client s) c = Some (ok (h, l))" "represents h l (remove1 c us)"
    using clients.remove_law assms unfolding holds_def by blast
  then show ?thesis using True c assms
    by (simp add: serve_user_off_def peers_after_def message_codes holds_def)
qed

lemma peers_after_other: "msg \<noteq> USER_ON \<Longrightarrow> msg \<noteq> USER_OFF \<Longrightarrow> peers_after server_tuple msg ct d us = us"
  by (simp add: peers_after_def split: option.split)

text \<open>What a request of another client gets: its list or file only when it is in the list.\<close>

lemma serve_list_known:
  assumes "holds s us"
  shows "serve_list md5 dir_path ct d s =
    (if ct \<notin> set us then Some (ok (refuse_stranger d s))
     else if \<not> reply_works d then Some (ok (s, [], error_comm_client, 1))
     else run_then (send_file_list md5 (found_now d) dir_path (list_writes d)) (\<lambda>(ret, msgs, st).
           Some (ok (s, [Code OK, Listing msgs], if ret \<noteq> 0 then error_list_client else [], 1))))"
  using clients.member_law [of "clients s" "first_client s" us ct] assms by (simp add: serve_list_def holds_def)

lemma serve_file_known:
  assumes "holds s us"
  shows "serve_file md5 ct d s =
    (if ct \<notin> set us then Some (ok (refuse_stranger d s))
     else if \<not> reply_works d then Some (ok (s, [], error_comm_client, 1))
     else (case send_file md5 (open_at d) (head_writes d) (chunk_writes d) (flag_first d) (flag_chunks d) (old_buffer d) (requested d) of
            None \<Rightarrow> None
          | Some (ret, out) \<Rightarrow> Some (ok (s, [Code OK, Transfer out], if ret \<noteq> 0 then error_file_client else [], 1))))"
  using clients.member_law [of "clients s" "first_client s" us ct] assms by (simp add: serve_file_def holds_def)

text \<open>
  The requests from which the client never returns: a list that cannot be made, a file that cannot be
  read, and a notification while the buffer is full and no worker takes anything.
\<close>

definition never_back :: "(string \<Rightarrow> nat list) \<Rightarrow> string \<Rightarrow> client_tuple \<Rightarrow> int \<Rightarrow> client_tuple \<Rightarrow> dealing \<Rightarrow> peers_state \<Rightarrow> client_tuple list \<Rightarrow> bool" where
  "never_back md5 dir_path server_tuple msg ct d s us \<longleftrightarrow>
     (msg = GET_FILE_LIST \<and> ct \<in> set us \<and> send_file_list md5 (found_now d) dir_path (list_writes d) = None) \<or>
     (msg = GET_FILE \<and> ct \<in> set us \<and>
       send_file md5 (open_at d) (head_writes d) (chunk_writes d) (flag_first d) (flag_chunks d) (old_buffer d) (requested d) = None) \<or>
     (msg = USER_ON \<and> ct = server_tuple \<and> buffer_is_full (taken (popped_now d) (ring s)))"

definition fine_or :: "bool \<Rightarrow> (fault \<Rightarrow> bool) \<Rightarrow> (peers_state \<Rightarrow> bool) \<Rightarrow> (fault + served) option \<Rightarrow> bool" where
  "fine_or gone bad good r \<longleftrightarrow>
     (case r of None \<Rightarrow> gone | Some (Inl f) \<Rightarrow> bad f | Some (Inr (s', replies, printed, closes)) \<Rightarrow> good s')"

lemma fine_or_simps [simp]:
  "fine_or gone bad good None \<longleftrightarrow> gone"
  "fine_or gone bad good (Some (crash f)) \<longleftrightarrow> bad f"
  "fine_or gone bad good (Some (ok (s', rest))) \<longleftrightarrow> good s'"
  by (auto simp: fine_or_def split: prod.split)

lemma serve_one_fine:
  assumes "holds s us"
  shows "fine_or (never_back md5 dir_path server_tuple msg ct d s us)
    (\<lambda>f. msg = GET_FILE_LIST \<and> ct \<in> set us \<and> send_file_list md5 (found_now d) dir_path (list_writes d) = Some (crash f))
    (\<lambda>s'. holds s' (peers_after server_tuple msg ct d us)) (serve_one md5 dir_path server_tuple msg ct d s)"
proof -
  consider (list) "msg = GET_FILE_LIST" | (is_file) "msg = GET_FILE" | (on) "msg = USER_ON" | (off) "msg = USER_OFF"
    | (other) "msg \<notin> {GET_FILE_LIST, GET_FILE, USER_ON, USER_OFF}" by blast
  then show ?thesis
  proof cases
    case list
    then have p: "peers_after server_tuple msg ct d us = us" by (intro peers_after_other) (simp_all add: message_codes)
    have "serve_one md5 dir_path server_tuple msg ct d s = serve_list md5 dir_path ct d s"
      using list by (simp add: serve_one_def)
    then show ?thesis unfolding p serve_list_known [OF assms] using list assms
      by (cases "send_file_list md5 (found_now d) dir_path (list_writes d)" rule: option.exhaust)
        (auto simp: refuse_stranger_def run_then_def never_back_def split: sum.split)
  next
    case is_file
    then have p: "peers_after server_tuple msg ct d us = us" by (intro peers_after_other) (simp_all add: message_codes)
    have "serve_one md5 dir_path server_tuple msg ct d s = serve_file md5 ct d s"
      using is_file by (simp add: serve_one_def message_codes)
    then show ?thesis unfolding p serve_file_known [OF assms] using assms
      by (auto simp: refuse_stranger_def never_back_def is_file split: option.split)
  next
    case on
    then have "serve_one md5 dir_path server_tuple msg ct d s = serve_user_on server_tuple ct d s"
      by (simp add: serve_one_def message_codes)
    then show ?thesis using serve_user_on_ok [OF assms, of server_tuple ct d] on by (auto simp: never_back_def)
  next
    case off
    then have "serve_one md5 dir_path server_tuple msg ct d s = serve_user_off server_tuple ct d s"
      by (simp add: serve_one_def message_codes)
    then show ?thesis using serve_user_off_ok [OF assms, of server_tuple ct d] off by auto
  next
    case other
    then have "peers_after server_tuple msg ct d us = us" by (intro peers_after_other) simp_all
    then show ?thesis using other assms by (simp add: serve_one_def)
  qed
qed

text \<open>
  C12: One request does to the client's linked list what it says: only the server's USER\_ON appends
  the client it names, only its USER\_OFF removes one, and every other request leaves the list alone;
  the list stays well formed and the ring buffer valid.  The only fault is that of a file list with
  a path too long for its tuple, asked for by a listed client, and the client comes back from every
  request but those of never\_back.
\<close>

theorem serving_keeps_list:
  assumes "holds s us"
  shows "case serve_one md5 dir_path server_tuple msg ct d s of
      None \<Rightarrow> never_back md5 dir_path server_tuple msg ct d s us
    | Some (Inl f) \<Rightarrow> msg = GET_FILE_LIST \<and> ct \<in> set us \<and> send_file_list md5 (found_now d) dir_path (list_writes d) = Some (crash f)
    | Some (Inr (s', replies, printed, closes)) \<Rightarrow> represents (clients s') (first_client s') (peers_after server_tuple msg ct d us) \<and> buffer_ok (ring s')"
  using serve_one_fine [OF assms, of md5 dir_path server_tuple msg ct d] unfolding fine_or_def holds_def .

text \<open>
  C32: Strangers get nothing: a request for the list or a file from a client that is not listed, and a
  notification that does not come from this client's server, changes nothing and is answered by
  IP\_PORT\_NOT\_FOUND at most.
\<close>

theorem strangers_get_nothing:
  assumes "holds s us"
    and "(msg \<in> {GET_FILE_LIST, GET_FILE} \<and> ct \<notin> set us) \<or> (msg \<in> {USER_ON, USER_OFF} \<and> ct \<noteq> server_tuple)"
  shows "\<exists>replies printed. serve_one md5 dir_path server_tuple msg ct d s = Some (ok (s, replies, printed, 1))
    \<and> replies = (if reply_works d then [Code IP_PORT_NOT_FOUND] else [])"
proof -
  have codes: "GET_FILE \<noteq> GET_FILE_LIST" "USER_ON \<noteq> GET_FILE_LIST" "USER_ON \<noteq> GET_FILE" "USER_OFF \<noteq> GET_FILE_LIST"
      "USER_OFF \<noteq> GET_FILE" "USER_OFF \<noteq> USER_ON" by (simp_all add: message_codes)
  have "serve_one md5 dir_path server_tuple msg ct d s \<in> {Some (ok (refuse_stranger d s)), Some (ok (refuse_server d s))}"
    using assms(2) codes serve_list_known [OF assms(1), of md5 dir_path ct d] serve_file_known [OF assms(1), of md5 ct d]
    by (auto simp: serve_one_def serve_user_on_def serve_user_off_def)
  then show ?thesis by (auto simp: refuse_stranger_def refuse_server_def)
qed

fun said :: "client_tuple \<Rightarrow> connection list \<Rightarrow> client_tuple list \<Rightarrow> client_tuple list" where
  "said server_tuple [] us = us"
| "said server_tuple (Interrupts # cs) us = us"
| "said server_tuple (No_header # cs) us = said server_tuple cs us"
| "said server_tuple (Asks msg ct d # cs) us =
     (let us = peers_after server_tuple msg ct d us in if flag_after d then us else said server_tuple cs us)"

text \<open>The session reaches a request from which the client never comes back.\<close>

fun gets_lost :: "(string \<Rightarrow> nat list) \<Rightarrow> string \<Rightarrow> client_tuple \<Rightarrow> connection list \<Rightarrow> peers_state \<Rightarrow> client_tuple list \<Rightarrow> bool" where
  "gets_lost md5 dir_path server_tuple (No_header # cs) s us = gets_lost md5 dir_path server_tuple cs s us"
| "gets_lost md5 dir_path server_tuple (Asks msg ct d # cs) s us =
     (never_back md5 dir_path server_tuple msg ct d s us \<or>
      (\<exists>s' rest. serve_one md5 dir_path server_tuple msg ct d s = Some (ok (s', rest)) \<and> \<not> flag_after d \<and>
        gets_lost md5 dir_path server_tuple cs s' (peers_after server_tuple msg ct d us)))"
| "gets_lost md5 dir_path server_tuple cs s us = False"

text \<open>
  C33: Whatever connections come in, the loop never breaks the list: it ends with a well-formed list
  that is the old one with what the server said, unless it is stopped by the fault of a file list or
  reaches a request from which it never comes back.
\<close>

theorem session_follows_server:
  assumes "holds s us"
  shows "case serve_all md5 dir_path server_tuple cs s of
      None \<Rightarrow> gets_lost md5 dir_path server_tuple cs s us
    | Some (Inl f) \<Rightarrow> \<exists>ct d. Asks GET_FILE_LIST ct d \<in> set cs \<and> send_file_list md5 (found_now d) dir_path (list_writes d) = Some (crash f)
    | Some (Inr (s', replies)) \<Rightarrow> holds s' (said server_tuple cs us)"
  using assms
proof (induction cs arbitrary: s us)
  case (Cons c cs)
  show ?case
  proof (cases c)
    case Interrupts
    with Cons.prems show ?thesis by simp
  next
    case No_header
    with Cons.IH [OF Cons.prems] show ?thesis by (auto split: option.splits sum.splits)
  next
    case (Asks msg ct d)
    note one = serve_one_fine [OF Cons.prems, of md5 dir_path server_tuple msg ct d]
    show ?thesis
    proof (cases "serve_one md5 dir_path server_tuple msg ct d s")
      case None
      with one have "never_back md5 dir_path server_tuple msg ct d s us" by simp
      with None Asks Cons.prems show ?thesis by auto
    next
      case (Some r)
      show ?thesis
      proof (cases r)
        case (Inl f)
        with one Some Asks show ?thesis by auto
      next
        case (Inr x)
        obtain s1 replies printed closes where x: "x = (s1, replies, printed, closes)" by (cases x)
        then have h: "holds s1 (peers_after server_tuple msg ct d us)" using one Some Inr by simp
        from Cons.IH [OF this] h Some Inr x Asks show ?thesis
          by (cases "serve_all md5 dir_path server_tuple cs s1") (auto simp: Let_def run_then_def split: sum.splits)
      qed
    qed
  qed
qed simp

lemma connect_loop_works: "off_connects e n \<Longrightarrow> \<forall>k < n. \<not> off_flag e k \<Longrightarrow> k \<le> n \<Longrightarrow> connect_loop e k = Some True"
proof (induction "n - k" arbitrary: k)
  case 0
  then show ?case by (simp add: connect_loop.simps)
next
  case (Suc m)
  then have "connect_loop e (k + 1) = Some True" by (intro Suc.hyps(1)) simp_all
  with Suc show ?case by (simp add: connect_loop.simps [of e k])
qed

text \<open>
  C34: Leaving.  Once its threads have returned and a connection to the server succeeds before a second
  signal, a client whose writes work logs off, exits with 0, and has freed its list; the server that
  gets these two messages removes exactly this client.
\<close>

theorem log_off_arrives:
  assumes "holds s us" "workers_end e" "off_connects e n" "\<forall>k < n. \<not> off_flag e k" "\<not> flag_before_write e" "\<forall>k. off_writes e k"
    and "server_ok sv ts"
  shows "\<exists>printed h sv' out. log_off e this_client s = Some (ok (0, printed, [Msg LOG_OFF, Tuple this_client], h)) \<and>
    cells h = Map.empty \<and> handle_request server_tuple env LOG_OFF this_client sv = Some (ok (sv', out)) \<and>
    server_ok sv' (remove1 this_client ts)"
proof -
  have "represents (clients s) (first_client s) us" using assms(1) by (simp add: holds_def)
  then obtain h where h: "free_list (clients s) (first_client s) = Some (ok h)" "cells h = Map.empty"
    using free_list_correct by blast
  have "connect_loop e 0 = Some True" using connect_loop_works [OF assms(3,4)] by simp
  then have "\<exists>printed. log_off e this_client s = Some (ok (0, printed, [Msg LOG_OFF, Tuple this_client], h))"
    using assms(2,5,6) h(1) by (simp add: log_off_def Let_def)
  moreover have "\<exists>sv' out. handle_request server_tuple env LOG_OFF this_client sv = Some (ok (sv', out)) \<and>
      server_ok sv' (remove1 this_client ts)"
    using handle_request_ok [OF assms(7), of server_tuple env LOG_OFF this_client] by (simp add: registry_after_def message_codes)
  ultimately show ?thesis using h(2) by blast
qed

section \<open>Witnesses\<close>

definition sample_dealing :: dealing where
  "sample_dealing = \<lparr> reply_works = True, found_now = (\<lambda>k. \<lparr> opens_dir = (\<lambda>q. True), opens_file = (\<lambda>q. True), entries = [] \<rparr>),
     list_writes = (\<lambda>k. True), open_at = (\<lambda>p. None), head_writes = (\<lambda>k. True), flag_first = False, chunk_writes = (\<lambda>k. True),
     flag_chunks = (\<lambda>k. False), old_buffer = [], requested = None, flag_waiting = False, follows = Some (client_at 3), popped_now = 0,
     flag_pushing = False, flag_after = False \<rparr>"

lemma no_peers_hold: "holds no_peers []"
proof -
  have "buffer_ok (buffer_init 2 :: element_t buffer_t)" by (rule conjunct1 [OF buffer_init_ok]) simp
  then show ?thesis using no_clients_ok by (simp add: holds_def no_peers_def)
qed

lemma sample_user_on:
  "\<exists>s' printed. serve_one md5 ''d'' (client_at 0) USER_ON (client_at 0) sample_dealing no_peers = Some (ok (s', [Code OK], printed, 1))"
  by (simp add: serve_one_def serve_user_on_def message_codes sample_dealing_def no_peers_def client_list_add_def
      push_when_room_def buffer_is_full_def buffer_init_def Let_def)

theorem serving_keeps_list_witness:
  "\<exists>s' replies printed closes. serve_one (\<lambda>s. []) ''d'' (client_at 0) USER_ON (client_at 0) sample_dealing no_peers
     = Some (ok (s', replies, printed, closes)) \<and> represents (clients s') (first_client s') [client_at 3]"
  using serving_keeps_list [where ?md5.0 = "\<lambda>s. []" and dir_path = "''d''" and server_tuple = "client_at 0" and msg = USER_ON
      and ct = "client_at 0" and d = sample_dealing, OF no_peers_hold] sample_user_on [of "\<lambda>s. []"]
  by (auto simp: peers_after_def sample_dealing_def)

theorem strangers_get_nothing_witness:
  "\<exists>printed. serve_one (\<lambda>s. []) ''d'' (client_at 0) GET_FILE (client_at 1) sample_dealing no_peers
     = Some (ok (no_peers, [Code IP_PORT_NOT_FOUND], printed, 1))"
  using strangers_get_nothing [OF no_peers_hold, of GET_FILE "client_at 1" "client_at 0" "\<lambda>s. []" "''d''" sample_dealing]
  by (auto simp: sample_dealing_def)

theorem session_follows_server_witness:
  "\<exists>s' replies. serve_all (\<lambda>s. []) ''d'' (client_at 0) [No_header, Asks USER_ON (client_at 0) sample_dealing] no_peers
     = Some (ok (s', replies)) \<and> holds s' [client_at 3]"
proof -
  let ?cs = "[No_header, Asks USER_ON (client_at 0) sample_dealing]"
  obtain s' where "serve_all (\<lambda>s. []) ''d'' (client_at 0) ?cs no_peers = Some (ok (s', [Code OK]))"
    using sample_user_on [of "\<lambda>s. []"] by (auto simp: sample_dealing_def)
  with session_follows_server [where ?md5.0 = "\<lambda>s. []" and dir_path = "''d''" and server_tuple = "client_at 0" and cs = ?cs, OF no_peers_hold] show ?thesis
    by (auto simp: peers_after_def sample_dealing_def message_codes)
qed

theorem log_off_arrives_witness:
  "\<exists>printed h. log_off \<lparr> workers_end = True, off_connects = (\<lambda>k. k = 2), off_flag = (\<lambda>k. False), flag_before_write = False,
      off_writes = (\<lambda>k. True), off_read = True, received = SUCC_LOG_OFF \<rparr> (client_at 1) no_peers
    = Some (ok (0, printed, [Msg LOG_OFF, Tuple (client_at 1)], h))"
  using log_off_arrives [OF no_peers_hold, of "\<lparr> workers_end = True, off_connects = (\<lambda>k. k = 2), off_flag = (\<lambda>k. False),
      flag_before_write = False, off_writes = (\<lambda>k. True), off_read = True, received = SUCC_LOG_OFF \<rparr>" 2 two_clients
      "[client_at 1, client_at 2]" "client_at 1" "client_at 0" fine] two_clients_ok
  by auto

end
