(* ===== verification/Network.thy ===== *)
theory Network
  imports ClientServe
begin

text \<open>
  The dropbox server and its clients together (SysPro\_Project3/src/dropbox\_server.c and
  dropbox\_client.c): which of them waits for which.  The server deals with one connection after the
  other, and while it notifies the listed clients of a newcomer or of one that left it waits for the
  approval of each.  A client approves only in its main loop; before that it waits for the server's
  answers to LOG\_ON and GET\_CLIENTS, and after it for the answer to LOG\_OFF.  Connections wait in the
  order in which they were made.  Clients that are interrupted are in NetworkSignals.
\<close>

section \<open>States\<close>

datatype phase =
    Off            \<comment> \<open>not started\<close>
  | Waits_tuple    \<comment> \<open>has sent LOG_ON\<close>
  | Waits_list     \<comment> \<open>has sent GET_CLIENTS\<close>
  | Listening        \<comment> \<open>in its main loop\<close>
  | Leaving        \<comment> \<open>has sent LOG_OFF\<close>
  | Gone

datatype server_at =
    Accepting
  | Notifying int client_tuple "client_tuple list"   \<comment> \<open>the message, the client it is about, those still to be told\<close>

record network =
  phase_of :: "client_tuple \<Rightarrow> phase"
  queue :: "(int \<times> client_tuple) list"
  server_at :: server_at
  registered :: "client_tuple list"

definition goes :: "client_tuple \<Rightarrow> phase \<Rightarrow> network \<Rightarrow> network" where
  "goes c p s = s\<lparr>phase_of := (phase_of s)(c := p)\<rparr>"

definition sends_request :: "int \<Rightarrow> client_tuple \<Rightarrow> network \<Rightarrow> network" where
  "sends_request msg c s = s\<lparr>queue := queue s @ [(msg, c)]\<rparr>"

section \<open>Steps\<close>

text \<open>
  The server takes a request.  Its list changes as in Server; a client that is refused ends, one
  that logs off is answered before the others are told.
\<close>

definition answers :: "int \<Rightarrow> client_tuple \<Rightarrow> network \<Rightarrow> network" where
  "answers msg c s =
     (if msg = LOG_ON then
        if c \<in> set (registered s) then goes c Gone s
        else s\<lparr>registered := registry_after LOG_ON c (registered s), server_at := Notifying USER_ON c (registered s)\<rparr>
      else if msg = GET_CLIENTS then goes c (if c \<in> set (registered s) then Listening else Gone) s
      else if c \<notin> set (registered s) then goes c Gone s
      else
        let rest = registry_after LOG_OFF c (registered s)
        in goes c Gone (s\<lparr>registered := rest, server_at := Notifying USER_OFF c rest\<rparr>))"

text \<open>All were told: a newcomer gets the server's tuple and asks for the list.\<close>

definition all_told :: "int \<Rightarrow> client_tuple \<Rightarrow> network \<Rightarrow> network" where
  "all_told msg c s =
     (let s = s\<lparr>server_at := Accepting\<rparr>
      in if msg = USER_ON then goes c Waits_list (sends_request GET_CLIENTS c s) else s)"

inductive server_step :: "network \<Rightarrow> network \<Rightarrow> bool" where
  accepts: "server_at s = Accepting \<Longrightarrow> queue s = (msg, c) # q \<Longrightarrow> server_step s (answers msg c (s\<lparr>queue := q\<rparr>))"
| approves: "server_at s = Notifying msg c (t # ts) \<Longrightarrow> phase_of s t = Listening \<Longrightarrow>
    server_step s (s\<lparr>server_at := Notifying msg c ts\<rparr>)"
| not_reached: "server_at s = Notifying msg c (t # ts) \<Longrightarrow> phase_of s t = Gone \<Longrightarrow>
    server_step s (s\<lparr>server_at := Notifying msg c ts\<rparr>)"
| ends: "server_at s = Notifying msg c [] \<Longrightarrow> server_step s (all_told msg c s)"

inductive client_step :: "network \<Rightarrow> network \<Rightarrow> bool" where
  starts: "phase_of s c = Off \<Longrightarrow> client_step s (goes c Waits_tuple (sends_request LOG_ON c s))"
| leaves: "phase_of s c = Listening \<Longrightarrow> client_step s (goes c Leaving (sends_request LOG_OFF c s))"

definition net_step :: "network \<Rightarrow> network \<Rightarrow> bool" where
  "net_step s s' \<longleftrightarrow> server_step s s' \<or> client_step s s'"

inductive_cases server_stepE: "server_step s s'"
inductive_cases client_stepE: "client_step s s'"

definition nobody :: network where
  "nobody = \<lparr> phase_of = (\<lambda>c. Off), queue = [], server_at = Accepting, registered = [] \<rparr>"

abbreviation reachable :: "network \<Rightarrow> bool" where "reachable s \<equiv> net_step\<^sup>*\<^sup>* nobody s"

section \<open>Who waits for what\<close>

text \<open>
  Every client has at most one request on its way, and the phase says which; the clients the server
  still has to tell are listed or gone.
\<close>

definition request_of :: "phase \<Rightarrow> int option" where
  "request_of p = (case p of Waits_tuple \<Rightarrow> Some LOG_ON | Waits_list \<Rightarrow> Some GET_CLIENTS | Leaving \<Rightarrow> Some LOG_OFF | _ \<Rightarrow> None)"

definition newcomer :: "network \<Rightarrow> client_tuple option" where
  "newcomer s = (case server_at s of Notifying msg c ts \<Rightarrow> if msg = USER_ON then Some c else None | Accepting \<Rightarrow> None)"

definition waiting_ok :: "network \<Rightarrow> bool" where
  "waiting_ok s \<longleftrightarrow> distinct (map snd (queue s)) \<and>
     (\<forall>c. newcomer s = Some c \<longrightarrow> phase_of s c = Waits_tuple \<and> c \<notin> snd ` set (queue s)) \<and>
     (\<forall>msg c. (msg, c) \<in> set (queue s) \<longleftrightarrow> newcomer s \<noteq> Some c \<and> request_of (phase_of s c) = Some msg) \<and>
     (\<forall>msg c ts. server_at s = Notifying msg c ts \<longrightarrow> c \<notin> set ts \<and> (\<forall>t \<in> set ts. phase_of s t \<notin> {Off, Waits_tuple})) \<and>
     (\<forall>c. phase_of s c \<in> {Waits_list, Listening, Leaving} \<or> newcomer s = Some c \<longleftrightarrow> c \<in> set (registered s)) \<and>
     distinct (registered s)"

lemma code_neqs: "LOG_ON \<noteq> GET_CLIENTS" "LOG_ON \<noteq> LOG_OFF" "GET_CLIENTS \<noteq> LOG_OFF" "USER_ON \<noteq> USER_OFF"
    "GET_CLIENTS \<noteq> LOG_ON" "LOG_OFF \<noteq> LOG_ON" "LOG_OFF \<noteq> GET_CLIENTS" "USER_OFF \<noteq> USER_ON"
  by (simp_all add: message_codes)

lemma request_of_simps [simp]:
  "request_of Off = None" "request_of Waits_tuple = Some LOG_ON" "request_of Waits_list = Some GET_CLIENTS"
  "request_of Listening = None" "request_of Leaving = Some LOG_OFF" "request_of Gone = None"
  by (simp_all add: request_of_def)

lemma newcomer_simps [simp]:
  "server_at s = Accepting \<Longrightarrow> newcomer s = None"
  "server_at s = Notifying msg c ts \<Longrightarrow> newcomer s = (if msg = USER_ON then Some c else None)"
  by (simp_all add: newcomer_def)

lemma goes_fields [simp]:
  "phase_of (goes c p s) = (phase_of s)(c := p)" "queue (goes c p s) = queue s" "server_at (goes c p s) = server_at s"
  "registered (goes c p s) = registered s" "newcomer (goes c p s) = newcomer s"
  by (simp_all add: goes_def newcomer_def)

lemma sends_fields [simp]:
  "phase_of (sends_request m c s) = phase_of s" "queue (sends_request m c s) = queue s @ [(m, c)]"
  "server_at (sends_request m c s) = server_at s" "registered (sends_request m c s) = registered s"
  "newcomer (sends_request m c s) = newcomer s"
  by (simp_all add: sends_request_def newcomer_def)

lemma registry_simps: "registry_after LOG_ON c ts = (if c \<in> set ts then ts else ts @ [c])" "registry_after LOG_OFF c ts = remove1 c ts"
  by (auto simp: registry_after_def code_neqs remove1_idem)

lemma waiting_start: "waiting_ok nobody"
  by (simp add: waiting_ok_def nobody_def)

lemma client_step_ok: "client_step s s' \<Longrightarrow> waiting_ok s \<Longrightarrow> waiting_ok s'"
proof (induction rule: client_step.induct)
  case (starts s c)
  then have c: "c \<notin> snd ` set (queue s)" "newcomer s \<noteq> Some c" by (auto simp: waiting_ok_def)
  have "phase_of s c \<in> {Waits_list, Listening, Leaving} \<or> newcomer s = Some c \<longleftrightarrow> c \<in> set (registered s)"
    using starts(2) unfolding waiting_ok_def by blast
  then have "c \<notin> set (registered s)" using starts(1) c(2) by simp
  with starts c show ?case by (auto simp: waiting_ok_def)
next
  case (leaves s c)
  then have c: "c \<notin> snd ` set (queue s)" "newcomer s \<noteq> Some c" by (auto simp: waiting_ok_def)
  have "phase_of s c \<in> {Waits_list, Listening, Leaving} \<or> newcomer s = Some c \<longleftrightarrow> c \<in> set (registered s)"
    using leaves(2) unfolding waiting_ok_def by blast
  then have "c \<in> set (registered s)" using leaves(1) by simp
  with leaves c show ?case by (auto simp: waiting_ok_def)
qed

text \<open>What is known of the first request of the queue.\<close>

lemma first_request:
  assumes "waiting_ok s" "server_at s = Accepting" "queue s = (msg, c) # q"
  shows "request_of (phase_of s c) = Some msg" "c \<notin> snd ` set q" "distinct (map snd q)"
    "(m, d) \<in> set q \<longleftrightarrow> d \<noteq> c \<and> request_of (phase_of s d) = Some m"
    "d \<in> set (registered s) \<longleftrightarrow> phase_of s d \<in> {Waits_list, Listening, Leaving}" "distinct (registered s)"
proof -
  have w: "distinct (map snd (queue s))" "\<And>m d. (m, d) \<in> set (queue s) \<longleftrightarrow> request_of (phase_of s d) = Some m"
      "\<And>d. phase_of s d \<in> {Waits_list, Listening, Leaving} \<longleftrightarrow> d \<in> set (registered s)" "distinct (registered s)"
    using assms(1,2) by (auto simp: waiting_ok_def)
  show "request_of (phase_of s c) = Some msg" using w(2) [of msg c] assms(3) by simp
  show c: "c \<notin> snd ` set q" "distinct (map snd q)" using w(1) assms(3) by auto
  show "d \<in> set (registered s) \<longleftrightarrow> phase_of s d \<in> {Waits_list, Listening, Leaving}" using w(3) by simp
  show "distinct (registered s)" by (rule w(4))
  show "(m, d) \<in> set q \<longleftrightarrow> d \<noteq> c \<and> request_of (phase_of s d) = Some m"
    using w(2) [of m d] assms(3) c(1) \<open>request_of (phase_of s c) = Some msg\<close> by force
qed

lemma answers_ok:
  assumes "waiting_ok s" "server_at s = Accepting" "queue s = (msg, c) # q"
  shows "waiting_ok (answers msg c (s\<lparr>queue := q\<rparr>))"
proof -
  note f = first_request [OF assms]
  have p: "(phase_of s c = Waits_tuple \<and> msg = LOG_ON) \<or> (phase_of s c = Waits_list \<and> msg = GET_CLIENTS)
      \<or> (phase_of s c = Leaving \<and> msg = LOG_OFF)"
    using f(1) by (cases "phase_of s c") simp_all
  then show ?thesis
  proof (elim disjE conjE)
    assume on: "phase_of s c = Waits_tuple" "msg = LOG_ON"
    then have "c \<notin> set (registered s)" using f(5) [of c] by simp
    then show ?thesis using f on by (auto simp: waiting_ok_def answers_def registry_simps newcomer_def)
  next
    assume get: "phase_of s c = Waits_list" "msg = GET_CLIENTS"
    then have "c \<in> set (registered s)" using f(5) [of c] by simp
    then show ?thesis using f get assms(2) by (auto simp: waiting_ok_def answers_def code_neqs newcomer_def)
  next
    assume off: "phase_of s c = Leaving" "msg = LOG_OFF"
    then have "c \<in> set (registered s)" using f(5) [of c] by simp
    then show ?thesis using f off
      by (auto simp: waiting_ok_def answers_def code_neqs registry_simps newcomer_def Let_def set_remove1_eq)
  qed
qed

lemma all_told_ok:
  assumes "waiting_ok s" "server_at s = Notifying msg c []"
  shows "waiting_ok (all_told msg c s)"
  using assms by (auto simp: waiting_ok_def all_told_def Let_def newcomer_def sends_request_def goes_def image_iff)

lemma told_one_ok:
  assumes "waiting_ok s" "server_at s = Notifying msg c (t # ts)"
  shows "waiting_ok (s\<lparr>server_at := Notifying msg c ts\<rparr>)"
  using assms by (auto simp: waiting_ok_def newcomer_def)

lemma server_step_ok: "server_step s s' \<Longrightarrow> waiting_ok s \<Longrightarrow> waiting_ok s'"
  by (induction rule: server_step.induct) (auto intro: answers_ok all_told_ok told_one_ok)

lemma reachable_ok: "reachable s \<Longrightarrow> waiting_ok s"
  by (induction rule: rtranclp_induct) (auto simp: waiting_start net_step_def intro: server_step_ok client_step_ok)

section \<open>The server's functions do what the steps say\<close>

text \<open>What a request makes the server say to clients other than the one that sent it.\<close>

definition notifications :: "sent \<Rightarrow> sent" where
  "notifications out = filter (\<lambda>(d, p). d \<noteq> Requester) out"

lemma notifications_simps [simp]:
  "notifications [] = []" "notifications ((Requester, p) # out) = notifications out"
  "notifications (out @ out') = notifications out @ notifications out'"
  "notifications (map (\<lambda>t. (Requester, f t)) us) = []"
  "notifications (visit x msg srv c t) = visit x msg srv c t"
  "notifications (concat (map (visit x msg srv c) us)) = concat (map (visit x msg srv c) us)"
  by (auto simp: notifications_def visit_def filter_concat o_def filter_empty_conv intro!: filter_True arg_cong [of _ _ concat])

definition still_to_tell :: "client_tuple \<Rightarrow> network \<Rightarrow> sent" where
  "still_to_tell server_tuple s =
     (case server_at s of Accepting \<Rightarrow> [] | Notifying msg c ts \<Rightarrow> concat (map (visit Completed msg server_tuple c) ts))"

lemma visits_of_log_on:
  "(\<lambda>t. [(Client t, Msg USER_ON), (Client t, Tuple server_tuple), (Client t, Tuple c)]) = visit Completed USER_ON server_tuple c"
  by (simp add: visit_def exchange_sends_def fun_eq_iff)

text \<open>A client that logs on although it is listed, or off although it is not, is answered and nobody is told.\<close>

lemma refused_requests:
  assumes "server_ok sv ts" "\<forall>k. surroundings.writes env k"
  shows "c \<in> set ts \<Longrightarrow> handle_request server_tuple env LOG_ON c sv = Some (ok (sv, []))"
    and "c \<notin> set ts \<Longrightarrow> handle_request server_tuple env LOG_OFF c sv = Some (ok (sv, [(Requester, Msg IP_PORT_NOT_FOUND)]))"
proof -
  have "in_client_list (s_heap sv) (c_list sv) c = Some (ok (c \<in> set ts))"
    using clients.member_law assms(1) unfolding server_ok_def by blast
  then show "c \<in> set ts \<Longrightarrow> handle_request server_tuple env LOG_ON c sv = Some (ok (sv, []))"
    "c \<notin> set ts \<Longrightarrow> handle_request server_tuple env LOG_OFF c sv = Some (ok (sv, [(Requester, Msg IP_PORT_NOT_FOUND)]))"
    using assms(2) by (simp_all add: handle_request_def Let_def code_neqs)
qed

lemma request_tells:
  assumes "server_ok sv (registered s)" "server_at s = Accepting" "msg \<in> {LOG_ON, GET_CLIENTS, LOG_OFF}"
    and "\<forall>t. surroundings.peers env t = Completed" "\<forall>k. surroundings.writes env k" "\<not> server.term_flag sv" "\<not> surroundings.signalled env"
    and "handle_request server_tuple env msg c sv = Some (ok (sv', out))"
  shows "notifications out = still_to_tell server_tuple (answers msg c s)"
proof -
  note refused = refused_requests [OF assms(1,5), of c server_tuple]
  consider (on) "msg = LOG_ON" "c \<notin> set (registered s)" | (on_again) "msg = LOG_ON" "c \<in> set (registered s)" | (get) "msg = GET_CLIENTS"
    | (off) "msg = LOG_OFF" "c \<in> set (registered s)" | (off_again) "msg = LOG_OFF" "c \<notin> set (registered s)"
    using assms(3) by blast
  then show ?thesis
  proof cases
    case on
    from log_on_notifies_all [OF assms(1) on(2) assms(4) _ assms(6,7), of server_tuple] assms(5,8) on(1)
    have "out = concat (map (visit Completed USER_ON server_tuple c) (registered s)) @ [(Requester, Tuple server_tuple)]"
      by (auto simp: visits_of_log_on)
    then show ?thesis using on by (simp add: answers_def still_to_tell_def)
  next
    case on_again
    then show ?thesis using refused(1) assms(2,8) by (simp add: answers_def still_to_tell_def)
  next
    case get
    then show ?thesis using client_list_answer [OF assms(1,5), of server_tuple c] assms(2,8)
      by (auto simp: answers_def still_to_tell_def code_neqs split: if_splits)
  next
    case off
    from log_off_notifies_all [OF assms(1) off(2) assms(4), of server_tuple] assms(5,8) off(1)
    have "out = (Requester, Msg SUCC_LOG_OFF) # concat (map (visit Completed USER_OFF server_tuple c) (remove1 c (registered s)))"
      by auto
    then show ?thesis using off by (simp add: answers_def still_to_tell_def code_neqs Let_def registry_simps)
  next
    case off_again
    then have "out = [(Requester, Msg IP_PORT_NOT_FOUND)]" using refused(2) assms(8) by simp
    then show ?thesis using off_again assms(2) by (simp add: answers_def still_to_tell_def code_neqs)
  qed
qed

text \<open>
  C11: The steps of the server are those of dropbox\_server.c.  When the linked list of the server
  represents the clients of the network, and no signal or failing write disturbs it, serving the first
  request of the queue ends without a fault, the linked list then represents the clients of the network
  after the step, and the server has told exactly those the step says, in their order.
\<close>

theorem requests_refine_network:
  assumes "server_ok sv (registered s)" "server_at s = Accepting" "queue s = (msg, c) # q" "msg \<in> {LOG_ON, GET_CLIENTS, LOG_OFF}"
    and "\<forall>t. surroundings.peers env t = Completed" "\<forall>k. surroundings.writes env k" "\<not> server.term_flag sv" "\<not> surroundings.signalled env"
  shows "\<exists>sv' out. handle_request server_tuple env msg c sv = Some (ok (sv', out)) \<and>
    server_ok sv' (registered (answers msg c (s\<lparr>queue := q\<rparr>))) \<and>
    notifications out = still_to_tell server_tuple (answers msg c (s\<lparr>queue := q\<rparr>))"
proof -
  let ?s = "s\<lparr>queue := q\<rparr>"
  have "registered (answers msg c ?s) = registry_after msg c (registered s)"
    using assms(4) by (auto simp: answers_def registry_simps code_neqs Let_def registry_after_def remove1_idem)
  moreover obtain sv' out where run: "handle_request server_tuple env msg c sv = Some (ok (sv', out))"
      "server_ok sv' (registry_after msg c (registered s))"
    using handle_request_ok [OF assms(1)] by blast
  moreover have "notifications out = still_to_tell server_tuple (answers msg c ?s)"
    by (rule request_tells [OF _ _ assms(4-8) run(1)]) (simp_all add: assms(1,2))
  ultimately show ?thesis by auto
qed

definition third_asks :: network where
  "third_asks = \<lparr> phase_of = (\<lambda>c. if c = client_at 3 then Waits_tuple else if c = client_at 1 \<or> c = client_at 2 then Listening else Off),
     queue = [(LOG_ON, client_at 3)], server_at = Accepting, registered = [client_at 1, client_at 2] \<rparr>"

theorem requests_refine_network_witness:
  "\<exists>sv' out. handle_request (client_at 0) fine LOG_ON (client_at 3) two_clients = Some (ok (sv', out)) \<and>
    server_ok sv' [client_at 1, client_at 2, client_at 3] \<and> length (notifications out) = 6"
proof -
  have "client_at 3 \<noteq> client_at 1" "client_at 3 \<noteq> client_at 2" by (simp_all add: client_at_def)
  then have after: "registered (answers LOG_ON (client_at 3) (third_asks\<lparr>queue := []\<rparr>)) = [client_at 1, client_at 2, client_at 3]"
      "length (still_to_tell (client_at 0) (answers LOG_ON (client_at 3) (third_asks\<lparr>queue := []\<rparr>))) = 6"
    by (simp_all add: third_asks_def answers_def registry_simps still_to_tell_def visit_def exchange_sends_def)
  show ?thesis
    using requests_refine_network [of two_clients third_asks LOG_ON "client_at 3" "[]" fine "client_at 0"] two_clients_ok after
    by (auto simp: third_asks_def fine_def two_clients_def)
qed

section \<open>When the server stops\<close>

definition stuck :: "network \<Rightarrow> bool" where
  "stuck s \<longleftrightarrow> (\<exists>msg c t ts. server_at s = Notifying msg c (t # ts) \<and> phase_of s t \<in> {Waits_list, Leaving})"


lemma stuck_step: "stuck s \<Longrightarrow> \<not> server_step s s'"
  by (auto simp: stuck_def elim!: server_stepE)

lemma stuck_net_step:
  assumes "stuck s" "net_step s s'"
  shows "stuck s' \<and> server_at s' = server_at s \<and> (\<forall>c. phase_of s c \<in> {Waits_tuple, Waits_list, Leaving} \<longrightarrow> phase_of s' c = phase_of s c)"
proof -
  have "client_step s s'" using assms stuck_step by (auto simp: net_step_def)
  then show ?thesis using assms(1) by (cases rule: client_stepE) (auto simp: stuck_def)
qed


definition two_starting :: network where
  "two_starting = \<lparr> phase_of = (\<lambda>c. if c = client_at 1 then Waits_list else if c = client_at 2 then Waits_tuple else Off),
     queue = [(GET_CLIENTS, client_at 1)], server_at = Notifying USER_ON (client_at 2) [client_at 1],
     registered = [client_at 1, client_at 2] \<rparr>"

lemma two_starting_reachable: "reachable two_starting \<and> server_at two_starting = Notifying USER_ON (client_at 2) [client_at 1]
    \<and> phase_of two_starting (client_at 1) = Waits_list"
proof -
  have neq: "client_at 1 \<noteq> client_at 2" by (simp add: client_at_def)
  let ?a = "client_at 1" and ?b = "client_at 2"
  define s1 where "s1 = goes ?a Waits_tuple (sends_request LOG_ON ?a nobody)"
  define s2 where "s2 = answers LOG_ON ?a (s1\<lparr>queue := []\<rparr>)"
  define s3 where "s3 = goes ?b Waits_tuple (sends_request LOG_ON ?b s2)"
  define s4 where "s4 = all_told USER_ON ?a s3"
  define s5 where "s5 = answers LOG_ON ?b (s4\<lparr>queue := [(GET_CLIENTS, ?a)]\<rparr>)"
  note d = s1_def s2_def s3_def s4_def s5_def nobody_def goes_def sends_request_def answers_def all_told_def Let_def registry_simps
  have "net_step nobody s1" unfolding net_step_def s1_def by (intro disjI2 starts) (simp add: nobody_def)
  moreover have "server_at s1 = Accepting" "queue s1 = [(LOG_ON, ?a)]" by (simp_all add: d)
  then have "net_step s1 s2" unfolding net_step_def s2_def by (intro disjI1 accepts)
  moreover have "phase_of s2 ?b = Off" using neq by (simp add: d)
  then have "net_step s2 s3" unfolding net_step_def s3_def by (intro disjI2 starts)
  moreover have "server_at s3 = Notifying USER_ON ?a []" by (simp add: d)
  then have "net_step s3 s4" unfolding net_step_def s4_def by (intro disjI1 ends)
  moreover have "server_at s4 = Accepting" "queue s4 = (LOG_ON, ?b) # [(GET_CLIENTS, ?a)]" by (simp_all add: d)
  then have "net_step s4 s5" unfolding net_step_def s5_def by (intro disjI1 accepts)
  ultimately have "reachable s5" by (meson rtranclp.rtrancl_refl rtranclp.rtrancl_into_rtrancl)
  moreover have "phase_of s5 = phase_of two_starting" using neq by (auto simp: d two_starting_def fun_eq_iff)
  then have "s5 = two_starting" using neq by (simp add: d two_starting_def)
  ultimately show ?thesis by (simp add: two_starting_def)
qed

definition third_starts :: network where
  "third_starts = goes (client_at 3) Waits_tuple (sends_request LOG_ON (client_at 3) two_starting)"



section \<open>One at a time\<close>

definition calm :: "network \<Rightarrow> bool" where
  "calm s \<longleftrightarrow> waiting_ok s \<and> server_at s = Accepting \<and> queue s = []"

lemma tells_all:
  "server_at s = Notifying msg c ts \<Longrightarrow> \<forall>t \<in> set ts. phase_of s t = Listening \<Longrightarrow>
    server_step\<^sup>*\<^sup>* s (s\<lparr>server_at := Notifying msg c []\<rparr>)"
proof (induction ts arbitrary: s)
  case (Cons t ts)
  let ?s = "s\<lparr>server_at := Notifying msg c ts\<rparr>"
  have "server_step s ?s" using approves [OF Cons.prems(1)] Cons.prems(2) by simp
  moreover have "server_step\<^sup>*\<^sup>* ?s (?s\<lparr>server_at := Notifying msg c []\<rparr>)" by (rule Cons.IH) (use Cons.prems in auto)
  ultimately show ?case by simp
next
  case Nil
  then have "s\<lparr>server_at := Notifying msg c []\<rparr> = s" by simp
  then show ?case by simp
qed



end
