(* ===== verification/NetworkSignals.thy ===== *)
theory NetworkSignals
  imports Network
begin

text \<open>
  The dropbox server and its clients (SysPro_Project3/src/dropbox_server.c, dropbox_client.c) when
  clients are interrupted and started again.  SIGINT ends a client that waits for an answer to LOG_ON
  or GET_CLIENTS at once, without LOG_OFF (dropbox_client.c, the tests of term_flag in main before its
  loop); one that waits for the answer to LOG_OFF stays in read.  A connection outlives the client that
  made it, so every request carries whether its sender still waits.
\<close>

section \<open>States\<close>

datatype serving =
    Free
  | Telling int client_tuple bool "client_tuple list"   \<comment> \<open>the bool: does a newcomer still wait?\<close>

record wild =
  doing :: "client_tuple \<Rightarrow> phase"
  requests :: "(int \<times> client_tuple \<times> bool) list"
  serving :: serving
  listed :: "client_tuple list"

definition becomes :: "client_tuple \<Rightarrow> phase \<Rightarrow> wild \<Rightarrow> wild" where
  "becomes c p s = s\<lparr>doing := (doing s)(c := p)\<rparr>"

definition asks_server :: "int \<Rightarrow> client_tuple \<Rightarrow> wild \<Rightarrow> wild" where
  "asks_server msg c s = s\<lparr>requests := requests s @ [(msg, c, True)]\<rparr>"

definition answered :: "client_tuple \<Rightarrow> bool \<Rightarrow> phase \<Rightarrow> wild \<Rightarrow> wild" where
  "answered c still p s = (if still then becomes c p s else s)"

section \<open>Steps\<close>

definition takes :: "int \<Rightarrow> client_tuple \<Rightarrow> bool \<Rightarrow> wild \<Rightarrow> wild" where
  "takes msg c still s =
     (if msg = LOG_ON then
        if c \<in> set (listed s) then answered c still Gone s
        else s\<lparr>listed := listed s @ [c], serving := Telling USER_ON c still (listed s)\<rparr>
      else if msg = GET_CLIENTS then answered c still (if c \<in> set (listed s) then Listening else Gone) s
      else if c \<notin> set (listed s) then answered c still Gone s
      else
        let rest = remove1 c (listed s)
        in answered c still Gone (s\<lparr>listed := rest, serving := Telling USER_OFF c still rest\<rparr>))"

definition through :: "int \<Rightarrow> client_tuple \<Rightarrow> bool \<Rightarrow> wild \<Rightarrow> wild" where
  "through msg c still s =
     (let s = s\<lparr>serving := Free\<rparr>
      in if msg = USER_ON \<and> still then becomes c Waits_list (asks_server GET_CLIENTS c s) else s)"

definition interrupts :: "client_tuple \<Rightarrow> wild \<Rightarrow> wild" where
  "interrupts c s = becomes c Gone
     (s\<lparr>requests := map (\<lambda>(m, d, still). (m, d, still \<and> d \<noteq> c)) (requests s),
        serving := (case serving s of Free \<Rightarrow> Free | Telling m d still ts \<Rightarrow> Telling m d (still \<and> d \<noteq> c) ts)\<rparr>)"

text \<open>
  A client that ended cannot be reached; when it ends while the server waits for its approval, the
  read fails and the server tells nobody else of the newcomer.
\<close>

inductive wild_step :: "wild \<Rightarrow> wild \<Rightarrow> bool" where
  takes_request: "serving s = Free \<Longrightarrow> requests s = (msg, c, still) # q \<Longrightarrow> wild_step s (takes msg c still (s\<lparr>requests := q\<rparr>))"
| gets_approval: "serving s = Telling msg c still (t # ts) \<Longrightarrow> doing s t = Listening \<Longrightarrow>
    wild_step s (s\<lparr>serving := Telling msg c still ts\<rparr>)"
| finds_nobody: "serving s = Telling msg c still (t # ts) \<Longrightarrow> doing s t = Gone \<Longrightarrow>
    wild_step s (s\<lparr>serving := Telling msg c still ts\<rparr>)"
| breaks_off: "serving s = Telling USER_ON c still (t # ts) \<Longrightarrow> doing s t = Gone \<Longrightarrow>
    wild_step s (s\<lparr>serving := Telling USER_ON c still []\<rparr>)"
| is_through: "serving s = Telling msg c still [] \<Longrightarrow> wild_step s (through msg c still s)"
| comes: "doing s c \<in> {Off, Gone} \<Longrightarrow> wild_step s (becomes c Waits_tuple (asks_server LOG_ON c s))"
| departs: "doing s c = Listening \<Longrightarrow> wild_step s (becomes c Leaving (asks_server LOG_OFF c s))"
| is_interrupted: "doing s c \<in> {Waits_tuple, Waits_list} \<Longrightarrow> wild_step s (interrupts c s)"

inductive_cases wild_stepE: "wild_step s s'"

definition nobody_yet :: wild where
  "nobody_yet = \<lparr> doing = (\<lambda>c. Off), requests = [], serving = Free, listed = [] \<rparr>"

abbreviation can_be :: "wild \<Rightarrow> bool" where "can_be s \<equiv> wild_step\<^sup>*\<^sup>* nobody_yet s"

section \<open>Invariant\<close>

definition welcomed :: "wild \<Rightarrow> client_tuple option" where
  "welcomed s = (case serving s of Telling msg c still ts \<Rightarrow> if msg = USER_ON \<and> still then Some c else None | Free \<Rightarrow> None)"

text \<open>The messages of the requests of a client whose answer it still waits for.\<close>

definition pending :: "wild \<Rightarrow> client_tuple \<Rightarrow> int list" where
  "pending s c = map fst (filter (\<lambda>(m, d, still). d = c \<and> still) (requests s))"

definition wild_ok :: "wild \<Rightarrow> bool" where
  "wild_ok s \<longleftrightarrow>
     (\<forall>c. pending s c = (if welcomed s = Some c then [] else case request_of (doing s c) of None \<Rightarrow> [] | Some m \<Rightarrow> [m])) \<and>
     (\<forall>m c. (m, c, False) \<in> set (requests s) \<longrightarrow> m \<in> {LOG_ON, GET_CLIENTS}) \<and>
     (\<forall>c. welcomed s = Some c \<longrightarrow> doing s c = Waits_tuple) \<and>
     (\<forall>c. doing s c \<in> {Waits_list, Listening, Leaving} \<or> welcomed s = Some c \<longrightarrow> c \<in> set (listed s)) \<and>
     distinct (listed s)"

lemma becomes_fields [simp]:
  "doing (becomes c p s) = (doing s)(c := p)" "requests (becomes c p s) = requests s" "serving (becomes c p s) = serving s"
  "listed (becomes c p s) = listed s" "welcomed (becomes c p s) = welcomed s" "pending (becomes c p s) d = pending s d"
  by (simp_all add: becomes_def welcomed_def pending_def)

lemma asks_fields [simp]:
  "doing (asks_server m c s) = doing s" "requests (asks_server m c s) = requests s @ [(m, c, True)]"
  "serving (asks_server m c s) = serving s" "listed (asks_server m c s) = listed s" "welcomed (asks_server m c s) = welcomed s"
  "pending (asks_server m c s) d = (if d = c then pending s d @ [m] else pending s d)"
  by (simp_all add: asks_server_def welcomed_def pending_def)

lemma welcomed_simps [simp]:
  "serving s = Free \<Longrightarrow> welcomed s = None"
  "serving s = Telling msg c still ts \<Longrightarrow> welcomed s = (if msg = USER_ON \<and> still then Some c else None)"
  "welcomed (s\<lparr>requests := q\<rparr>) = welcomed s" "welcomed (s\<lparr>listed := l\<rparr>) = welcomed s"
  by (simp_all add: welcomed_def)

lemma pending_simps [simp]:
  "pending (s\<lparr>serving := v\<rparr>) c = pending s c" "pending (s\<lparr>listed := l\<rparr>) c = pending s c"
  "pending (s\<lparr>listed := l, serving := v\<rparr>) c = pending s c"
  by (simp_all add: pending_def)

lemma pending_interrupts [simp]: "pending (interrupts c s) d = (if d = c then [] else pending s d)"
  by (induction "requests s") (auto simp: interrupts_def pending_def filter_empty_conv filter_map o_def case_prod_unfold intro!: arg_cong [of _ _ "map fst"] filter_cong)

lemma interrupts_fields [simp]:
  "doing (interrupts c s) = (doing s)(c := Gone)" "listed (interrupts c s) = listed s"
  "welcomed (interrupts c s) = (if welcomed s = Some c then None else welcomed s)"
  by (auto simp: interrupts_def welcomed_def becomes_def split: serving.split)

lemma wild_ok_start: "wild_ok nobody_yet"
  by (simp add: wild_ok_def nobody_yet_def pending_def)

text \<open>What the invariant says of the first request of the queue.\<close>

lemma first_of_queue:
  assumes "wild_ok s" "serving s = Free" "requests s = (msg, c, still) # q"
  shows "still \<Longrightarrow> request_of (doing s c) = Some msg" "\<not> still \<Longrightarrow> msg \<in> {LOG_ON, GET_CLIENTS}"
    "pending (s\<lparr>requests := q\<rparr>) d =
      (if d = c \<and> still then [] else case request_of (doing s d) of None \<Rightarrow> [] | Some m \<Rightarrow> [m])"
    "(m, d, False) \<in> set q \<Longrightarrow> m \<in> {LOG_ON, GET_CLIENTS}"
    "doing s d \<in> {Waits_list, Listening, Leaving} \<Longrightarrow> d \<in> set (listed s)" "distinct (listed s)"
proof -
  have p: "pending s d = (case request_of (doing s d) of None \<Rightarrow> [] | Some m \<Rightarrow> [m])" for d
    using assms(1,2) by (simp add: wild_ok_def)
  have head: "pending s d = (if d = c \<and> still then msg # pending (s\<lparr>requests := q\<rparr>) d else pending (s\<lparr>requests := q\<rparr>) d)" for d
    using assms(3) by (auto simp: pending_def)
  show "request_of (doing s c) = Some msg" if still using p [of c] head [of c] that by (auto split: option.splits)
  show "\<not> still \<Longrightarrow> msg \<in> {LOG_ON, GET_CLIENTS}" "(m, d, False) \<in> set q \<Longrightarrow> m \<in> {LOG_ON, GET_CLIENTS}" using assms(1,3) by (auto simp: wild_ok_def)
  show "pending (s\<lparr>requests := q\<rparr>) d =
      (if d = c \<and> still then [] else case request_of (doing s d) of None \<Rightarrow> [] | Some m \<Rightarrow> [m])"
    using p [of d] head [of d] by (auto split: option.splits)
  show "doing s d \<in> {Waits_list, Listening, Leaving} \<Longrightarrow> d \<in> set (listed s)" "distinct (listed s)"
    using assms(1) unfolding wild_ok_def by blast+
qed

text \<open>A client that takes no part: its answer changes nothing it was waiting for.\<close>

lemma answered_ok:
  assumes "wild_ok s" "serving s = Free" "requests s = (msg, c, still) # q" "request_of p = None"
    and "p = Listening \<longrightarrow> c \<in> set (listed s)"
  shows "wild_ok (answered c still p (s\<lparr>requests := q\<rparr>))"
  using assms(2,4,5) first_of_queue [OF assms(1-3)] by (auto simp: wild_ok_def answered_def split: option.splits)

lemma takes_ok:
  assumes "wild_ok s" "serving s = Free" "requests s = (msg, c, still) # q"
  shows "wild_ok (takes msg c still (s\<lparr>requests := q\<rparr>))"
proof -
  note f = first_of_queue [OF assms]
  have gone: "wild_ok (answered c still Gone (s\<lparr>requests := q\<rparr>))"
    by (rule answered_ok [OF assms]) simp_all
  consider (on) "msg = LOG_ON" "c \<notin> set (listed s)" | (get) "msg = GET_CLIENTS" "c \<in> set (listed s)"
    | (off) "msg \<noteq> LOG_ON" "msg \<noteq> GET_CLIENTS" "c \<in> set (listed s)" | (refused) "msg \<noteq> GET_CLIENTS \<longrightarrow> (msg = LOG_ON \<longleftrightarrow> c \<in> set (listed s))"
      "msg = GET_CLIENTS \<longrightarrow> c \<notin> set (listed s)" by blast
  then show ?thesis
  proof cases
    case on
    have w: "still \<Longrightarrow> doing s c = Waits_tuple" using f(1) on(1) by (cases "doing s c") (auto simp: code_neqs)
    have "wild_ok (s\<lparr>requests := q, listed := listed s @ [c], serving := Telling USER_ON c still (listed s)\<rparr>)"
      using f(3-6) on w by (auto simp: wild_ok_def split: option.splits if_splits)
    then show ?thesis using on by (simp add: takes_def)
  next
    case get
    have "wild_ok (answered c still Listening (s\<lparr>requests := q\<rparr>))" by (rule answered_ok [OF assms]) (simp_all add: get)
    with get show ?thesis by (simp add: takes_def code_neqs)
  next
    case off
    let ?s = "s\<lparr>requests := q, listed := remove1 c (listed s), serving := Telling USER_OFF c still (remove1 c (listed s))\<rparr>"
    have "still" "doing s c = Leaving" using f(1,2) off by (cases "doing s c"; auto)+
    then have "wild_ok (answered c still Gone ?s)"
      using f(3-6) by (auto simp: wild_ok_def answered_def code_neqs split: option.splits if_splits)
    with off show ?thesis by (simp add: takes_def Let_def)
  next
    case refused
    then show ?thesis using gone by (auto simp: takes_def code_neqs)
  qed
qed

lemma comes_ok: "wild_ok s \<Longrightarrow> doing s c \<in> {Off, Gone} \<Longrightarrow> wild_ok (becomes c Waits_tuple (asks_server LOG_ON c s))"
  by (auto simp: wild_ok_def split: option.splits if_splits)

lemma departs_ok: "wild_ok s \<Longrightarrow> doing s c = Listening \<Longrightarrow> wild_ok (becomes c Leaving (asks_server LOG_OFF c s))"
  by (auto simp: wild_ok_def split: option.splits if_splits)

lemma interrupts_ok:
  assumes "wild_ok s" "doing s c \<in> {Waits_tuple, Waits_list}"
  shows "wild_ok (interrupts c s)"
proof -
  have "m \<in> {LOG_ON, GET_CLIENTS}" if "(m, d, False) \<in> set (requests (interrupts c s))" for m d
  proof -
    have "(m, d, False) \<in> (\<lambda>(m, d, still). (m, d, still \<and> d \<noteq> c)) ` set (requests s)"
      using that by (simp add: interrupts_def)
    then obtain r where r: "(m, d, False) = (case r of (m, d, still) \<Rightarrow> (m, d, still \<and> d \<noteq> c))" "r \<in> set (requests s)" by (rule imageE)
    obtain m' d' b where "r = (m', d', b)" by (rule prod_cases3)
    with r have "(m, d, b) \<in> set (requests s)" "\<not> (b \<and> d \<noteq> c)" by auto
    then have "(m, d, False) \<in> set (requests s) \<or> (m, c, True) \<in> set (requests s)" by (cases b) auto
    then have "(m, d, False) \<in> set (requests s) \<or> m \<in> set (pending s c)"
      by (force simp: pending_def)
    moreover have "pending s c = (if welcomed s = Some c then [] else case request_of (doing s c) of None \<Rightarrow> [] | Some m \<Rightarrow> [m])"
      "(m, d, False) \<in> set (requests s) \<longrightarrow> m \<in> {LOG_ON, GET_CLIENTS}"
      using assms(1) unfolding wild_ok_def by blast+
    ultimately show ?thesis using assms(2) by (auto split: if_splits)
  qed
  then show ?thesis using assms by (auto simp: wild_ok_def split: option.splits if_splits)
qed

lemma tells_on_ok:
  assumes "wild_ok s" "serving s = Telling msg c still ts"
  shows "wild_ok (s\<lparr>serving := Telling msg c still us\<rparr>)"
  using assms by (simp add: wild_ok_def)

lemma through_ok:
  assumes "wild_ok s" "serving s = Telling msg c still []"
  shows "wild_ok (through msg c still s)"
  using assms by (auto simp: wild_ok_def through_def Let_def split: option.splits if_splits)

lemma wild_step_ok: "wild_step s s' \<Longrightarrow> wild_ok s \<Longrightarrow> wild_ok s'"
  by (induction rule: wild_step.induct)
    (auto intro: takes_ok through_ok comes_ok departs_ok interrupts_ok tells_on_ok)

lemma can_be_ok: "can_be s \<Longrightarrow> wild_ok s"
  by (induction rule: rtranclp_induct) (auto intro: wild_ok_start wild_step_ok)

section \<open>Without interruptions\<close>

text \<open>The steps of Network are those steps in which every client waits for its answers.\<close>

definition as_wild :: "network \<Rightarrow> wild" where
  "as_wild s = \<lparr> doing = phase_of s, requests = map (\<lambda>(m, c). (m, c, True)) (queue s),
     serving = (case server_at s of Accepting \<Rightarrow> Free | Notifying msg c ts \<Rightarrow> Telling msg c True ts), listed = registered s \<rparr>"

lemma as_wild_fields [simp]:
  "doing (as_wild s) = phase_of s" "requests (as_wild s) = map (\<lambda>(m, c). (m, c, True)) (queue s)"
  "serving (as_wild s) = (case server_at s of Accepting \<Rightarrow> Free | Notifying msg c ts \<Rightarrow> Telling msg c True ts)"
  "listed (as_wild s) = registered s"
  by (simp_all add: as_wild_def)

lemma as_wild_goes: "as_wild (goes c p s) = becomes c p (as_wild s)"
  by (simp add: as_wild_def goes_def becomes_def)

lemma as_wild_sends: "as_wild (sends_request m c s) = asks_server m c (as_wild s)"
  by (simp add: as_wild_def sends_request_def asks_server_def)

lemma as_wild_updates:
  "as_wild (s\<lparr>queue := q\<rparr>) = (as_wild s)\<lparr>requests := map (\<lambda>(m, c). (m, c, True)) q\<rparr>"
  "as_wild (s\<lparr>server_at := Notifying msg c ts\<rparr>) = (as_wild s)\<lparr>serving := Telling msg c True ts\<rparr>"
  "as_wild (s\<lparr>server_at := Accepting\<rparr>) = (as_wild s)\<lparr>serving := Free\<rparr>"
  "as_wild (s\<lparr>registered := ts', server_at := Notifying msg c ts\<rparr>) = (as_wild s)\<lparr>listed := ts', serving := Telling msg c True ts\<rparr>"
  by (simp_all add: as_wild_def)

lemma as_wild_answers: "as_wild (answers msg c s) = takes msg c True (as_wild s)"
  by (simp add: answers_def takes_def answered_def as_wild_goes as_wild_updates registry_simps Let_def)

lemma as_wild_all_told: "as_wild (all_told msg c s) = through msg c True (as_wild s)"
  by (simp add: all_told_def through_def as_wild_goes as_wild_sends as_wild_updates Let_def)

lemma server_step_wild: "server_step s s' \<Longrightarrow> wild_step (as_wild s) (as_wild s')"
proof (induction rule: server_step.induct)
  case (accepts s msg c q)
  then show ?case
    using takes_request [of "as_wild s" msg c True "map (\<lambda>(m, c). (m, c, True)) q"] by (simp add: as_wild_answers as_wild_updates)
next
  case (approves s msg c t ts)
  then show ?case using gets_approval [of "as_wild s" msg c True t ts] by (simp add: as_wild_updates)
next
  case (not_reached s msg c t ts)
  then show ?case using finds_nobody [of "as_wild s" msg c True t ts] by (simp add: as_wild_updates)
next
  case (ends s msg c)
  then show ?case using is_through [of "as_wild s" msg c True] by (simp add: as_wild_all_told)
qed

lemma client_step_wild: "client_step s s' \<Longrightarrow> wild_step (as_wild s) (as_wild s')"
proof (induction rule: client_step.induct)
  case (starts s c)
  then show ?case using comes [of "as_wild s" c] by (simp add: as_wild_goes as_wild_sends)
next
  case (leaves s c)
  then show ?case using departs [of "as_wild s" c] by (simp add: as_wild_goes as_wild_sends)
qed

theorem network_is_wild:
  assumes "net_step\<^sup>*\<^sup>* s s'"
  shows "wild_step\<^sup>*\<^sup>* (as_wild s) (as_wild s')"
  using assms
proof (induction rule: rtranclp_induct)
  case (step y z)
  then have "wild_step (as_wild y) (as_wild z)"
    using server_step_wild client_step_wild by (auto simp: net_step_def)
  with step.IH show ?case by (rule rtranclp.rtrancl_into_rtrancl)
qed simp

section \<open>Properties\<close>

text \<open>
  Whatever clients are interrupted and started again, the server's list has no duplicates and
  contains every client that is in its main loop.
\<close>

theorem listening_are_listed:
  assumes "can_be s"
  shows "{c. doing s c = Listening} \<subseteq> set (listed s) \<and> distinct (listed s)"
  using can_be_ok [OF assms] unfolding wild_ok_def by blast

text \<open>A client that is listed, but has ended or is only starting.\<close>

definition ghost :: "client_tuple \<Rightarrow> wild \<Rightarrow> bool" where
  "ghost c s \<longleftrightarrow> c \<in> set (listed s) \<and> doing s c \<in> {Gone, Waits_tuple} \<and> welcomed s \<noteq> Some c"

lemma ghost_answered: "ghost c s \<Longrightarrow> d = c \<longrightarrow> p = Gone \<Longrightarrow> ghost c (answered d still p s)"
  by (auto simp: ghost_def answered_def)

lemma ghost_step:
  assumes "wild_step s s'" "wild_ok s" "ghost c s"
  shows "ghost c s'"
  using assms(1)
proof (cases rule: wild_step.cases)
  case (takes_request msg d still q)
  note f = first_of_queue [OF assms(2) takes_request(2,3)]
  have ghost: "ghost c (s\<lparr>requests := q\<rparr>)" using assms(3) by (simp add: ghost_def)
  have "msg = LOG_ON \<or> \<not> still \<and> msg = GET_CLIENTS" if "d = c"
    using f(1,2) that assms(3) by (cases still) (auto simp: ghost_def)
  then show ?thesis unfolding takes_request(1)
    using ghost ghost_answered [OF ghost] assms(3) takes_request(2)
    by (auto simp: takes_def ghost_def answered_def code_neqs Let_def)
next
  case (is_through msg d still)
  then show ?thesis using assms(3) by (auto simp: ghost_def through_def Let_def)
qed (use assms(3) in \<open>auto simp: ghost_def\<close>)

text \<open>
  C40: A client that is interrupted while it is being welcomed, or while it waits for the list of
  clients, stays in the server's list for ever; when it is started again it is refused every time,
  since it never gets beyond the question whether it may log on.
\<close>

theorem interrupted_start_bars:
  assumes "can_be s" "doing s c = Waits_list \<or> welcomed s = Some c" "wild_step\<^sup>*\<^sup>* (interrupts c s) s'"
  shows "c \<in> set (listed s') \<and> doing s' c \<in> {Gone, Waits_tuple}"
proof -
  note w = can_be_ok [OF assms(1)]
  have doing: "doing s c \<in> {Waits_tuple, Waits_list}" "c \<in> set (listed s)"
    using w assms(2) unfolding wild_ok_def by blast+
  from assms(3) have "wild_ok s' \<and> ghost c s'"
  proof (induction rule: rtranclp_induct)
    case base
    then show ?case using interrupts_ok [OF w doing(1)] doing(2) by (simp add: ghost_def)
  next
    case (step y z)
    then show ?case using wild_step_ok [of y z] ghost_step [of y z c] by blast
  qed
  then show ?thesis by (simp add: ghost_def)
qed

text \<open>The first client is listed, interrupted, and comes again.\<close>

definition being_welcomed :: wild where
  "being_welcomed = \<lparr> doing = (\<lambda>c. if c = client_at 1 then Waits_tuple else Off), requests = [],
     serving = Telling USER_ON (client_at 1) True [], listed = [client_at 1] \<rparr>"

lemma being_welcomed_reached: "can_be being_welcomed"
proof -
  let ?s = "becomes (client_at 1) Waits_tuple (asks_server LOG_ON (client_at 1) nobody_yet)"
  have "wild_step nobody_yet ?s" by (rule comes) (simp add: nobody_yet_def)
  moreover have "serving ?s = Free" "requests ?s = (LOG_ON, client_at 1, True) # []" by (simp_all add: nobody_yet_def)
  then have "wild_step ?s (takes LOG_ON (client_at 1) True (?s\<lparr>requests := []\<rparr>))" by (rule takes_request)
  moreover have "takes LOG_ON (client_at 1) True (?s\<lparr>requests := []\<rparr>) = being_welcomed"
    by (auto simp: takes_def being_welcomed_def nobody_yet_def becomes_def asks_server_def fun_eq_iff)
  ultimately show ?thesis by (metis converse_rtranclp_into_rtranclp rtranclp.rtrancl_refl)
qed

theorem interrupted_start_bars_witness:
  "\<exists>s'. wild_step\<^sup>*\<^sup>* (interrupts (client_at 1) being_welcomed) s' \<and> requests s' = [(LOG_ON, client_at 1, True)] \<and>
    client_at 1 \<in> set (listed s') \<and> doing s' (client_at 1) = Waits_tuple"
proof -
  let ?i = "interrupts (client_at 1) being_welcomed"
  let ?s = "becomes (client_at 1) Waits_tuple (asks_server LOG_ON (client_at 1) ?i)"
  have "wild_step\<^sup>*\<^sup>* ?i ?s" by (intro r_into_rtranclp comes) simp
  moreover have "requests ?s = [(LOG_ON, client_at 1, True)]" "doing ?s (client_at 1) = Waits_tuple"
    by (simp_all add: interrupts_def being_welcomed_def)
  moreover have "welcomed being_welcomed = Some (client_at 1)" by (simp add: being_welcomed_def)
  ultimately show ?thesis using interrupted_start_bars [OF being_welcomed_reached, of "client_at 1" ?s] by blast
qed

theorem listening_are_listed_witness: "{c. doing being_welcomed c = Listening} \<subseteq> {client_at 1}"
  using listening_are_listed [OF being_welcomed_reached] by (simp add: being_welcomed_def)

end
