(* ===== verification/Shutdown.thy ===== *)
theory Shutdown
  imports ClientServe
begin

text \<open>
  How the threads of the dropbox client (SysPro_Project3/src/dropbox_client.c) come to an end: the
  termination flag that the handler of SIGINT sets, the tests of it in work and main, and the broadcasts
  of the handler.  Threads has the steps up to the signal.  The handler does not take the mutex, so it
  may run while a thread has tested the condition of its waiting loop and is not yet waiting.  A push
  and the broadcast behind it are one step.  Other clients answer or break the connection.
\<close>

section \<open>States\<close>

datatype waiter = Worker nat | Main

text \<open>window is the thread between the test of its waiting loop and pthread_cond_wait; it has the mutex.\<close>

record stopping =
  now :: threads
  window :: "waiter option"
  term_flag :: bool
  returned :: "nat set"
  main_left :: bool

definition begun :: "nat \<Rightarrow> nat \<Rightarrow> stopping" where
  "begun n w = \<lparr> now = started n w, window = None, term_flag = False, returned = {}, main_left = False \<rparr>"

fun must_wait :: "waiter \<Rightarrow> threads \<Rightarrow> bool" where
  "must_wait (Worker i) s \<longleftrightarrow> (is_at s i Taking \<and> buffer_is_empty (ring_buffer s)) \<or>
     ((\<exists>e es. is_at s i (Pushing (e # es))) \<and> buffer_is_full (ring_buffer s))"
| "must_wait Main s \<longleftrightarrow> (\<exists>e. main_thread s = MainPushes e) \<and> buffer_is_full (ring_buffer s)"

fun falls_asleep :: "waiter \<Rightarrow> threads \<Rightarrow> threads" where
  "falls_asleep (Worker i) s = goes_to s i (case workers s ! i of Pushing es \<Rightarrow> PushWaits es | _ \<Rightarrow> TakeWaits)"
| "falls_asleep Main s = s\<lparr>main_thread := (case main_thread s of MainPushes e \<Rightarrow> MainWaits e | m \<Rightarrow> m)\<rparr>"

section \<open>Before the signal\<close>

inductive calm_step :: "stopping \<Rightarrow> stopping \<Rightarrow> bool" where
  runs: "window x = None \<Longrightarrow> step (now x) s \<Longrightarrow> calm_step x (x\<lparr>now := s\<rparr>)"
| tests: "window x = None \<Longrightarrow> must_wait t (now x) \<Longrightarrow> calm_step x (x\<lparr>window := Some t\<rparr>)"
| sleeps: "window x = Some t \<Longrightarrow> calm_step x (x\<lparr>window := None, now := falls_asleep t (now x)\<rparr>)"

definition handler :: "stopping \<Rightarrow> stopping" where
  "handler x = x\<lparr>term_flag := True, now := sig_h (now x)\<rparr>"

section \<open>After the signal\<close>

text \<open>
  A worker returns where it tests the flag, at the top of its loop or behind a poll; until then it may
  fail, or receive the rest of a list, which it does not push any more.  The main thread leaves its
  loop at the next test.  Nothing pushes, so nothing wakes a sleeping thread.
\<close>

inductive end_step :: "stopping \<Rightarrow> stopping \<Rightarrow> bool" where
  top_returns: "is_at (now x) i Taking \<Longrightarrow> i \<notin> returned x \<Longrightarrow> window x \<noteq> Some (Worker i) \<Longrightarrow>
    end_step x (x\<lparr>returned := insert i (returned x)\<rparr>)"
| poll_returns: "is_at (now x) i w \<Longrightarrow> w = Holding j \<or> w = Fetching j es \<Longrightarrow> i \<notin> returned x \<Longrightarrow>
    end_step x (x\<lparr>returned := insert i (returned x)\<rparr>)"
| fails: "is_at (now x) i w \<Longrightarrow> w = Holding j \<or> w = Fetching j es \<Longrightarrow> i \<notin> returned x \<Longrightarrow>
    end_step x (x\<lparr>now := goes_to (now x) i Taking\<rparr>)"
| list_ends: "is_at (now x) i (Fetching j es) \<Longrightarrow> i \<notin> returned x \<Longrightarrow>
    end_step x (x\<lparr>now := goes_to (now x) i (Pushing (es @ es'))\<rparr>)"
| drops_list: "is_at (now x) i (Pushing es) \<Longrightarrow> i \<notin> returned x \<Longrightarrow> window x = None \<Longrightarrow>
    end_step x (x\<lparr>now := goes_to (now x) i Taking\<rparr>)"
| too_late: "window x = Some t \<Longrightarrow> end_step x (x\<lparr>window := None, now := falls_asleep t (now x)\<rparr>)"
| main_leaves: "main_thread (now x) = Serving \<or> (\<exists>e. main_thread (now x) = MainPushes e) \<and> window x = None \<Longrightarrow>
    \<not> main_left x \<Longrightarrow> end_step x (x\<lparr>main_left := True\<rparr>)"

section \<open>Who is awake\<close>

text \<open>The thread in the window, before and after it fell asleep.\<close>

fun at_wait :: "waiter \<Rightarrow> threads \<Rightarrow> bool" where
  "at_wait (Worker i) s \<longleftrightarrow> is_at s i Taking \<or> (\<exists>es. is_at s i (Pushing es))"
| "at_wait Main s \<longleftrightarrow> (\<exists>e. main_thread s = MainPushes e)"

fun sleeping :: "waiter \<Rightarrow> threads \<Rightarrow> bool" where
  "sleeping (Worker i) s \<longleftrightarrow> i < length (workers s) \<and> waits (workers s ! i)"
| "sleeping Main s \<longleftrightarrow> (\<exists>e. main_thread s = MainWaits e)"

lemma must_wait_at: "must_wait t s \<Longrightarrow> at_wait t s"
  by (cases t) auto

lemma at_wait_awake: "at_wait t s \<Longrightarrow> \<not> sleeping t s"
  by (cases t) (auto simp: is_at_def waits_def)

lemma falls_asleep_sleeps: "at_wait t s \<Longrightarrow> sleeping t (falls_asleep t s)"
  by (cases t) (auto simp: is_at_def waits_def goes_to_def)

lemma falls_asleep_others: "t \<noteq> t' \<Longrightarrow> sleeping t' (falls_asleep t s) = sleeping t' s"
  by (cases t; cases t') (auto simp: goes_to_def)

lemma length_falls_asleep [simp]: "length (workers (falls_asleep t s)) = length (workers s)"
  by (cases t) simp_all

lemma nth_list_update': "xs[i := x] ! k = (if k = i \<and> i < length xs then x else xs ! k)"
  by (cases "i < length xs") (auto simp: nth_list_update list_update_beyond)

lemma goes_to_sleeping: "\<not> waits w \<Longrightarrow> sleeping t (goes_to s i w) \<Longrightarrow> sleeping t s"
  by (cases t) (auto simp: goes_to_def nth_list_update' split: if_splits)

lemma goes_to_others:
  "t \<noteq> Worker i \<Longrightarrow> at_wait t (goes_to s i w) = at_wait t s" "t \<noteq> Worker i \<Longrightarrow> sleeping t (goes_to s i w) = sleeping t s"
  by (cases t; auto simp: is_at_def goes_to_def)+

lemma signal_wakes: "\<not> sleeping t (sig_h s)" "at_wait t s \<Longrightarrow> at_wait t (sig_h s)" "length (workers (sig_h s)) = length (workers s)"
  by (cases t; auto simp: sig_h_def waits_def broadcast_nonempty_def broadcast_nonfull_def is_at_def
      split: worker.splits main_thread.splits)+

lemma awake_at: "is_at s i w \<Longrightarrow> \<not> waits w \<Longrightarrow> \<not> sleeping (Worker i) s"
  by (simp add: is_at_def)

lemma awake_main: "main_thread s = Serving \<or> main_thread s = MainPushes e \<Longrightarrow> \<not> sleeping Main s"
  by auto

declare at_wait.simps [simp del] sleeping.simps [simp del] falls_asleep.simps [simp del]

fun gone :: "waiter \<Rightarrow> stopping \<Rightarrow> bool" where
  "gone (Worker i) z \<longleftrightarrow> i \<in> returned z"
| "gone Main z \<longleftrightarrow> main_left z"

lemma gone_now [simp]: "gone t (z\<lparr>now := s\<rparr>) = gone t z" "gone t (z\<lparr>window := v\<rparr>) = gone t z"
    "gone t (z\<lparr>window := v, now := s\<rparr>) = gone t z" "gone t (handler z) = gone t z"
  by (cases t; simp add: handler_def)+

lemma gone_returned [simp]: "gone t (z\<lparr>returned := insert i (returned z)\<rparr>) \<longleftrightarrow> t = Worker i \<or> gone t z"
  by (cases t) auto

lemma gone_main [simp]: "gone t (z\<lparr>main_left := True\<rparr>) \<longleftrightarrow> t = Main \<or> gone t z"
  by (cases t) auto

text \<open>
  What holds in every state after a signal that found the thread t in the window (None when there
  was none) and n workers.
\<close>

definition ending :: "waiter option \<Rightarrow> nat \<Rightarrow> stopping \<Rightarrow> bool" where
  "ending t n z \<longleftrightarrow> length (workers (now z)) = n \<and>
     (case t of None \<Rightarrow> window z = None
      | Some t \<Rightarrow> (window z = Some t \<and> at_wait t (now z)) \<or> (window z = None \<and> sleeping t (now z))) \<and>
     (\<forall>t'. if t = Some t' then \<not> gone t' z else gone t' z \<or> \<not> sleeping t' (now z))"

lemma ending_start:
  assumes "\<forall>t. window x = Some t \<longrightarrow> at_wait t (now x)" "returned x = {}" "\<not> main_left x" "length (workers (now x)) = n"
  shows "ending (window x) n (handler x)"
proof -
  have "\<not> gone t x" for t using assms(2,3) by (cases t) simp_all
  moreover have "now (handler x) = sig_h (now x)" "window (handler x) = window x" by (simp_all add: handler_def)
  ultimately show ?thesis using assms(1,4) signal_wakes by (simp add: ending_def split: option.split)
qed

lemma returns_ending:
  assumes "ending t n z" "is_at (now z) i w" "\<not> waits w" "t \<noteq> Some (Worker i)"
  shows "ending t n (z\<lparr>returned := insert i (returned z)\<rparr>)"
  using assms by (auto simp: ending_def split: option.splits)

lemma moves_ending:
  assumes "ending t n z" "\<not> waits w" "t \<noteq> Some (Worker i)"
  shows "ending t n (z\<lparr>now := goes_to (now z) i w\<rparr>)"
proof -
  have others: "\<forall>t'. if t = Some t' then \<not> gone t' z else gone t' z \<or> \<not> sleeping t' (goes_to (now z) i w)"
    using assms(1) goes_to_sleeping [OF assms(2), of _ "now z" i] unfolding ending_def by (metis (full_types))
  show ?thesis using assms(1,3) others by (cases t) (simp_all add: ending_def goes_to_others)
qed

text \<open>The thread of the window takes no step but the one into sleep.\<close>

lemma not_the_waiter:
  assumes "ending t n z" "is_at (now z) i w" "\<not> waits w" "window z \<noteq> Some (Worker i) \<or> (\<forall>es. w \<noteq> Taking \<and> w \<noteq> Pushing es)"
  shows "t \<noteq> Some (Worker i)"
  using assms awake_at by (auto simp: ending_def at_wait.simps is_at_def)

lemma ending_step: "end_step z z' \<Longrightarrow> ending t n z \<Longrightarrow> ending t n z'"
proof (induction rule: end_step.induct)
  case (top_returns x i)
  then show ?case using returns_ending not_the_waiter by (metis waits_def worker.distinct)
next
  case (poll_returns x i w j es)
  then have "\<not> waits w" "\<forall>es. w \<noteq> Taking \<and> w \<noteq> Pushing es" by (auto simp: waits_def)
  then show ?case using returns_ending [of t n x i w] not_the_waiter [of t n x i w] poll_returns by blast
next
  case (fails x i w j es)
  then have "\<not> waits w" "\<forall>es. w \<noteq> Taking \<and> w \<noteq> Pushing es" by (auto simp: waits_def)
  then show ?case using moves_ending [of t n x Taking i] not_the_waiter [of t n x i w] fails by (simp add: waits_def)
next
  case (list_ends x i j es es')
  then show ?case using moves_ending [of t n x _ i] not_the_waiter [of t n x i "Fetching j es"] by (simp add: waits_def)
next
  case (drops_list x i es)
  then show ?case using moves_ending [of t n x Taking i] not_the_waiter [of t n x i "Pushing es"] by (simp add: waits_def)
next
  case (too_late x t')
  then have t: "t = Some t'" "at_wait t' (now x)" by (auto simp: ending_def split: option.splits)
  then have "sleeping t' (falls_asleep t' (now x))" by (intro falls_asleep_sleeps)
  then show ?case using too_late falls_asleep_others [of t'] t(1) by (auto simp: ending_def)
next
  case (main_leaves x)
  then have "t \<noteq> Some Main" by (auto simp: ending_def at_wait.simps sleeping.simps)
  then show ?case using main_leaves by (auto simp: ending_def split: option.splits)
qed

section \<open>How many steps\<close>

fun steps_left :: "worker \<Rightarrow> nat" where
  "steps_left Taking = 1"
| "steps_left (Holding j) = 2"
| "steps_left (Fetching j es) = 3"
| "steps_left (Pushing es) = 2"
| "steps_left _ = 0"

definition rank_of :: "stopping \<Rightarrow> nat \<Rightarrow> nat" where
  "rank_of z i = (if i \<in> returned z then 0 else steps_left (workers (now z) ! i))"

definition rank :: "stopping \<Rightarrow> nat" where
  "rank z = (\<Sum>i < length (workers (now z)). rank_of z i) + (if main_left z then 0 else 1) + (if window z = None then 0 else 1)"

lemma steps_left_le: "steps_left w \<le> 3" by (cases w) simp_all

lemma rank_bound: "rank z \<le> 3 * length (workers (now z)) + 2"
proof -
  have "(\<Sum>i < length (workers (now z)). rank_of z i) \<le> (\<Sum>i < length (workers (now z)). 3)"
    by (rule sum_mono) (simp add: rank_of_def steps_left_le)
  then show ?thesis by (simp add: rank_def)
qed

lemma sum_less_at:
  fixes f g :: "nat \<Rightarrow> nat"
  assumes "i < n" "f i < g i" "\<And>k. k < n \<Longrightarrow> k \<noteq> i \<Longrightarrow> f k \<le> g k"
  shows "sum f {..<n} < sum g {..<n}"
proof (rule sum_strict_mono_ex1)
  show "\<forall>k \<in> {..<n}. f k \<le> g k" using assms by (metis lessThan_iff less_imp_le)
qed (use assms in auto)

lemma rank_step: "end_step z z' \<Longrightarrow> rank z' < rank z"
proof (induction rule: end_step.induct)
  case (too_late x t)
  have "(\<Sum>i < length (workers (now x)). rank_of (x\<lparr>window := None, now := falls_asleep t (now x)\<rparr>) i)
      \<le> (\<Sum>i < length (workers (now x)). rank_of x i)"
    by (rule sum_mono) (cases t; auto simp: rank_of_def falls_asleep.simps goes_to_def nth_list_update' split: worker.split)
  then show ?case using too_late by (simp add: rank_def)
next
  case (main_leaves x)
  then show ?case by (auto simp: rank_def rank_of_def cong: if_cong)
qed (auto simp: rank_def is_at_def goes_to_def rank_of_def nth_list_update intro!: sum_less_at)

section \<open>How it ends\<close>

lemma ending_awake: "ending t n z \<Longrightarrow> t \<noteq> Some t' \<Longrightarrow> \<not> gone t' z \<Longrightarrow> \<not> sleeping t' (now z)"
  unfolding ending_def by (metis (full_types))

lemma thread_moves:
  assumes "ending t n z" "window z = None" "\<not> gone t' z" "t \<noteq> Some t'" "\<forall>i. t' = Worker i \<longrightarrow> i < n"
  shows "\<exists>z'. end_step z z'"
proof (cases t')
  case Main
  then have "\<not> sleeping Main (now z)" using ending_awake [OF assms(1,4,3)] by simp
  then have "main_thread (now z) = Serving \<or> (\<exists>e. main_thread (now z) = MainPushes e)"
    by (cases "main_thread (now z)") (auto simp: sleeping.simps)
  then show ?thesis using main_leaves [of z] assms(2,3) Main by auto
next
  case (Worker i)
  define w where "w = workers (now z) ! i"
  have i: "is_at (now z) i w" "i \<notin> returned z" "\<not> waits w"
    using assms Worker ending_awake [OF assms(1,4,3)] by (auto simp: is_at_def w_def ending_def sleeping.simps)
  then show ?thesis using assms(2) top_returns [of z i] poll_returns [of z i w] drops_list [of z i]
    by (cases w) (auto simp: waits_def)
qed

lemma end_step_ends:
  assumes "ending t n z" "\<nexists>z'. end_step z z'"
  shows "\<forall>t'. (\<forall>i. t' = Worker i \<longrightarrow> i < n) \<longrightarrow> (gone t' z \<longleftrightarrow> t \<noteq> Some t')"
proof -
  have w: "window z = None" using assms(2) too_late [of z] by (cases "window z") auto
  then show ?thesis using thread_moves [OF assms(1)] assms by (fastforce simp: ending_def)
qed

lemma step_workers: "step s s' \<Longrightarrow> length (workers s') = length (workers s)"
  by (induction rule: step.induct)
    (simp_all add: take_elem_def push_elem_def main_push_def broadcast_nonempty_def goes_to_def split: prod.split)

lemma calm_facts:
  assumes "calm_step\<^sup>*\<^sup>* (begun n w) x"
  shows "returned x = {}" "\<not> main_left x" "\<not> term_flag x" "\<forall>t. window x = Some t \<longrightarrow> must_wait t (now x)"
    "length (workers (now x)) = w"
proof -
  from assms have "returned x = {} \<and> \<not> main_left x \<and> \<not> term_flag x \<and> (\<forall>t. window x = Some t \<longrightarrow> must_wait t (now x)) \<and>
      length (workers (now x)) = w"
  proof (induction rule: rtranclp_induct)
    case base
    then show ?case by (simp add: begun_def started_def)
  next
    case (step y z)
    from step.hyps(2) step.IH show ?case by (cases rule: calm_step.cases) (auto dest: step_workers)
  qed
  then show "returned x = {}" "\<not> main_left x" "\<not> term_flag x" "\<forall>t. window x = Some t \<longrightarrow> must_wait t (now x)"
    "length (workers (now x)) = w" by blast+
qed

lemma end_steps_ending:
  assumes "(end_step ^^ k) y z" "ending t n y"
  shows "ending t n z \<and> k + rank z \<le> rank y"
  using assms
proof (induction k arbitrary: z)
  case (Suc k)
  then obtain v where v: "(end_step ^^ k) y v" "end_step v z" by auto
  with Suc.IH [OF v(1) Suc.prems(2)] ending_step [OF v(2), of t n] rank_step [OF v(2)] show ?case by auto
qed simp


text \<open>A worker that finds the buffer empty at its start is caught.\<close>

definition caught :: stopping where
  "caught = (begun 2 1)\<lparr>window := Some (Worker 0)\<rparr>"

definition at_rest :: stopping where
  "at_rest = (handler caught)\<lparr>window := None, now := falls_asleep (Worker 0) (now (handler caught)), main_left := True\<rparr>"

lemma caught_reachable: "calm_step\<^sup>*\<^sup>* (begun 2 1) caught"
proof -
  have "must_wait (Worker 0) (now (begun 2 1))" by (simp add: begun_def started_def is_at_def buffer_is_empty_def buffer_init_def)
  then have "calm_step (begun 2 1) caught" unfolding caught_def by (intro tests) (simp_all add: begun_def)
  then show ?thesis by blast
qed

lemma at_rest_reached: "(end_step ^^ 2) (handler caught) at_rest"
proof -
  define v where "v = (handler caught)\<lparr>window := None, now := falls_asleep (Worker 0) (now (handler caught))\<rparr>"
  have "end_step (handler caught) v" unfolding v_def by (rule too_late) (simp add: handler_def caught_def)
  moreover have "main_thread (now v) = Serving \<and> \<not> main_left v"
    by (simp add: v_def handler_def caught_def begun_def started_def sig_h_def falls_asleep.simps broadcast_nonfull_def)
  then have "end_step v (v\<lparr>main_left := True\<rparr>)" by (intro main_leaves) blast+
  ultimately show ?thesis by (auto simp: numeral_2_eq_2 at_rest_def v_def)
qed


end
