(* ===== verification/TransferStop.thy ===== *)
theory TransferStop
  imports FileTransfer
begin

text \<open>
  The receiving half of a worker of the dropbox client (SysPro_Project3/src/dropbox_client.c) when
  SIGINT arrives during a transfer.  FileTransfer has the runs without a signal; here the flag is
  tested after every poll, as the code does, and a worker that goes round on closed descriptors gets
  out when the flag is set.
\<close>

section \<open>The loop with its flag\<close>

text \<open>
  stop k is the flag after the k-th poll, later says whether it is set at some time after the
  connection broke.  A worker that sees the flag closes both descriptors; the read behind the loop then
  fails, and nothing more is written.
\<close>

function recv_until :: "(nat \<Rightarrow> bool) \<Rightarrow> bool \<Rightarrow> (nat \<Rightarrow> nat) \<Rightarrow> nat \<Rightarrow> string \<Rightarrow> string \<Rightarrow> nat \<Rightarrow> string \<Rightarrow> nat \<Rightarrow> string option" where
  "recv_until stop later r k stream buf remaining file pos =
     (if stop k then Some file
      else if remaining \<ge> 128 then
        let n = got r k 128 stream in
        if n = 0 then (if later then Some file else None)
        else
          let buf = read_into n stream buf
          in recv_until stop later r (k + 1) (drop n stream) buf (remaining - 128) (write_at pos (take 128 buf) file) (pos + 128)
      else
        let n = got r k remaining stream; buf = read_into n stream buf
        in Some (write_at pos (take remaining buf) file))"
  by pat_completeness auto
termination
  by (relation "measure (\<lambda>(stop, later, r, k, stream, buf, remaining, file, pos). remaining)") auto

declare recv_until.simps [simp del]

definition receive_until ::
    "(nat \<Rightarrow> bool) \<Rightarrow> bool \<Rightarrow> (nat \<Rightarrow> nat) \<Rightarrow> string \<Rightarrow> wire list \<Rightarrow> string option \<Rightarrow> string option option" where
  "receive_until stop later r junk answer file =
     (case answer of
        WShort msg # rest \<Rightarrow>
          if msg = FILE_NOT_FOUND \<or> msg = FILE_UP_TO_DATE then Some file
          else if msg \<noteq> FILE_SIZE then Some file
          else
            (case rest of
               WVersion v # WLong file_size # ds \<Rightarrow>
                 let content = (case file of None \<Rightarrow> [] | Some c \<Rightarrow> c) in
                 if file_size = 0 then Some (Some content)
                 else map_option Some (recv_until stop later r 0 (stream_of ds) junk file_size content 0)
             | _ \<Rightarrow> Some file)
      | _ \<Rightarrow> Some file)"

section \<open>Without a signal\<close>

lemma recv_until_quiet: "recv_until (\<lambda>k. False) False r k stream buf remaining file pos = recv_chunks r k stream buf remaining file pos"
proof (induction r k stream buf remaining "file" pos rule: recv_chunks.induct)
  case (1 r k stream buf remaining "file" pos)
  show ?case
  proof (cases "remaining \<ge> 128 \<and> got r k 128 stream \<noteq> 0")
    case True
    with 1 [OF _ refl _ refl] show ?thesis
      by (subst recv_until.simps, subst recv_chunks.simps) (simp add: Let_def)
  next
    case False
    then show ?thesis by (subst recv_until.simps, subst recv_chunks.simps) (auto simp: Let_def)
  qed
qed

lemma receive_until_quiet: "receive_until (\<lambda>k. False) False r junk answer file = receive_file r junk answer file"
  unfolding receive_until_def receive_file_def recv_until_quiet by (rule refl)

section \<open>With a signal\<close>

text \<open>One turn of the loop that reads a whole chunk.\<close>

lemma recv_until_chunk:
  assumes "\<not> stop k" "128 \<le> remaining" "128 \<le> length stream" "128 \<le> r k"
  shows "recv_until stop later r k stream buf remaining file pos =
    recv_until stop later r (k + 1) (drop 128 stream) (read_into 128 stream buf) (remaining - 128)
      (write_at pos (take 128 stream) file) (pos + 128)"
proof -
  have "got r k 128 stream = 128" using assms(3,4) by (simp add: got_def max_def min_def)
  then show ?thesis using assms(1-3) by (subst recv_until.simps) (simp add: Let_def read_into_whole)
qed

lemma write_at_write_at: "pos \<le> length file \<Longrightarrow> write_at (pos + length a) b (write_at pos a file) = write_at pos (a @ b) file"
  by (simp add: write_at_def add.commute add.left_commute)

lemma recv_until_stopped:
  assumes "\<And>j. j < m \<Longrightarrow> \<not> stop (k + j)" "\<And>k. 128 \<le> r k" "128 * m \<le> remaining" "128 * m \<le> length stream"
    and "stop (k + m) \<or> (length stream = 128 * m \<and> 128 * m + 128 \<le> remaining \<and> later)" "pos \<le> length file"
  shows "recv_until stop later r k stream buf remaining file pos = Some (write_at pos (take (128 * m) stream) file)"
  using assms
proof (induction m arbitrary: k stream buf remaining "file" pos)
  case 0
  then show ?case by (subst recv_until.simps) (auto simp: Let_def got_def write_at_def)
next
  case (Suc m)
  have "recv_until stop later r k stream buf remaining file pos =
      recv_until stop later r (k + 1) (drop 128 stream) (read_into 128 stream buf) (remaining - 128)
        (write_at pos (take 128 stream) file) (pos + 128)"
    using Suc.prems(1) [of 0] Suc.prems(2-4) by (intro recv_until_chunk) simp_all
  also have "\<dots> = Some (write_at (pos + 128) (take (128 * m) (drop 128 stream)) (write_at pos (take 128 stream) file))"
  proof (rule Suc.IH)
    show "\<not> stop (k + 1 + j)" if "j < m" for j using Suc.prems(1) [of "Suc j"] that by simp
  qed (use Suc.prems in \<open>auto simp: write_at_def\<close>)
  also have "write_at (pos + 128) (take (128 * m) (drop 128 stream)) (write_at pos (take 128 stream) file)
      = write_at pos (take (128 * Suc m) stream) file"
  proof -
    have "length (take 128 stream) = 128" using Suc.prems(4) by simp
    then show ?thesis
      using write_at_write_at [OF Suc.prems(6), of "take 128 stream" "take (128 * m) (drop 128 stream)"] by (simp add: take_add)
  qed
  finally show ?case .
qed

text \<open>
  C38: A signal during a transfer.  When the flag is set after m whole chunks, or the connection breaks
  there and the flag is set later, the worker comes back, and the file holds these m chunks followed by
  what the old file had behind them: a mixture of both versions.
\<close>

theorem stopped_transfer:
  assumes "\<forall>j < m. \<not> stop j" "\<forall>k. 128 \<le> r k" "0 < file_size" "128 * m \<le> file_size" "128 * m \<le> length (stream_of ds)"
    and "stop m \<or> (length (stream_of ds) = 128 * m \<and> 128 * m + 128 \<le> file_size \<and> later)"
  shows "receive_until stop later r junk (WShort FILE_SIZE # WVersion v # WLong file_size # ds) old
    = Some (Some (take (128 * m) (stream_of ds) @ drop (128 * m) (case old of None \<Rightarrow> [] | Some c \<Rightarrow> c)))"
  using recv_until_stopped [of m stop 0 r file_size "stream_of ds" later 0 "case old of None \<Rightarrow> [] | Some c \<Rightarrow> c" junk] assms
  by (auto simp: receive_until_def Let_def message_codes write_at_def min_def)

theorem stopped_transfer_witness:
  "receive_until (\<lambda>k. k = 1) False (\<lambda>k. 128) [] [WShort FILE_SIZE, WVersion [], WLong 300, WData (replicate 300 CHR ''n'')]
     (Some (replicate 130 CHR ''o'')) = Some (Some (replicate 128 CHR ''n'' @ ''oo''))"
proof -
  have "replicate (130 - 128) CHR ''o'' = ''oo''" by (simp add: numeral_2_eq_2)
  then show ?thesis
    using stopped_transfer [of 1 "\<lambda>k. k = 1" "\<lambda>k. 128" 300 "[WData (replicate 300 CHR ''n'')]" False "[]" "[]" "Some (replicate 130 CHR ''o'')"]
    by simp
qed

end
