(* ===== verification/ServerStart.thy ===== *)
theory ServerStart
  imports ClientStart FetchTree
begin

text \<open>
  The start of the dropbox server (SysPro_Project3/src/dropbox_server.c, main up to its loop): its
  argument, its address and its socket; and the server as a whole.  The address of the host, the
  results of the system calls and the connections come from outside.
\<close>

definition htons :: "nat \<Rightarrow> nat" where
  "htons n = (n mod 256) * 256 + n div 256 mod 256"

definition server_usage :: string where "server_usage = ''Usage: dropbox_server -p portNum'' @ nl"

text \<open>in_port_t is unsigned, so the last test of the condition never holds.\<close>

definition server_port :: "string list \<Rightarrow> 16 word option" where
  "server_port argv =
     (if length argv \<noteq> 3 \<or> strcmp (argv ! 1) ''-p'' \<noteq> 0 then None
      else let p = as_uint16 (argv ! 2) in if uint p < 0 then None else Some p)"

definition tuple_at :: "32 word \<Rightarrow> 16 word \<Rightarrow> client_tuple" where
  "tuple_at ip p = \<lparr> IP_Address = ip, portNum = int (htons (unat p)) \<rparr>"

record listen_env =
  makes_socket :: bool
  sets_option :: bool
  binds :: bool
  listens :: bool

definition server_socket :: "listen_env \<Rightarrow> quit option" where
  "server_socket e =
     (if \<not> makes_socket e then Some (Quit 1 ''Socket creation'')
      else if \<not> sets_option e then Some (Quit 1 ''setsockopt'')
      else if \<not> binds e then Some (Quit 1 ''Bind'')
      else if \<not> listens e then Some (Quit 1 ''Listen'')
      else None)"

definition dropbox_server ::
    "32 word \<Rightarrow> listen_env \<Rightarrow> connection list \<Rightarrow> string list \<Rightarrow> (fault + quit + client_tuple heap \<times> sent) option" where
  "dropbox_server ip e cs argv =
     (case server_port argv of
        None \<Rightarrow> Some (ok (Inl (Quit 1 server_usage)))
      | Some p \<Rightarrow>
          (case server_socket e of
             Some q \<Rightarrow> Some (ok (Inl q))
           | None \<Rightarrow> run_then (server_main (tuple_at ip p) cs) (\<lambda>r. Some (ok (Inr r)))))"

section \<open>Properties\<close>

lemma server_port_accepts: "server_port argv = (if length argv = 3 \<and> argv ! 1 = ''-p'' then Some (as_uint16 (argv ! 2)) else None)"
  by (simp add: server_port_def Let_def strcmp_eq_0 linorder_not_less)


lemma ntohs_htons: "n < 65536 \<Longrightarrow> ntohs (htons n) = n"
proof -
  assume "n < 65536"
  then have "n div 256 < 256" by auto
  then show ?thesis unfolding ntohs_def htons_def using mod_mult_div_eq [of n 256] by auto
qed



end
