(* ===== verification/Spec2Isabelle.thy ===== *)
theory Spec2Isabelle
  imports Program Server FileTransfer MirrorMain FetchTree NetworkSignals Shutdown TransferStop ServerStart
begin

text \<open>
  Verification of three systems programs in C: "bitcoin", a simulator of money transfers
  (SysPro_Project1/src), "mirror_client", which keeps copies of the directories of other clients
  (SysPro_Project2/src/mirror_client), and "dropbox_server" with "dropbox_client", which exchange
  files over sockets (SysPro_Project3/src).

  The sources are translated into HOL functions, function by function, with the names of the C
  functions and fields where Isabelle allows them.

  Conventions.  A run that would be undefined in C (NULL, use after free, an index outside an array,
  a read of memory never written, signed overflow) is a value Inl of a fault (Prelude); results are
  of type "fault + 'a".  A loop that need not end is a partial_function whose None means that it
  never returns; no fuel is used anywhere, and the theorems that say a function returns say so by
  Some.  All other recursions are proved to terminate.  size_t is a number with its wrap-around at
  2^64 written out (size_add, size_sub), int wraps are to_int32, ports are 16 bit words, addresses 32
  bit words.  Linked lists are heaps of nodes with addresses (DList); arrays are lists with checked
  indices; strings are lists of characters without their final NUL.  malloc never fails.

  What is not C code of the repository is an argument of the definitions: the results of system
  calls, the bytes the k-th read delivers, the value of a signal flag at each test, the contents of
  directories and files, the clock, and the MD5 digest.  Theorems about undisturbed runs fix those
  arguments; all others hold for all of them.

  Shared theories.
    Prelude      faults, size_t, string functions, lemmas on lists
    Interfaces   four locales: bounded_fifo (a bounded queue), registry (a list of members),
                 list_index (an index from keys to lists), divisible_asset (an amount that is split);
                 interpreted by CircBuffer, ClientList, HashTable and BitCoin
    Stdio        character arrays, fgetc, fscanf, strtol;  CTime  dates and printf
    Digits       decimal output read back;  Options  the option parsers (use) of the three programs
    DList        heaps of doubly linked nodes, with freeing
    FileTree, Paths   directory trees, remove_dir, paths and leaves

  The bitcoin program.
    HashTable    hashTable.c: the tables of senders and receivers.  Whatever is added is found under its key
    Queries      hashTable.c: findPayments and findEarnings
    BitCoin      bitCoin.c: the tree of a coin, its traversal by pointers, which equals a recursion
                 over the leaves; a transaction moves exactly its amount
    MergeSort, WalletSearch   mergesort.c and the search of wallet.c: sorted, in bounds, exact
    Wallet       wallet.c: balances and coin lists; makeTransaction settles and keeps the books
    Transaction  transaction.c: IDs, requestTransaction, the transactions file; the invariant says
                 that balances are what coins and recorded transactions say
    CmdLine, Commands   use.c: getline, strtok, parsers of dates and amounts, takeCommands
    WalletsInit  wallet.c: the balances file, and that it is read back;  Cleanup  what is freed when
    Program      main.c: the composition; no run creates or destroys money
  The program is a state (wallets, coins, tables, the last ID) that main passes through the balances
  file, the transactions file and the session of commands.

  The mirror client.
    Children     clientSync.c: the list of children, which refines an abstract list
    MirrorClient clientSync.c: the scan of the common directory, retries, deletions; a retry budget
    SyncProc     sync.c: one synchronisation, its two children and its verdict
    SyncPipe     sync_send.c and sync_receive.c: frames, chunks and directories over a pipe
    SyncRound    what the one writes the other rebuilds
    MirrorMain   main.c: start, scan loop and exit; and the composition of sync with the pipe
  A mirror client forks sync for every other client; the exit status carries the ID of a failure back.

  The dropbox programs.
    CircBuffer   buffer.c: the ring of elements, a bounded queue
    ClientList   client_list.c: the list of clients, which refines an abstract list
    Server       dropbox_server.c: requests and notifications; every request keeps the list
    ServerStart  dropbox_server.c: its argument and socket, and the server as a program
    Threads      dropbox_client.c: the workers and the main thread between locks, as a step relation
    Shutdown     dropbox_client.c: the same threads after SIGINT; all end but one that was about to wait
    FileTransfer dropbox_client.c, dirControl.c: one file from a client to another
    TransferStop dropbox_client.c: the receiving half when a signal arrives
    FileList     dirControl.c, dropbox_client.c: the list of files, sent and received
    FetchTree    dropbox_client.c: directories on the way, the exchange, and the composition with
                 FileList and FileTransfer: a whole directory arrives
    ClientStart  dropbox_client.c: arguments, LOG_ON, GET_CLIENTS, threads, list of clients, composed
                 with Server: the client knows the others
    ClientServe  dropbox_client.c: the loop that serves, and LOG_OFF, composed with Server
    Network      server and clients as a step relation: who waits for whom, and when for ever; its
                 server steps are refined by the functions of Server
    NetworkSignals   the same with clients that are interrupted and started again: who is barred;
                 every run of Network is one of its runs

  Shape of the results.  Invariants are predicates (..._ok) kept by every operation, step or session;
  refinements relate a heap to an abstract list (represents, holds, server_ok) and say what each
  operation does to it; the step relations (Threads, Shutdown, Network, NetworkSignals) have reachable states, invariants by
  rule induction, and exact conditions for deadlock.  Compositions state that what one program writes
  the other one reads.  Where the code goes wrong the theorems say exactly when.

  Not modelled: destroy_mtx, perror_t and the text that goes to the standard error of the server and
  the worker threads (output only); the polls before reads and writes, apart from the flag they test;
  in Network and NetworkSignals failing writes and the end of the server; the shell scripts and fill_file.c of Project 2,
  which make random test data; failure of malloc.
\<close>

end
